(* ===== verification/Dioring_Prelude.thy ===== *)
theory Dioring_Prelude
  imports Main "HOL-Library.Product_Lexorder" "HOL-Library.Option_ord" "HOL-Library.Code_Target_Nat"
begin

text \<open>
  What the components share: the finite tables the instance keeps its state in, and the lemmas
  about them. A table is an association list with each key once. An \<^emph>\<open>ordered\<close> table
  (\<^verbatim>\<open>Ordered\<close> of ordered.rs) is kept ascending by key, and its iterators yield it in that order;
  a \<^emph>\<open>hashed\<close> one (\<^verbatim>\<open>HeapMap\<close> of fixed-hash-table) has no order its clients rely on, and new
  keys are put at its end. Both are made for a number of entries and refuse one more: an insert
  answers \<^const>\<open>None\<close> where the code answers \<^verbatim>\<open>Full\<close>, and nothing changes.
  The theory \<^verbatim>\<open>Ordered_Table\<close> shows that ordered.rs implements the ordered tables used here.
  The orders on pairs and on options are the lexicographic one and the one with \<^const>\<open>None\<close>
  least, as Rust derives them.
\<close>

named_theorems table_simps \<open>lookups, keys and counts of the table operations\<close>
named_theorems frame_simps \<open>the fields an operation leaves alone\<close>

type_synonym ('k, 'v) table = "('k \<times> 'v) list"

abbreviation keys :: "('k, 'v) table \<Rightarrow> 'k list" where
  "keys t \<equiv> map fst t"

abbreviation vals :: "('k, 'v) table \<Rightarrow> 'v list" where
  "vals t \<equiv> map snd t"

section \<open>Options as the code reads them\<close>

definition is_none_or :: "('a \<Rightarrow> bool) \<Rightarrow> 'a option \<Rightarrow> bool" where
  "is_none_or p x = (case x of None \<Rightarrow> True | Some v \<Rightarrow> p v)"

definition is_some_and :: "('a \<Rightarrow> bool) \<Rightarrow> 'a option \<Rightarrow> bool" where
  "is_some_and p x = (case x of None \<Rightarrow> False | Some v \<Rightarrow> p v)"

definition opt_filter :: "('a \<Rightarrow> bool) \<Rightarrow> 'a option \<Rightarrow> 'a option" where
  "opt_filter p x = (case x of None \<Rightarrow> None | Some v \<Rightarrow> (if p v then Some v else None))"

text \<open>The lesser of the two that are there: \<^verbatim>\<open>(Some(a), Some(b)) => a.min(b), (a, b) => a.or(b)\<close>.\<close>

fun opt_lesser :: "'a::linorder option \<Rightarrow> 'a option \<Rightarrow> 'a option" where
  "opt_lesser (Some a) (Some b) = Some (min a b)"
| "opt_lesser (Some a) None = Some a"
| "opt_lesser None b = b"

text \<open>The greatest element of a list, as \<^verbatim>\<open>Iterator::max\<close> gives it.\<close>

definition list_max :: "'a::linorder list \<Rightarrow> 'a option" where
  "list_max xs = fold (\<lambda>x m. max m (Some x)) xs None"

lemma is_none_or_simps [simp]:
  "is_none_or p None" "is_none_or p (Some v) = p v"
  by (simp_all add: is_none_or_def)

lemma is_some_and_simps [simp]:
  "\<not> is_some_and p None" "is_some_and p (Some v) = p v"
  by (simp_all add: is_some_and_def)

lemma is_some_and_iff: "is_some_and p x \<longleftrightarrow> (\<exists>v. x = Some v \<and> p v)"
  by (cases x) auto

lemma is_none_or_iff: "is_none_or p x \<longleftrightarrow> (\<forall>v. x = Some v \<longrightarrow> p v)"
  by (cases x) auto

lemma opt_filter_Some [simp]: "opt_filter p x = Some v \<longleftrightarrow> x = Some v \<and> p v"
  by (cases x) (auto simp: opt_filter_def)

lemma opt_filter_None [simp]: "opt_filter p x = None \<longleftrightarrow> (\<forall>v. x = Some v \<longrightarrow> \<not> p v)"
  by (cases x) (auto simp: opt_filter_def)

lemma opt_lesser_eq_None [simp]: "opt_lesser a b = None \<longleftrightarrow> a = None \<and> b = None"
  by (cases a; cases b) auto

lemma opt_lesser_above:
  "is_none_or (\<lambda>m. n < m) (opt_lesser a b) \<longleftrightarrow> is_none_or (\<lambda>m. n < m) a \<and> is_none_or (\<lambda>m. n < m) b"
  by (cases a; cases b) auto

lemma list_max_fold_ge:
  fixes m :: "'a::linorder option"
  shows "m \<le> fold (\<lambda>x m. max m (Some x)) xs m \<and> (\<forall>x \<in> set xs. Some x \<le> fold (\<lambda>x m. max m (Some x)) xs m)"
proof (induction xs arbitrary: m)
  case (Cons x xs)
  have "max m (Some x) \<le> fold (\<lambda>x m. max m (Some x)) xs (max m (Some x))"
    using Cons.IH by blast
  from order_trans [OF max.cobounded1 this] order_trans [OF max.cobounded2 this]
  have "m \<le> fold (\<lambda>x m. max m (Some x)) xs (max m (Some x))"
    and "Some x \<le> fold (\<lambda>x m. max m (Some x)) xs (max m (Some x))" .
  then show ?case using Cons.IH by simp
qed simp

lemma list_max_fold_in:
  fixes m :: "'a::linorder option"
  shows "fold (\<lambda>x m. max m (Some x)) xs m \<in> insert m (Some ` set xs)"
proof (induction xs arbitrary: m)
  case (Cons x xs)
  have "fold (\<lambda>x m. max m (Some x)) xs (max m (Some x)) \<in> insert (max m (Some x)) (Some ` set xs)"
    by (rule Cons.IH)
  then show ?case by (auto simp: max_def split: if_splits)
qed simp

lemma list_max_ge: "x \<in> set xs \<Longrightarrow> Some x \<le> list_max xs"
  using list_max_fold_ge unfolding list_max_def by blast

lemma list_max_None [simp]: "list_max xs = None \<longleftrightarrow> xs = []"
proof
  assume "list_max xs = None"
  then show "xs = []" using list_max_ge [of _ xs] by (cases xs) force+
qed (simp add: list_max_def)

lemma list_max_Some: "list_max xs = Some m \<Longrightarrow> m \<in> set xs \<and> (\<forall>x \<in> set xs. x \<le> m)"
  using list_max_fold_in [of xs None] list_max_ge [of _ xs]
  by (auto simp: list_max_def)

lemma list_max_le_iff: "is_none_or (\<lambda>m. m \<le> n) (list_max xs) \<longleftrightarrow> (\<forall>x \<in> set xs. x \<le> n)"
proof (cases "list_max xs")
  case None
  moreover from None have "xs = []" by simp
  ultimately show ?thesis by (metis is_none_or_simps(1) list.set(1) empty_iff)
next
  case (Some m)
  then show ?thesis using list_max_Some [OF Some] by auto
qed

section \<open>Table operations\<close>

text \<open>The value under a key is \<^const>\<open>map_of\<close>'s. Put one under a key of an ordered table, in its
  place, or over the value there.\<close>

fun tput :: "'k::linorder \<Rightarrow> 'v \<Rightarrow> ('k, 'v) table \<Rightarrow> ('k, 'v) table" where
  "tput k v [] = [(k, v)]"
| "tput k v ((a, b) # t) =
     (if k < a then (k, v) # (a, b) # t else if k = a then (k, v) # t else (a, b) # tput k v t)"

definition tdel :: "'k \<Rightarrow> ('k, 'v) table \<Rightarrow> ('k, 'v) table" where
  "tdel k t = filter (\<lambda>e. fst e \<noteq> k) t"

text \<open>Change the value under a key in place, as through \<^verbatim>\<open>get_mut\<close>; nothing without the key.\<close>

definition tmod :: "'k \<Rightarrow> ('v \<Rightarrow> 'v) \<Rightarrow> ('k, 'v) table \<Rightarrow> ('k, 'v) table" where
  "tmod k f t = map (\<lambda>e. if fst e = k then (k, f (snd e)) else e) t"

text \<open>Change every value, as through \<^verbatim>\<open>values_mut\<close>.\<close>

definition tmap :: "('v \<Rightarrow> 'v) \<Rightarrow> ('k, 'v) table \<Rightarrow> ('k, 'v) table" where
  "tmap f t = map (\<lambda>e. (fst e, f (snd e))) t"

definition hput :: "'k \<Rightarrow> 'v \<Rightarrow> ('k, 'v) table \<Rightarrow> ('k, 'v) table" where
  "hput k v t = (if k \<in> set (keys t) then tmod k (\<lambda>_. v) t else t @ [(k, v)])"

text \<open>Inserts into a table made for \<open>lim\<close> entries: \<^const>\<open>None\<close> for a new key in a full table.\<close>

definition tinsert :: "nat \<Rightarrow> 'k::linorder \<Rightarrow> 'v \<Rightarrow> ('k, 'v) table \<Rightarrow> ('k, 'v) table option" where
  "tinsert lim k v t =
     (if map_of t k = None \<and> lim \<le> length t then None else Some (tput k v t))"

definition hinsert :: "nat \<Rightarrow> 'k \<Rightarrow> 'v \<Rightarrow> ('k, 'v) table \<Rightarrow> ('k, 'v) table option" where
  "hinsert lim k v t =
     (if map_of t k = None \<and> lim \<le> length t then None else Some (hput k v t))"

definition tsorted :: "('k::linorder, 'v) table \<Rightarrow> bool" where
  "tsorted t \<longleftrightarrow> sorted_wrt (<) (keys t)"

text \<open>How many of a table's values satisfy a predicate.\<close>

definition tcount :: "('v \<Rightarrow> bool) \<Rightarrow> ('k, 'v) table \<Rightarrow> nat" where
  "tcount p t = length (filter p (vals t))"

section \<open>Lookups\<close>

lemma map_of_tput [simp, table_simps]: "map_of (tput k v t) = (map_of t)(k \<mapsto> v)"
  by (induction k v t rule: tput.induct) (auto simp: fun_eq_iff)

lemma map_of_filter_keys: "map_of (filter (\<lambda>e. p (fst e)) t) k = (if p k then map_of t k else None)"
  by (induction t) auto

lemma map_of_tdel [simp, table_simps]: "map_of (tdel k t) = (map_of t)(k := None)"
  using map_of_filter_keys [of "\<lambda>x. x \<noteq> k" t] by (auto simp: tdel_def fun_eq_iff)

lemma map_of_tmod [table_simps]:
  "map_of (tmod k f t) k' = (if k' = k then map_option f (map_of t k) else map_of t k')"
  by (induction t) (auto simp: tmod_def)

lemma map_of_tmap [table_simps]: "map_of (tmap f t) k = map_option f (map_of t k)"
  by (induction t) (auto simp: tmap_def)

lemma map_of_snoc:
  "map_of (t @ [(k, v)]) k' = (case map_of t k' of None \<Rightarrow> (if k' = k then Some v else None) | Some u \<Rightarrow> Some u)"
  by (induction t) auto

lemma map_of_keys: "map_of t k = None \<longleftrightarrow> k \<notin> set (keys t)"
  by (simp add: map_of_eq_None_iff)

lemma map_of_hput [simp, table_simps]: "map_of (hput k v t) = (map_of t)(k \<mapsto> v)"
proof
  fix k'
  show "map_of (hput k v t) k' = ((map_of t)(k \<mapsto> v)) k'"
  proof (cases "map_of t k")
    case None
    then have "k \<notin> set (keys t)" by (simp add: map_of_keys)
    then show ?thesis using None
      by (auto simp: hput_def map_of_snoc simp del: map_of_append split: option.split)
  next
    case (Some u)
    then have "k \<in> set (keys t)" by (metis map_of_keys option.distinct(1))
    then show ?thesis using Some by (auto simp: hput_def map_of_tmod)
  qed
qed

section \<open>Keys and order\<close>

lemma set_keys_tput [simp, table_simps]: "fst ` set (tput k v t) = insert k (fst ` set t)"
  by (induction k v t rule: tput.induct) auto

lemma keys_tmod [simp, table_simps]: "keys (tmod k f t) = keys t"
  by (auto simp: tmod_def)

lemma keys_tmap [simp, table_simps]: "keys (tmap f t) = keys t"
  by (auto simp: tmap_def)

lemma length_tmod [simp, table_simps]: "length (tmod k f t) = length t"
  by (simp add: tmod_def)

lemma length_tmap [simp, table_simps]: "length (tmap f t) = length t"
  by (simp add: tmap_def)

lemma tsorted_Nil [simp]: "tsorted []"
  by (simp add: tsorted_def)

lemma tsorted_Cons: "tsorted ((k, v) # t) \<longleftrightarrow> (\<forall>x \<in> fst ` set t. k < x) \<and> tsorted t"
  by (auto simp: tsorted_def)

lemma tsorted_distinct: "tsorted t \<Longrightarrow> distinct (keys t)"
  by (auto simp: tsorted_def strict_sorted_iff)

lemma tsorted_tput [intro]: "tsorted t \<Longrightarrow> tsorted (tput k v t)"
  by (induction k v t rule: tput.induct) (auto simp: tsorted_Cons)

lemma tsorted_filter [intro]: "tsorted t \<Longrightarrow> tsorted (filter p t)"
  by (induction t) (auto simp: tsorted_Cons)

lemma tsorted_tdel [intro]: "tsorted t \<Longrightarrow> tsorted (tdel k t)"
  by (auto simp: tdel_def)

lemma tsorted_tmod [simp]: "tsorted (tmod k f t) = tsorted t"
  by (simp add: tsorted_def)

lemma tsorted_tmap [simp]: "tsorted (tmap f t) = tsorted t"
  by (simp add: tsorted_def)

lemma distinct_filter_keys [intro]: "distinct (keys t) \<Longrightarrow> distinct (keys (filter p t))"
  by (induction t) auto

lemma distinct_tdel [intro]: "distinct (keys t) \<Longrightarrow> distinct (keys (tdel k t))"
  by (auto simp: tdel_def)

lemma distinct_hput [intro]: "distinct (keys t) \<Longrightarrow> distinct (keys (hput k v t))"
  by (auto simp: hput_def)

lemma length_tput_new: "map_of t k = None \<Longrightarrow> length (tput k v t) = Suc (length t)"
  by (induction k v t rule: tput.induct) (auto split: if_splits)

lemma length_tput_old:
  "tsorted t \<Longrightarrow> map_of t k \<noteq> None \<Longrightarrow> length (tput k v t) = length t"
proof (induction k v t rule: tput.induct)
  case (2 k v a b t)
  have "map_of t k = None" if "k < a"
    using that "2.prems"(1) by (force simp: tsorted_Cons map_of_keys)
  then show ?case using 2 by (auto simp: tsorted_Cons split: if_splits)
qed simp

lemma length_hput:
  "length (hput k v t) = (if map_of t k = None then Suc (length t) else length t)"
proof (cases "map_of t k = None")
  case True
  then have "k \<notin> set (keys t)" by (simp add: map_of_keys)
  then show ?thesis using True by (auto simp: hput_def)
next
  case False
  then have "k \<in> set (keys t)" by (metis map_of_keys)
  then show ?thesis using False by (auto simp: hput_def)
qed

lemma length_tdel: "length (tdel k t) \<le> length t"
  by (simp add: tdel_def)

lemma tinsert_within:
  "tinsert lim k v t = Some t' \<Longrightarrow> tsorted t \<Longrightarrow> length t \<le> lim \<Longrightarrow> length t' \<le> lim"
  by (cases "map_of t k") (auto simp: tinsert_def length_tput_new length_tput_old split: if_splits)

lemma hinsert_within: "hinsert lim k v t = Some t' \<Longrightarrow> length t \<le> lim \<Longrightarrow> length t' \<le> lim"
  by (auto simp: hinsert_def length_hput split: if_splits)

section \<open>Counts\<close>

lemma tcount_Nil [simp]: "tcount p [] = 0"
  by (simp add: tcount_def)

lemma tcount_Cons [simp]: "tcount p ((k, v) # t) = (if p v then 1 else 0) + tcount p t"
  by (simp add: tcount_def)

lemma tcount_append [simp]: "tcount p (t @ u) = tcount p t + tcount p u"
  by (simp add: tcount_def)

lemma tcount_tput_new:
  "map_of t k = None \<Longrightarrow> tcount p (tput k v t) = (if p v then 1 else 0) + tcount p t"
  by (induction k v t rule: tput.induct) (auto split: if_splits)

lemma tdel_not_in: "k \<notin> fst ` set t \<Longrightarrow> tdel k t = t"
  by (force simp: tdel_def filter_id_conv)

lemma tcount_tdel:
  assumes "distinct (keys t)" and "map_of t k = Some v"
  shows "tcount p t = (if p v then 1 else 0) + tcount p (tdel k t)"
  using assms
proof (induction t)
  case (Cons e t)
  obtain a b where e: "e = (a, b)" by force
  show ?case
  proof (cases "a = k")
    case True
    then have "tdel k (e # t) = t"
      using Cons.prems(1) e tdel_not_in [of k t] by (auto simp: tdel_def)
    then show ?thesis using Cons.prems True e by simp
  next
    case False
    then show ?thesis using Cons e by (auto simp: tdel_def)
  qed
qed simp

lemma tmod_not_in: "k \<notin> fst ` set t \<Longrightarrow> tmod k f t = t"
  by (force simp: tmod_def intro: map_idI)

lemma tcount_tmod:
  assumes "distinct (keys t)" and "map_of t k = Some v"
  shows "tcount p (tmod k f t) + (if p v then 1 else 0) = tcount p t + (if p (f v) then 1 else 0)"
  using assms
proof (induction t)
  case (Cons e t)
  obtain a b where e: "e = (a, b)" by force
  show ?case
  proof (cases "a = k")
    case True
    then have "tmod k f (e # t) = (k, f b) # t"
      using Cons.prems(1) e tmod_not_in [of k t f] by (auto simp: tmod_def)
    then show ?thesis using Cons.prems True e by simp
  next
    case False
    then show ?thesis using Cons e by (auto simp: tmod_def)
  qed
qed simp

lemma tcount_pos:
  assumes "map_of t k = Some v" and "p v"
  shows "0 < tcount p t"
proof -
  have "v \<in> set (vals t)" using assms(1) by (force dest: map_of_SomeD)
  then show ?thesis using assms(2) by (auto simp: tcount_def filter_empty_conv)
qed

lemma tcount_zero: "tcount p t = 0 \<longleftrightarrow> (\<forall>e \<in> set t. \<not> p (snd e))"
  by (auto simp: tcount_def filter_empty_conv)

lemma in_table_lookup: "distinct (keys t) \<Longrightarrow> (k, v) \<in> set t \<longleftrightarrow> map_of t k = Some v"
  by (auto intro: map_of_is_SomeI dest: map_of_SomeD)

lemma tcount_eq_card:
  assumes "distinct (keys t)"
  shows "tcount p t = card {k. \<exists>v. map_of t k = Some v \<and> p v}"
proof -
  have "{k. \<exists>v. map_of t k = Some v \<and> p v} = fst ` set (filter (\<lambda>e. p (snd e)) t)"
    using assms in_table_lookup [OF assms] by force
  also have "card \<dots> = length (filter (\<lambda>e. p (snd e)) t)"
    using assms by (metis (no_types) distinct_card distinct_filter_keys length_map list.set_map)
  finally show ?thesis by (simp add: tcount_def filter_map o_def)
qed

end
