(* ===== verification/Ordered_Table.thy ===== *)
theory Ordered_Table
  imports Dioring_Prelude
begin

text \<open>
  The core's ordered tables, crates/durable-ioring/src/ordered.rs: a sorted array of slots whose
  storage is reserved once. A removal empties its slot in place; an insert takes an empty slot beside
  its place, or one at the end of a table with room, and compacts the empty slots away only when the
  array is full. \<open>present\<close> is the abstraction to the tables of the prelude, and the lemmas show each
  operation to be the prelude's, and that the array never outgrows what was reserved.

  \<^verbatim>\<open>binary_search_by\<close> and \<^verbatim>\<open>partition_point\<close> are the standard library's: on the ascending slice
  they are called with, they give the position after the keys that precede the one sought.
\<close>

section \<open>The table\<close>

datatype full = Full

record ('k, 'v) ordered =
  o_entries :: "('k \<times> 'v option) list"
  o_live :: nat
  o_limit :: nat

definition ordered_with_capacity :: "nat \<Rightarrow> ('k, 'v) ordered" where
  "ordered_with_capacity lim = \<lparr>o_entries = [], o_live = 0, o_limit = lim\<rparr>"

definition ordered_len :: "('k, 'v) ordered \<Rightarrow> nat" where
  "ordered_len t = o_live t"

text \<open>Where a key's slot is (\<^const>\<open>Inr\<close>), or where it would go (\<^const>\<open>Inl\<close>).\<close>

definition find_slot :: "('k::linorder \<times> 'v option) list \<Rightarrow> 'k \<Rightarrow> nat + nat" where
  "find_slot es k =
     (let at = length (takeWhile (\<lambda>e. fst e < k) es)
      in if at < length es \<and> fst (es ! at) = k then Inr at else Inl at)"

definition ordered_get :: "('k::linorder, 'v) ordered \<Rightarrow> 'k \<Rightarrow> 'v option" where
  "ordered_get t k =
     (case find_slot (o_entries t) k of Inl _ \<Rightarrow> None | Inr at \<Rightarrow> snd (o_entries t ! at))"

text \<open>Change the value under a key through the reference \<^verbatim>\<open>get_mut\<close> hands out.\<close>

definition ordered_get_mut ::
  "('k::linorder, 'v) ordered \<Rightarrow> 'k \<Rightarrow> ('v \<Rightarrow> 'v) \<Rightarrow> ('k, 'v) ordered" where
  "ordered_get_mut t k f =
     (case find_slot (o_entries t) k of
        Inl _ \<Rightarrow> t
      | Inr at \<Rightarrow> t\<lparr>o_entries := (o_entries t)[at := (fst (o_entries t ! at), map_option f (snd (o_entries t ! at)))]\<rparr>)"

text \<open>Drop every empty slot.\<close>

definition compact :: "('k \<times> 'v option) list \<Rightarrow> ('k \<times> 'v option) list" where
  "compact es = filter (\<lambda>e. snd e \<noteq> None) es"

text \<open>\<^verbatim>\<open>Vec::insert\<close>: everything from the position on moves up one.\<close>

definition insert_at :: "nat \<Rightarrow> 'a \<Rightarrow> 'a list \<Rightarrow> 'a list" where
  "insert_at at x xs = take at xs @ x # drop at xs"

text \<open>
  Where a new key goes: an empty slot beside its place, a slot of its own where there is room, or a
  slot of its own once the array is compacted.
\<close>

definition put_slots ::
  "nat \<Rightarrow> nat \<Rightarrow> 'k::linorder \<Rightarrow> 'v \<Rightarrow> ('k \<times> 'v option) list \<Rightarrow> ('k \<times> 'v option) list" where
  "put_slots lim at k v es =
     (if 0 < at \<and> snd (es ! (at - 1)) = None then es[at - 1 := (k, Some v)]
      else if at < length es \<and> snd (es ! at) = None then es[at := (k, Some v)]
      else if length es < lim then insert_at at (k, Some v) es
      else
        (let c = compact es;
             at' = (case find_slot c k of Inl a \<Rightarrow> a | Inr _ \<Rightarrow> length c)
         in insert_at at' (k, Some v) c))"

definition ordered_insert ::
  "('k::linorder, 'v) ordered \<Rightarrow> 'k \<Rightarrow> 'v \<Rightarrow> (full + 'v option) \<times> ('k, 'v) ordered" where
  "ordered_insert t k v =
     (let es = o_entries t in
      case find_slot es k of
        Inr at \<Rightarrow>
          (let old = snd (es ! at)
           in (Inr old, t\<lparr>o_entries := es[at := (fst (es ! at), Some v)],
                          o_live := (if old = None then o_live t + 1 else o_live t)\<rparr>))
      | Inl at \<Rightarrow>
          (if o_live t = o_limit t then (Inl Full, t)
           else
             (Inr None, t\<lparr>o_entries := put_slots (o_limit t) at k v es, o_live := o_live t + 1\<rparr>)))"

text \<open>The empty slots at the end are popped after every removal.\<close>

definition pop_empty :: "('k \<times> 'v option) list \<Rightarrow> ('k \<times> 'v option) list" where
  "pop_empty es = rev (dropWhile (\<lambda>e. snd e = None) (rev es))"

definition ordered_remove ::
  "('k::linorder, 'v) ordered \<Rightarrow> 'k \<Rightarrow> 'v option \<times> ('k, 'v) ordered" where
  "ordered_remove t k =
     (case find_slot (o_entries t) k of
        Inl _ \<Rightarrow> (None, t)
      | Inr at \<Rightarrow>
          (case snd (o_entries t ! at) of
             None \<Rightarrow> (None, t)
           | Some v \<Rightarrow>
               (Some v, t\<lparr>o_entries := pop_empty ((o_entries t)[at := (fst (o_entries t ! at), None)]),
                          o_live := o_live t - 1\<rparr>)))"

text \<open>The entries present in a run of slots, in key order: what the iterators yield.\<close>

fun present :: "('k \<times> 'v option) list \<Rightarrow> ('k, 'v) table" where
  "present [] = []"
| "present ((k, None) # es) = present es"
| "present ((k, Some v) # es) = (k, v) # present es"

definition ordered_iter :: "('k, 'v) ordered \<Rightarrow> ('k, 'v) table" where
  "ordered_iter t = present (o_entries t)"

definition ordered_between ::
  "('k, 'v) ordered \<Rightarrow> ('k \<Rightarrow> bool) \<Rightarrow> ('k \<Rightarrow> bool) \<Rightarrow> ('k, 'v) table" where
  "ordered_between t before up_to =
     (let es = o_entries t;
          start = length (takeWhile (\<lambda>e. before (fst e)) es);
          end' = max (length (takeWhile (\<lambda>e. up_to (fst e)) es)) start
      in present (take (end' - start) (drop start es)))"

text \<open>Keep the entries \<open>keep\<close> answers for, with what it made of each value; drop the others.\<close>

definition ordered_retain ::
  "('k, 'v) ordered \<Rightarrow> ('k \<Rightarrow> 'v \<Rightarrow> 'v option) \<Rightarrow> ('k, 'v) ordered" where
  "ordered_retain t keep =
     (let kept = map (\<lambda>(k, s). (k, Option.bind s (keep k))) (o_entries t)
      in t\<lparr>o_entries := pop_empty kept,
           o_live := o_live t - (length (present (o_entries t)) - length (present kept))\<rparr>)"

text \<open>Take out the entries \<open>takes\<close> picks: them, in key order, and the table without them.\<close>

definition ordered_take_where ::
  "('k, 'v) ordered \<Rightarrow> ('k \<Rightarrow> 'v \<Rightarrow> bool) \<Rightarrow> ('k, 'v) table \<times> ('k, 'v) ordered" where
  "ordered_take_where t takes =
     (let left = map (\<lambda>(k, s). (k, opt_filter (\<lambda>v. \<not> takes k v) s)) (o_entries t)
      in (filter (\<lambda>(k, v). takes k v) (present (o_entries t)),
          t\<lparr>o_entries := pop_empty left,
            o_live := o_live t - length (filter (\<lambda>(k, v). takes k v) (present (o_entries t)))\<rparr>))"

section \<open>The invariant\<close>

definition ordered_inv :: "('k::linorder, 'v) ordered \<Rightarrow> bool" where
  "ordered_inv t \<longleftrightarrow> sorted_wrt (<) (map fst (o_entries t)) \<and>
     o_live t = length (present (o_entries t)) \<and> length (o_entries t) \<le> o_limit t"

section \<open>Slots and what is present\<close>

lemma present_append [simp]: "present (xs @ ys) = present xs @ present ys"
  by (induction xs rule: present.induct) auto

lemma present_Cons: "present (e # es) = (case snd e of None \<Rightarrow> [] | Some v \<Rightarrow> [(fst e, v)]) @ present es"
  by (cases e) (auto split: option.split)

lemma present_keys: "fst ` set (present es) \<subseteq> fst ` set es"
  by (induction es rule: present.induct) auto

lemma present_length: "length (present es) \<le> length es"
  by (induction es rule: present.induct) auto

lemma present_compact [simp]: "present (compact es) = present es"
  by (induction es rule: present.induct) (auto simp: compact_def)

lemma length_compact: "length (compact es) = length (present es)"
  by (induction es rule: present.induct) (auto simp: compact_def)

lemma sorted_compact: "sorted_wrt (<) (map fst es) \<Longrightarrow> sorted_wrt (<) (map fst (compact es))"
  unfolding compact_def by (induction es) auto

lemma tsorted_present: "sorted_wrt (<) (map fst es) \<Longrightarrow> tsorted (present es)"
proof (induction es rule: present.induct)
  case (3 k v es)
  then have "\<forall>e \<in> set es. k < fst e" by auto
  then have "\<forall>e \<in> set (present es). k < fst e"
    using present_keys [of es] by (metis image_iff subsetD)
  then show ?case using 3 by (auto simp: tsorted_Cons)
qed auto

lemma pop_empty_split: "\<exists>us. es = pop_empty es @ us \<and> (\<forall>e \<in> set us. snd e = None)"
proof -
  let ?t = "takeWhile (\<lambda>e. snd e = None) (rev es)"
  have "pop_empty es @ rev ?t = rev (?t @ dropWhile (\<lambda>e. snd e = None) (rev es))"
    by (simp only: pop_empty_def rev_append)
  then have "es = pop_empty es @ rev ?t" by simp
  moreover have "\<forall>e \<in> set (rev ?t). snd e = None" by (auto dest: set_takeWhileD)
  ultimately show ?thesis by blast
qed

lemma present_empty: "(\<forall>e \<in> set us. snd e = None) \<Longrightarrow> present us = []"
  by (induction us rule: present.induct) auto

lemma present_pop_empty [simp]: "present (pop_empty es) = present es"
proof -
  obtain us where "es = pop_empty es @ us" and "\<forall>e \<in> set us. snd e = None"
    using pop_empty_split by blast
  then show ?thesis by (metis append_Nil2 present_append present_empty)
qed

lemma pop_empty_prefix: "\<exists>us. es = pop_empty es @ us"
  using pop_empty_split by blast

lemma sorted_pop_empty: "sorted_wrt (<) (map fst es) \<Longrightarrow> sorted_wrt (<) (map fst (pop_empty es))"
  using pop_empty_prefix [of es] by (metis map_append sorted_wrt_append)

lemma length_pop_empty: "length (pop_empty es) \<le> length es"
  using pop_empty_prefix [of es] by (metis le_add1 length_append)

section \<open>Searching\<close>

text \<open>A sorted array splits at a key into the slots before it and those from it on.\<close>

lemma sorted_split:
  assumes "sorted_wrt (<) (map fst (es :: ('k::linorder \<times> 'v option) list))"
  obtains as bs where "es = as @ bs" and "length as = length (takeWhile (\<lambda>e. fst e < k) es)"
    and "\<forall>e \<in> set as. fst e < k" and "\<forall>e \<in> set bs. k \<le> fst e"
proof
  let ?as = "takeWhile (\<lambda>e. fst e < k) es" and ?bs = "dropWhile (\<lambda>e. fst e < k) es"
  show "es = ?as @ ?bs" and "length ?as = length ?as" by simp_all
  show "\<forall>e \<in> set ?as. fst e < k" by (auto dest: set_takeWhileD)
  show "\<forall>e \<in> set ?bs. k \<le> fst e"
  proof (cases ?bs)
    case (Cons b bs)
    then have "\<not> fst b < k" by (simp add: dropWhile_eq_Cons_conv)
    moreover have "\<forall>e \<in> set bs. fst b < fst e"
    proof -
      have "sorted_wrt (<) (map fst (?as @ b # bs))" using assms Cons by (metis takeWhile_dropWhile_id)
      then show ?thesis by (simp add: sorted_wrt_append)
    qed
    ultimately show ?thesis using Cons by force
  next
    case Nil
    then show ?thesis by (simp only: list.set ball_empty)
  qed
qed

lemma find_slot_split:
  assumes "sorted_wrt (<) (map fst es)"
  shows "(\<exists>as s bs. es = as @ (k, s) # bs \<and> find_slot es k = Inr (length as) \<and>
            (\<forall>e \<in> set as. fst e < k) \<and> (\<forall>e \<in> set bs. k < fst e)) \<or>
         (\<exists>as bs. es = as @ bs \<and> find_slot es k = Inl (length as) \<and>
            (\<forall>e \<in> set as. fst e < k) \<and> (\<forall>e \<in> set bs. k < fst e))"
proof -
  obtain as bs where es: "es = as @ bs" and len: "length as = length (takeWhile (\<lambda>e. fst e < k) es)"
    and as: "\<forall>e \<in> set as. fst e < k" and bs: "\<forall>e \<in> set bs. k \<le> fst e"
    using sorted_split [OF assms] by blast
  show ?thesis
  proof (cases "\<exists>s cs. bs = (k, s) # cs")
    case True
    then obtain s cs where cs: "bs = (k, s) # cs" by blast
    have "\<forall>e \<in> set cs. k < fst e" using assms es cs by (auto simp: sorted_wrt_append)
    moreover have "find_slot es k = Inr (length as)"
      unfolding find_slot_def Let_def len [symmetric] using es cs by simp
    ultimately show ?thesis using es cs as by blast
  next
    case False
    have "\<forall>e \<in> set bs. k < fst e"
    proof (cases bs)
      case (Cons b cs)
      then have "fst b \<noteq> k" using False by (metis prod.collapse)
      moreover have "\<forall>e \<in> set cs. fst b < fst e" using assms es Cons by (simp add: sorted_wrt_append)
      ultimately show ?thesis using bs Cons by force
    qed simp
    moreover from this have "find_slot es k = Inl (length as)"
      unfolding find_slot_def Let_def len [symmetric] using es by (cases bs) auto
    ultimately show ?thesis using es as by blast
  qed
qed

lemma map_of_present_lt: "(\<forall>e \<in> set es. fst e < k) \<Longrightarrow> map_of (present es) k = None"
  for k :: "'k::linorder"
  by (induction es rule: present.induct) auto

lemma map_of_present_gt: "(\<forall>e \<in> set es. k < fst e) \<Longrightarrow> map_of (present es) k = None"
  for k :: "'k::linorder"
  by (induction es rule: present.induct) auto

lemmas map_of_present_around = map_of_present_lt map_of_present_gt

lemma ordered_get_present:
  assumes "ordered_inv t"
  shows "ordered_get t k = map_of (ordered_iter t) k"
proof -
  have "sorted_wrt (<) (map fst (o_entries t))" using assms by (simp add: ordered_inv_def)
  from find_slot_split [OF this, of k] show ?thesis
  proof (elim disjE exE conjE)
    fix as s bs
    assume es: "o_entries t = as @ (k, s) # bs" and "find_slot (o_entries t) k = Inr (length as)"
      and "\<forall>e \<in> set as. fst e < k" and "\<forall>e \<in> set bs. k < fst e"
    then show ?thesis
      by (cases s) (auto simp: ordered_get_def ordered_iter_def map_of_present_around map_add_def)
  next
    fix as bs
    assume "o_entries t = as @ bs" and "find_slot (o_entries t) k = Inl (length as)"
      and "\<forall>e \<in> set as. fst e < k" and "\<forall>e \<in> set bs. k < fst e"
    then show ?thesis
      by (auto simp: ordered_get_def ordered_iter_def map_of_present_around map_add_def)
  qed
qed

section \<open>Inserting\<close>

lemma tput_between:
  assumes "\<forall>e \<in> set as. fst e < k" and "\<forall>e \<in> set bs. k < fst e"
  shows "tput k v (as @ bs) = as @ (k, v) # bs"
  using assms
proof (induction as)
  case Nil
  then show ?case by (cases bs) auto
qed auto

lemma tput_over:
  assumes "\<forall>e \<in> set as. fst e < k"
  shows "tput k v (as @ (k, u) # bs) = as @ (k, v) # bs"
  using assms by (induction as) auto

lemma present_lt: "(\<forall>e \<in> set es. fst e < k) \<Longrightarrow> \<forall>e \<in> set (present es). fst e < k"
  using present_keys [of es] by (metis image_eqI image_iff subsetD)

lemma present_gt: "(\<forall>e \<in> set es. k < fst e) \<Longrightarrow> \<forall>e \<in> set (present es). k < fst e"
  using present_keys [of es] by (metis image_eqI image_iff subsetD)

lemma insert_at_length: "insert_at (length as) x (as @ bs) = as @ x # bs"
  by (simp add: insert_at_def)

lemma sorted_insert_between:
  assumes "sorted_wrt (<) (map fst (as @ bs))" and "\<forall>e \<in> set as. fst e < k" and "\<forall>e \<in> set bs. k < fst e"
  shows "sorted_wrt (<) (map fst (as @ (k, s) # bs))"
  using assms by (auto simp: sorted_wrt_append)

text \<open>
  The four ways a new key is put, each given the split of the array at its place.
\<close>

lemma find_slot_compact:
  assumes "\<forall>e \<in> set as. fst e < k" and "\<forall>e \<in> set bs. k < fst e"
  shows "find_slot (compact (as @ bs)) k = Inl (length (compact as))"
proof -
  have c: "compact (as @ bs) = compact as @ compact bs" by (simp add: compact_def)
  have ca: "\<forall>e \<in> set (compact as). fst e < k" and cb: "\<forall>e \<in> set (compact bs). k < fst e"
    using assms by (auto simp: compact_def)
  have tw: "takeWhile (\<lambda>e. fst e < k) (compact as @ compact bs) = compact as"
    using ca cb by (cases "compact bs") (auto simp: takeWhile_append)
  show ?thesis unfolding find_slot_def Let_def c tw using cb by (cases "compact bs") auto
qed

lemma put_slots_cases:
  assumes "\<forall>e \<in> set as. fst e < k" and "\<forall>e \<in> set bs. k < fst e"
  obtains (before) cs c where "as = cs @ [c]" and "snd c = None"
      and "put_slots lim (length as) k v (as @ bs) = cs @ (k, Some v) # bs"
  | (after) c cs where "bs = c # cs" and "snd c = None"
      and "put_slots lim (length as) k v (as @ bs) = as @ (k, Some v) # cs"
  | (room) "length (as @ bs) < lim"
      and "put_slots lim (length as) k v (as @ bs) = as @ (k, Some v) # bs"
  | (compacted) "put_slots lim (length as) k v (as @ bs) = compact as @ (k, Some v) # compact bs"
proof (cases "as \<noteq> [] \<and> snd (last as) = None")
  case True
  then have "as = butlast as @ [last as]" by simp
  moreover have "put_slots lim (length as) k v (as @ bs) = butlast as @ (k, Some v) # bs"
  proof -
    have "put_slots lim (length as) k v (as @ bs) = as[length as - 1 := (k, Some v)] @ bs"
      using True by (auto simp: put_slots_def nth_append last_conv_nth list_update_append)
    moreover have "as[length as - 1 := (k, Some v)] = butlast as @ [(k, Some v)]"
      using True by (metis append_Nil butlast_list_update last_list_update length_list_update list_update_nonempty snoc_eq_iff_butlast)
    ultimately show ?thesis by simp
  qed
  ultimately show ?thesis using True before by blast
next
  case no_before: False
  then have nb: "\<not> (0 < length as \<and> snd ((as @ bs) ! (length as - 1)) = None)"
    by (auto simp: nth_append last_conv_nth)
  show ?thesis
  proof (cases "\<exists>c cs. bs = c # cs \<and> snd c = None")
    case True
    then obtain c cs where cs: "bs = c # cs" "snd c = None" by blast
    then have "put_slots lim (length as) k v (as @ bs) = as @ (k, Some v) # cs"
      using nb by (auto simp: put_slots_def list_update_append)
    then show ?thesis using cs after by blast
  next
    case False
    then have na: "\<not> (length as < length (as @ bs) \<and> snd ((as @ bs) ! length as) = None)"
      by (cases bs) auto
    show ?thesis
    proof (cases "length (as @ bs) < lim")
      case True
      then have "put_slots lim (length as) k v (as @ bs) = as @ (k, Some v) # bs"
        using nb na by (simp only: put_slots_def if_True if_False insert_at_length)
      then show ?thesis using True room by blast
    next
      case full: False
      have "insert_at (length (compact as)) (k, Some v) (compact (as @ bs)) = compact as @ (k, Some v) # compact bs"
        by (simp add: compact_def insert_at_length [unfolded compact_def] insert_at_def)
      then have "put_slots lim (length as) k v (as @ bs) = compact as @ (k, Some v) # compact bs"
        using nb na full find_slot_compact [OF assms]
        by (simp only: put_slots_def if_False Let_def sum.case)
      then show ?thesis using compacted by blast
    qed
  qed
qed

lemma put_slots_inv:
  assumes "sorted_wrt (<) (map fst es)" and "find_slot es k = Inl at"
    and "length es \<le> lim" and "length (present es) < lim"
  shows "sorted_wrt (<) (map fst (put_slots lim at k v es)) \<and>
    present (put_slots lim at k v es) = tput k v (present es) \<and>
    length (put_slots lim at k v es) \<le> lim"
proof -
  from find_slot_split [OF assms(1), of k] assms(2)
  obtain as bs where es: "es = as @ bs" and at: "at = length as"
    and as: "\<forall>e \<in> set as. fst e < k" and bs: "\<forall>e \<in> set bs. k < fst e"
    by auto
  have put: "tput k v (present as @ present bs) = present as @ (k, v) # present bs"
    by (rule tput_between [OF present_lt [OF as] present_gt [OF bs]])
  show ?thesis
  proof (cases rule: put_slots_cases [OF as bs, of lim v, case_names before after room compacted])
    case (before cs c)
    then show ?thesis using assms(1,3) as bs put unfolding es at
      by (auto simp: sorted_wrt_append present_Cons)
  next
    case (after c cs)
    then show ?thesis using assms(1,3) as bs put unfolding es at
      by (auto simp: sorted_wrt_append present_Cons)
  next
    case room
    then show ?thesis using assms(1) as bs put unfolding es at by (auto simp: sorted_wrt_append)
  next
    case compacted
    have "sorted_wrt (<) (map fst (compact as @ compact bs))"
      using sorted_compact [OF assms(1)] by (simp add: es compact_def)
    then have "sorted_wrt (<) (map fst (compact as @ (k, Some v) # compact bs))"
      using as bs by (intro sorted_insert_between) (auto simp: compact_def)
    then show ?thesis using compacted put assms(4) unfolding es at by (simp add: length_compact)
  qed
qed

lemma ordered_inv_sorted: "ordered_inv t \<Longrightarrow> sorted_wrt (<) (map fst (o_entries t))"
  by (simp add: ordered_inv_def)

lemma tsorted_iter: "ordered_inv t \<Longrightarrow> tsorted (ordered_iter t)"
  by (simp add: ordered_inv_def ordered_iter_def tsorted_present)

text \<open>A slot found is where the key is, or was: what is present before it and after it is the rest.\<close>

lemma find_slot_Inr:
  assumes "ordered_inv t" and "find_slot (o_entries t) k = Inr at"
  obtains as s bs where "o_entries t = as @ (k, s) # bs" and "at = length as"
    and "\<forall>e \<in> set as. fst e < k" and "\<forall>e \<in> set bs. k < fst e"
  using find_slot_split [OF ordered_inv_sorted [OF assms(1)], of k] assms(2) by auto

lemma find_slot_Inl:
  assumes "ordered_inv t" and "find_slot (o_entries t) k = Inl at"
  shows "map_of (ordered_iter t) k = None"
  using find_slot_split [OF ordered_inv_sorted [OF assms(1)], of k] assms(2)
  by (auto simp: ordered_iter_def map_of_present_around map_add_def)

lemma ordered_insert_refines:
  assumes "ordered_inv t" and "ordered_insert t k v = (r, t')"
  shows "ordered_inv t' \<and> o_limit t' = o_limit t \<and>
    (case r of
       Inl _ \<Rightarrow> t' = t \<and> map_of (ordered_iter t) k = None \<and> length (ordered_iter t) = o_limit t
     | Inr old \<Rightarrow> old = map_of (ordered_iter t) k \<and> ordered_iter t' = tput k v (ordered_iter t) \<and>
         tinsert (o_limit t) k v (ordered_iter t) = Some (ordered_iter t'))"
proof (cases "find_slot (o_entries t) k")
  case (Inr at)
  with assms(1) obtain as s bs where es: "o_entries t = as @ (k, s) # bs" and at: "at = length as"
    and as: "\<forall>e \<in> set as. fst e < k" and bs: "\<forall>e \<in> set bs. k < fst e"
    by (rule find_slot_Inr)
  have put: "tput k v (present ((as @ (k, s) # bs))) = present as @ (k, v) # present bs"
    using tput_over [OF present_lt [OF as]] tput_between [OF present_lt [OF as] present_gt [OF bs]]
    by (cases s) simp_all
  have r: "r = Inr s" and t': "t' = t\<lparr>o_entries := as @ (k, Some v) # bs,
      o_live := (if s = None then o_live t + 1 else o_live t)\<rparr>"
    using assms(2) Inr by (auto simp: ordered_insert_def at es Let_def)
  have "s = map_of (ordered_iter t) k"
    using as bs by (cases s) (auto simp: ordered_iter_def es map_of_present_around map_add_def)
  moreover have "ordered_inv t'"
    using assms(1) by (cases s) (auto simp: ordered_inv_def t' es)
  moreover have "ordered_iter t' = tput k v (ordered_iter t)"
    using put by (simp add: ordered_iter_def t' es)
  moreover have "map_of (ordered_iter t) k \<noteq> None \<or> length (ordered_iter t) < o_limit t"
  proof (cases s)
    case None
    have "length (present (o_entries t)) < length (o_entries t)"
      using present_length [of as] present_length [of bs] by (simp add: es None)
    then show ?thesis using assms(1) by (simp add: ordered_inv_def ordered_iter_def)
  qed (simp add: calculation(1) [symmetric])
  ultimately show ?thesis by (auto simp: r t' tinsert_def)
next
  case (Inl at)
  have new: "map_of (ordered_iter t) k = None" by (rule find_slot_Inl [OF assms(1) Inl])
  have live: "o_live t = length (present (o_entries t))" and le: "length (o_entries t) \<le> o_limit t"
    using assms(1) by (auto simp: ordered_inv_def)
  show ?thesis
  proof (cases "o_live t = o_limit t")
    case True
    then show ?thesis using assms new live by (auto simp: ordered_insert_def Inl Let_def ordered_iter_def)
  next
    case False
    then have lt: "length (present (o_entries t)) < o_limit t"
      using live le present_length [of "o_entries t"] by linarith
    note put = put_slots_inv [OF ordered_inv_sorted [OF assms(1)] Inl le lt, of v]
    have "length (tput k v (present (o_entries t))) = Suc (o_live t)"
      using live new by (simp add: length_tput_new ordered_iter_def)
    then show ?thesis using assms(2) put lt new False
      by (auto simp: ordered_insert_def Inl Let_def ordered_iter_def ordered_inv_def tinsert_def)
  qed
qed

section \<open>Removing\<close>

lemma tdel_present_around:
  fixes k :: "'k::linorder"
  assumes "\<forall>e \<in> set as. fst e < k" and "\<forall>e \<in> set bs. k < fst e"
  shows "tdel k (present as @ present bs) = present as @ present bs"
proof -
  have "k \<notin> fst ` set (present as @ present bs)"
    using present_lt [OF assms(1)] present_gt [OF assms(2)] by auto
  then show ?thesis by (rule tdel_not_in)
qed

lemma ordered_remove_refines:
  assumes "ordered_inv t" and "ordered_remove t k = (r, t')"
  shows "ordered_inv t' \<and> o_limit t' = o_limit t \<and> r = map_of (ordered_iter t) k \<and>
    ordered_iter t' = tdel k (ordered_iter t)"
proof (cases "find_slot (o_entries t) k")
  case (Inr at)
  with assms(1) obtain as s bs where es: "o_entries t = as @ (k, s) # bs" and at: "at = length as"
    and as: "\<forall>e \<in> set as. fst e < k" and bs: "\<forall>e \<in> set bs. k < fst e"
    by (rule find_slot_Inr)
  have look: "map_of (ordered_iter t) k = s"
    using as bs by (cases s) (auto simp: ordered_iter_def es map_of_present_around map_add_def)
  have del: "tdel k (ordered_iter t) = present as @ present bs"
    using tdel_present_around [OF as bs] by (cases s) (simp_all add: ordered_iter_def es tdel_def)
  show ?thesis
  proof (cases s)
    case None
    then have "r = None" and "t' = t" using assms(2) Inr by (auto simp: ordered_remove_def at es)
    then show ?thesis using assms(1) look None del by (metis ordered_iter_def es present.simps(2) present_append)
  next
    case (Some v)
    then have r: "r = Some v" and t': "t' = t\<lparr>o_entries := pop_empty (as @ (k, None) # bs), o_live := o_live t - 1\<rparr>"
      using assms(2) Inr by (auto simp: ordered_remove_def at es)
    have "ordered_inv t'"
      using assms(1) sorted_pop_empty [of "as @ (k, None) # bs"] length_pop_empty [of "as @ (k, None) # bs"]
      by (auto simp: ordered_inv_def t' es Some)
    then show ?thesis using look Some del by (simp add: r t' ordered_iter_def)
  qed
next
  case (Inl at)
  have "r = None" and "t' = t" using assms(2) Inl by (auto simp: ordered_remove_def)
  moreover have "k \<notin> fst ` set (ordered_iter t)"
    using find_slot_Inl [OF assms(1) Inl] by (simp add: map_of_eq_None_iff)
  ultimately show ?thesis using assms(1) find_slot_Inl [OF assms(1) Inl] by (simp add: tdel_not_in)
qed

section \<open>Passes over the table\<close>

lemma ordered_get_mut_refines:
  assumes "ordered_inv t"
  shows "ordered_inv (ordered_get_mut t k f) \<and> o_limit (ordered_get_mut t k f) = o_limit t \<and>
    ordered_iter (ordered_get_mut t k f) = tmod k f (ordered_iter t)"
proof (cases "find_slot (o_entries t) k")
  case (Inr at)
  with assms obtain as s bs where es: "o_entries t = as @ (k, s) # bs" and at: "at = length as"
    and as: "\<forall>e \<in> set as. fst e < k" and bs: "\<forall>e \<in> set bs. k < fst e"
    by (rule find_slot_Inr)
  have m: "tmod k f (present as) = present as" "tmod k f (present bs) = present bs"
    using present_lt [OF as] present_gt [OF bs] by (force intro!: tmod_not_in)+
  have t': "ordered_get_mut t k f = t\<lparr>o_entries := as @ (k, map_option f s) # bs\<rparr>"
    using Inr by (simp add: ordered_get_mut_def at es)
  show ?thesis using assms m
    by (cases s) (auto simp: t' ordered_inv_def ordered_iter_def es, auto simp: tmod_def)
next
  case (Inl at)
  then have "k \<notin> fst ` set (ordered_iter t)"
    using find_slot_Inl [OF assms Inl] by (simp add: map_of_eq_None_iff)
  then show ?thesis using assms Inl by (simp add: ordered_get_mut_def tmod_not_in)
qed

text \<open>Keep what \<open>keep\<close> answers for: the specification of a pass that changes or drops each entry.\<close>

definition tretain :: "('k \<Rightarrow> 'v \<Rightarrow> 'v option) \<Rightarrow> ('k, 'v) table \<Rightarrow> ('k, 'v) table" where
  "tretain keep t = List.map_filter (\<lambda>(k, v). map_option (Pair k) (keep k v)) t"

lemma present_retain:
  "present (map (\<lambda>(k, s). (k, Option.bind s (keep k))) es) = tretain keep (present es)"
  by (induction es rule: present.induct) (auto simp: tretain_def map_filter_simps split: option.split)

lemma length_tretain: "length (tretain keep t) \<le> length t"
  by (induction t) (auto simp: tretain_def map_filter_simps split: option.split)

lemma keys_slots: "keys (map (\<lambda>(k, s). (k, g k s)) es) = keys es"
  by (induction es) auto

lemma ordered_retain_refines:
  assumes "ordered_inv t"
  shows "ordered_inv (ordered_retain t keep) \<and> o_limit (ordered_retain t keep) = o_limit t \<and>
    ordered_iter (ordered_retain t keep) = tretain keep (ordered_iter t)"
proof -
  let ?kept = "map (\<lambda>(k, s). (k, Option.bind s (keep k))) (o_entries t)"
  have "sorted_wrt (<) (keys (pop_empty ?kept))"
    using assms by (intro sorted_pop_empty) (simp add: keys_slots ordered_inv_def del: map_map)
  moreover have "length (pop_empty ?kept) \<le> length (o_entries t)"
    using length_pop_empty [of ?kept] by simp
  ultimately show ?thesis
    using assms length_tretain [of keep "present (o_entries t)"]
    by (simp add: ordered_retain_def Let_def ordered_inv_def ordered_iter_def present_retain)
qed

lemma present_take:
  "present (map (\<lambda>(k, s). (k, opt_filter (\<lambda>v. \<not> takes k v) s)) es) =
   filter (\<lambda>(k, v). \<not> takes k v) (present es)"
  by (induction es rule: present.induct) (auto simp: opt_filter_def)

lemma ordered_take_where_refines:
  assumes "ordered_inv t" and "ordered_take_where t takes = (out, t')"
  shows "ordered_inv t' \<and> o_limit t' = o_limit t \<and>
    out = filter (\<lambda>(k, v). takes k v) (ordered_iter t) \<and>
    ordered_iter t' = filter (\<lambda>(k, v). \<not> takes k v) (ordered_iter t)"
proof -
  let ?left = "map (\<lambda>(k, s). (k, opt_filter (\<lambda>v. \<not> takes k v) s)) (o_entries t)"
  have "sorted_wrt (<) (keys (pop_empty ?left))"
    using assms(1) by (intro sorted_pop_empty) (simp add: keys_slots ordered_inv_def del: map_map)
  moreover have "length (pop_empty ?left) \<le> length (o_entries t)"
    using length_pop_empty [of ?left] by simp
  moreover have "length (filter (\<lambda>(k, v). \<not> takes k v) xs) = length xs - length (filter (\<lambda>(k, v). takes k v) xs)"
    for xs :: "('a \<times> 'b) list"
    using sum_length_filter_compl [of "\<lambda>(k, v). takes k v" xs] by (simp add: case_prod_unfold)
  ultimately show ?thesis
    using assms by (auto simp: ordered_take_where_def Let_def ordered_inv_def ordered_iter_def present_take)
qed

text \<open>
  A range given by two predicates, each true of a leading run of the keys and the first only where
  the second is, is the entries the second is true of and the first is not.
\<close>

lemma takeWhile_leading:
  assumes "sorted_wrt (<) (map fst es)" and "\<And>a b. a < b \<Longrightarrow> q b \<Longrightarrow> q a"
  shows "takeWhile (\<lambda>e. q (fst e)) es = filter (\<lambda>e. q (fst e)) es"
  using assms(1)
proof (induction es)
  case (Cons e es)
  have "filter (\<lambda>e. q (fst e)) es = []" if "\<not> q (fst e)"
    using that Cons.prems assms(2) by (auto simp: filter_empty_conv)
  then show ?case using Cons by auto
qed simp

lemma between_leading:
  assumes "sorted_wrt (<) (map fst es)" and "\<And>a b. a < b \<Longrightarrow> p b \<Longrightarrow> p a" and "\<And>a b. a < b \<Longrightarrow> q b \<Longrightarrow> q a"
  shows "drop (length (takeWhile (\<lambda>e. p (fst e)) es)) (takeWhile (\<lambda>e. q (fst e)) es) =
    filter (\<lambda>e. \<not> p (fst e) \<and> q (fst e)) es"
  using assms(1)
proof (induction es)
  case (Cons e es)
  have "\<forall>x \<in> set es. \<not> q (fst x)" if "\<not> q (fst e)" using that Cons.prems assms(3) by auto
  moreover have "\<forall>x \<in> set es. \<not> p (fst x)" if "\<not> p (fst e)" using that Cons.prems assms(2) by auto
  moreover have "takeWhile (\<lambda>e. q (fst e)) es = filter (\<lambda>e. q (fst e)) es"
    using takeWhile_leading [of es q] Cons.prems assms(3) by auto
  ultimately show ?case using Cons by (auto intro!: filter_cong)
qed simp

lemma present_filter_key: "present (filter (\<lambda>e. q (fst e)) es) = filter (\<lambda>e. q (fst e)) (present es)"
  by (induction es rule: present.induct) auto

section \<open>What a table promises\<close>

text \<open>
  The contract a client relies on: a finite map of at most \<open>limit\<close> keys, an insert of a new key
  refused exactly when the table holds that many. \<open>replay\<close> runs a sequence of inserts and removals,
  answering for each insert whether it was taken, and \<open>map_replay\<close> is the same on the finite map
  itself.
\<close>

datatype ('k, 'v) table_op = Put 'k 'v | Take 'k

fun replay ::
  "('t \<Rightarrow> 'k \<Rightarrow> 'v \<Rightarrow> 't option) \<Rightarrow> ('t \<Rightarrow> 'k \<Rightarrow> 't) \<Rightarrow> 't \<Rightarrow> ('k, 'v) table_op list \<Rightarrow> bool list \<times> 't" where
  "replay ins del t [] = ([], t)"
| "replay ins del t (Put k v # ops) =
     (case ins t k v of
        None \<Rightarrow> (let (as, t') = replay ins del t ops in (False # as, t'))
      | Some u \<Rightarrow> (let (as, t') = replay ins del u ops in (True # as, t')))"
| "replay ins del t (Take k # ops) = replay ins del (del t k) ops"

fun map_replay ::
  "nat \<Rightarrow> ('k \<rightharpoonup> 'v) \<Rightarrow> ('k, 'v) table_op list \<Rightarrow> bool list \<times> ('k \<rightharpoonup> 'v)" where
  "map_replay lim m [] = ([], m)"
| "map_replay lim m (Put k v # ops) =
     (if m k = None \<and> card (dom m) = lim
      then (let (as, m') = map_replay lim m ops in (False # as, m'))
      else (let (as, m') = map_replay lim (m(k \<mapsto> v)) ops in (True # as, m')))"
| "map_replay lim m (Take k # ops) = map_replay lim (m(k := None)) ops"

locale bounded_table =
  fixes inv :: "'t \<Rightarrow> bool"
    and look :: "'t \<Rightarrow> 'k \<Rightarrow> 'v option"
    and ins :: "'t \<Rightarrow> 'k \<Rightarrow> 'v \<Rightarrow> 't option"
    and del :: "'t \<Rightarrow> 'k \<Rightarrow> 't"
    and limit :: "'t \<Rightarrow> nat"
  assumes ins_taken: "inv t \<Longrightarrow> ins t k v = Some u \<Longrightarrow> inv u \<and> limit u = limit t \<and> look u = (look t)(k \<mapsto> v)"
    and ins_refused: "inv t \<Longrightarrow> ins t k v = None \<longleftrightarrow> look t k = None \<and> card (dom (look t)) = limit t"
    and del_law: "inv t \<Longrightarrow> inv (del t k) \<and> limit (del t k) = limit t \<and> look (del t k) = (look t)(k := None)"
    and bounded: "inv t \<Longrightarrow> finite (dom (look t)) \<and> card (dom (look t)) \<le> limit t"
begin

lemma look_after_ins: "inv t \<Longrightarrow> ins t k v = Some u \<Longrightarrow> look u k' = (if k' = k then Some v else look t k')"
  using ins_taken [of t k v u] by simp

lemma ins_with_room: "inv t \<Longrightarrow> card (dom (look t)) < limit t \<Longrightarrow> \<exists>u. ins t k v = Some u"
  using ins_refused [of t k v] by (cases "ins t k v") auto

lemma replay_map:
  "inv t \<Longrightarrow> replay ins del t ops = (as, t') \<Longrightarrow>
   inv t' \<and> limit t' = limit t \<and> map_replay (limit t) (look t) ops = (as, look t')"
proof (induction ops arbitrary: t as)
  case (Cons op ops)
  show ?case
  proof (cases op)
    case (Put k v)
    show ?thesis
    proof (cases "ins t k v")
      case None
      then obtain as' where "replay ins del t ops = (as', t')" and "as = False # as'"
        using Cons.prems Put by (auto split: prod.splits)
      then show ?thesis using Cons.IH [OF Cons.prems(1)] None Put ins_refused [OF Cons.prems(1)] by auto
    next
      case (Some u)
      then obtain as' where "replay ins del u ops = (as', t')" and "as = True # as'"
        using Cons.prems Put by (auto split: prod.splits)
      moreover have "\<not> (look t k = None \<and> card (dom (look t)) = limit t)"
        using ins_refused [OF Cons.prems(1), of k v] Some by auto
      moreover have "inv t' \<and> limit t' = limit u \<and> map_replay (limit u) (look u) ops = (as', look t')"
        using Cons.IH [of u as'] ins_taken [OF Cons.prems(1) Some] calculation(1) by blast
      ultimately show ?thesis using ins_taken [OF Cons.prems(1) Some] Put by (auto simp del: fun_upd_apply)
    qed
  next
    case (Take k)
    then show ?thesis using Cons.IH [of "del t k" as] Cons.prems del_law [OF Cons.prems(1), of k]
      by (simp del: fun_upd_apply)
  qed
qed simp

end

definition ordered_ins :: "('k::linorder, 'v) ordered \<Rightarrow> 'k \<Rightarrow> 'v \<Rightarrow> ('k, 'v) ordered option" where
  "ordered_ins t k v = (case ordered_insert t k v of (Inl _, _) \<Rightarrow> None | (Inr _, u) \<Rightarrow> Some u)"

definition ordered_del :: "('k::linorder, 'v) ordered \<Rightarrow> 'k \<Rightarrow> ('k, 'v) ordered" where
  "ordered_del t k = snd (ordered_remove t k)"

lemma card_dom_map_of: "tsorted t \<Longrightarrow> card (dom (map_of t)) = length t"
  using tsorted_distinct [of t] by (metis distinct_card dom_map_of_conv_image_fst length_map list.set_map)

lemma ordered_look: "ordered_inv t \<Longrightarrow> ordered_get t = map_of (ordered_iter t)"
  by (rule ext) (rule ordered_get_present)

lemma card_ordered: "ordered_inv t \<Longrightarrow> card (dom (ordered_get t)) = o_live t"
  by (simp add: ordered_look card_dom_map_of tsorted_iter) (simp add: ordered_inv_def ordered_iter_def)

interpretation ordered_is: bounded_table ordered_inv ordered_get ordered_ins ordered_del o_limit
proof
  fix t u :: "('k::linorder, 'v) ordered" and k v
  assume t: "ordered_inv t"
  show "ordered_ins t k v = Some u \<Longrightarrow> ordered_inv u \<and> o_limit u = o_limit t \<and> ordered_get u = (ordered_get t)(k \<mapsto> v)"
    using ordered_insert_refines [OF t, of k v "fst (ordered_insert t k v)" "snd (ordered_insert t k v)"] t
    by (auto simp: ordered_ins_def ordered_look split: prod.splits sum.splits)
  show "ordered_ins t k v = None \<longleftrightarrow> ordered_get t k = None \<and> card (dom (ordered_get t)) = o_limit t"
    using ordered_insert_refines [OF t, of k v "fst (ordered_insert t k v)" "snd (ordered_insert t k v)"] t
    by (auto simp: ordered_ins_def ordered_look card_dom_map_of tsorted_iter tinsert_def
        split: prod.splits sum.splits if_splits)
  show "ordered_inv (ordered_del t k) \<and> o_limit (ordered_del t k) = o_limit t \<and> ordered_get (ordered_del t k) = (ordered_get t)(k := None)"
    using ordered_remove_refines [OF t, of k "fst (ordered_remove t k)" "snd (ordered_remove t k)"] t
    by (auto simp: ordered_del_def ordered_look)
  show "finite (dom (ordered_get t)) \<and> card (dom (ordered_get t)) \<le> o_limit t"
    using t card_ordered [OF t] present_length [of "o_entries t"]
    by (auto simp: ordered_look finite_dom_map_of ordered_inv_def)
qed

text \<open>The ordered table of the prelude, kept beside the limit it was made for, keeps the same contract.\<close>

definition spec_inv :: "nat \<times> ('k::linorder, 'v) table \<Rightarrow> bool" where
  "spec_inv t \<longleftrightarrow> tsorted (snd t) \<and> length (snd t) \<le> fst t"

interpretation spec_is: bounded_table spec_inv "\<lambda>t. map_of (snd t)"
  "\<lambda>t k v. map_option (Pair (fst t)) (tinsert (fst t) k v (snd t))" "\<lambda>t k. (fst t, tdel k (snd t))" fst
proof
  fix t u :: "nat \<times> ('k::linorder, 'v) table" and k v
  assume t: "spec_inv t"
  show "map_option (Pair (fst t)) (tinsert (fst t) k v (snd t)) = Some u \<Longrightarrow>
      spec_inv u \<and> fst u = fst t \<and> map_of (snd u) = (map_of (snd t))(k \<mapsto> v)"
    using t tinsert_within [of "fst t" k v "snd t"] by (auto simp: spec_inv_def tinsert_def split: if_splits)
  show "map_option (Pair (fst t)) (tinsert (fst t) k v (snd t)) = None \<longleftrightarrow>
      map_of (snd t) k = None \<and> card (dom (map_of (snd t))) = fst t"
    using t by (auto simp: spec_inv_def tinsert_def card_dom_map_of)
  show "spec_inv (fst t, tdel k (snd t)) \<and> fst (fst t, tdel k (snd t)) = fst t \<and>
      map_of (snd (fst t, tdel k (snd t))) = (map_of (snd t))(k := None)"
    using t by (auto simp: spec_inv_def intro: order_trans [OF length_tdel])
  show "finite (dom (map_of (snd t))) \<and> card (dom (map_of (snd t))) \<le> fst t"
    using t by (auto simp: spec_inv_def card_dom_map_of finite_dom_map_of)
qed

lemma with_capacity_inv: "ordered_inv (ordered_with_capacity lim)"
  by (simp add: ordered_inv_def ordered_with_capacity_def)

lemma with_capacity_get: "ordered_get (ordered_with_capacity lim) = Map.empty"
  by (simp add: ordered_look with_capacity_inv) (simp add: ordered_iter_def ordered_with_capacity_def)

section \<open>Properties\<close>

text \<open>
  C13. Refinement of the ordered table: over any sequence of inserts and removals from a table made
  for \<open>lim\<close> entries, the slots of ordered.rs give the answers of a finite map of at most \<open>lim\<close> keys:
  every insert is taken or refused as the map's, and every key looks up what the map holds.
\<close>

theorem ordered_replay_refines:
  "replay ordered_ins ordered_del (ordered_with_capacity lim) ops = (as, t) \<Longrightarrow>
   map_replay lim Map.empty ops = (as, ordered_get t) \<and> length (o_entries t) \<le> lim"
  using ordered_is.replay_map [OF with_capacity_inv, of lim ops as t]
  by (simp add: with_capacity_get ordered_inv_def) (simp add: ordered_with_capacity_def)

definition sample_ops :: "(nat, nat) table_op list" where
  "sample_ops = [Put 5 1, Put 3 2, Put 9 3, Put 4 4, Take 3, Put 4 5, Take 9]"

theorem ordered_replay_refines_witness:
  "let (as, t) = replay ordered_ins ordered_del (ordered_with_capacity 3) sample_ops
   in as = [True, True, True, False, True] \<and>
      map_replay 3 Map.empty sample_ops = (as, ordered_get t) \<and> length (o_entries t) \<le> 3"
proof -
  obtain as t where r: "replay ordered_ins ordered_del (ordered_with_capacity 3) sample_ops = (as, t)"
    by force
  moreover have "fst (replay ordered_ins ordered_del (ordered_with_capacity 3) sample_ops) =
      [True, True, True, False, True]"
    by code_simp
  ultimately show ?thesis using ordered_replay_refines [OF r] by simp
qed

text \<open>
  C14. An insert on every branch: a key present has its value replaced and handed back, a new key is put
  in order and nothing else moves, and a new key is refused, with nothing changed, exactly when the
  table holds as many entries as it was made for. The array stays ascending, counted and within the
  storage reserved.
\<close>

theorem ordered_insert_correct:
  assumes "ordered_inv t" and "ordered_insert t k v = (r, t')"
  shows "ordered_inv t' \<and> length (o_entries t') \<le> o_limit t \<and>
    (case r of
       Inl _ \<Rightarrow> t' = t \<and> ordered_get t k = None \<and> ordered_len t = o_limit t
     | Inr old \<Rightarrow> old = ordered_get t k \<and> ordered_iter t' = tput k v (ordered_iter t) \<and>
         (old \<noteq> None \<or> ordered_len t < o_limit t))"
  using ordered_insert_refines [OF assms] assms(1) card_ordered [OF assms(1)]
    card_dom_map_of [OF tsorted_iter [OF assms(1)]]
  by (auto simp: ordered_look ordered_len_def ordered_inv_def tinsert_def
      split: sum.splits if_splits)

theorem ordered_insert_correct_witness:
  "\<exists>t' :: (nat, nat) ordered.
     ordered_insert \<lparr>o_entries = [(2, Some 7), (4, None), (8, Some 1)], o_live = 2, o_limit = 3\<rparr> 5 6 = (Inr None, t') \<and>
     ordered_iter t' = [(2, 7), (5, 6), (8, 1)] \<and> length (o_entries t') \<le> 3"
proof -
  let ?t = "\<lparr>o_entries = [(2 :: nat, Some (7 :: nat)), (4, None), (8, Some 1)], o_live = 2, o_limit = 3\<rparr>"
  have "ordered_inv ?t" by (simp add: ordered_inv_def)
  moreover have r: "ordered_insert ?t 5 6 =
      (Inr None, \<lparr>o_entries = [(2, Some 7), (5, Some 6), (8, Some 1)], o_live = 3, o_limit = 3\<rparr>)"
    by code_simp
  ultimately show ?thesis
    using ordered_insert_correct [OF _ r] by (auto simp: ordered_iter_def)
qed

text \<open>
  C18. A range given by two predicates that hold of a leading run of the keys each is the entries the
  second holds of and the first does not, in key order; the binary searches and the empty slots do not
  show.
\<close>

theorem ordered_between_correct:
  assumes "ordered_inv t" and "\<And>a b. a < b \<Longrightarrow> before b \<Longrightarrow> before a"
    and "\<And>a b. a < b \<Longrightarrow> up_to b \<Longrightarrow> up_to a"
  shows "ordered_between t before up_to =
    filter (\<lambda>e. \<not> before (fst e) \<and> up_to (fst e)) (ordered_iter t)"
proof -
  let ?es = "o_entries t"
  let ?b = "length (takeWhile (\<lambda>e. before (fst e)) ?es)"
  let ?u = "length (takeWhile (\<lambda>e. up_to (fst e)) ?es)"
  have "take (max ?u ?b - ?b) (drop ?b ?es) = drop ?b (take (max ?u ?b) ?es)"
    by (simp add: drop_take)
  also have "\<dots> = drop ?b (take ?u ?es)" by (cases "?u \<le> ?b") (auto simp: max_def)
  also have "\<dots> = filter (\<lambda>e. \<not> before (fst e) \<and> up_to (fst e)) ?es"
    using between_leading [OF ordered_inv_sorted [OF assms(1)], of before up_to] assms(2,3)
    by (metis takeWhile_eq_take)
  finally show ?thesis
    by (simp add: ordered_between_def Let_def ordered_iter_def present_filter_key [of "\<lambda>k. \<not> before k \<and> up_to k"])
qed

theorem ordered_between_correct_witness:
  "ordered_between \<lparr>o_entries = [(2, Some 7), (4, None), (5, Some 3), (8, Some 1)], o_live = 3, o_limit = 4\<rparr>
     (\<lambda>k. k < (4 :: nat)) (\<lambda>k. k \<le> 5) = [(5, 3 :: nat)]"
  using ordered_between_correct
    [of "\<lparr>o_entries = [(2 :: nat, Some (7 :: nat)), (4, None), (5, Some 3), (8, Some 1)], o_live = 3, o_limit = 4\<rparr>"
      "\<lambda>k. k < 4" "\<lambda>k. k \<le> 5"]
  by (simp add: ordered_inv_def ordered_iter_def)

end
