(* ===== verification/Capacity.thy ===== *)
theory Capacity
  imports Dioring_Prelude
begin

text \<open>
  What a consumer declares at construction, crates/durable-ioring/src/capacity.rs: the counts, the
  sizes of the tables and lists computed from them with checked arithmetic on a 64-bit \<^verbatim>\<open>usize\<close>, and
  the pushes that stay within the room a list was made with. A \<^verbatim>\<open>Vec\<close> reserved for \<open>n\<close> items is
  a list with room \<open>n\<close>; the allocator's refusals are not modelled.
\<close>

section \<open>Checked arithmetic\<close>

definition usize_bound :: nat where
  "usize_bound = 2 ^ 64"

definition checked :: "nat \<Rightarrow> nat option" where
  "checked n = (if n < usize_bound then Some n else None)"

definition checked_add :: "nat \<Rightarrow> nat \<Rightarrow> nat option" where
  "checked_add a b = checked (a + b)"

definition checked_mul :: "nat \<Rightarrow> nat \<Rightarrow> nat option" where
  "checked_mul a b = checked (a * b)"

lemma checked_Some [simp]: "checked n = Some m \<longleftrightarrow> m = n \<and> n < usize_bound"
  by (auto simp: checked_def)

lemma checked_None [simp]: "checked n = None \<longleftrightarrow> usize_bound \<le> n"
  by (auto simp: checked_def)

section \<open>The declaration and the sizes it gives\<close>

record capacity =
  c_operations :: nat
  c_lineages :: nat
  c_imports :: nat
  c_targets :: nat
  c_domains :: nat

definition flush_parts :: "capacity \<Rightarrow> nat \<Rightarrow> nat option" where
  "flush_parts c served = Option.bind (checked_add served 1) (\<lambda>n. checked_mul (c_operations c) n)"

definition provider_parts :: "capacity \<Rightarrow> nat \<Rightarrow> nat option" where
  "provider_parts c served = checked_mul (c_operations c) served"

definition cap_failures :: "capacity \<Rightarrow> nat \<Rightarrow> nat option" where
  "cap_failures c served = Option.bind (flush_parts c served) (\<lambda>n. checked_add n (c_imports c))"

definition cap_entries :: "capacity \<Rightarrow> nat \<Rightarrow> nat option" where
  "cap_entries c served =
     Option.bind (checked_mul (c_operations c) 3) (\<lambda>ops.
     Option.bind (cap_failures c served) (\<lambda>f.
     Option.bind (checked_mul f 2) (\<lambda>fs.
     Option.bind (checked_add ops fs) (\<lambda>n.
     Option.bind (checked_mul (c_lineages c) 3) (\<lambda>ls. checked_add n ls)))))"

definition change_entries :: "capacity \<Rightarrow> nat \<Rightarrow> nat option" where
  "change_entries c served =
     Option.bind (cap_entries c served) (\<lambda>n.
     Option.bind (checked_mul (c_operations c) 2) (\<lambda>ops.
     Option.bind (checked_add n ops) (\<lambda>n.
     Option.bind (checked_add n (c_lineages c)) (\<lambda>n. checked_add n 1))))"

section \<open>Making tables and lists\<close>

datatype reserve_error = TooLarge | Alloc

datatype construction_error =
    NoLineages
  | DuplicateDomain string
  | TooManyDomains nat nat
  | Table string reserve_error

datatype limit = Operations | Lineages | Imports | Targets | Domains

record at_capacity =
  ac_limit :: limit
  ac_declared :: nat

text \<open>The size a table or list is made with, or the refusal for one past a \<^verbatim>\<open>usize\<close>.\<close>

definition reserved :: "string \<Rightarrow> nat option \<Rightarrow> construction_error + nat" where
  "reserved name items = (case items of None \<Rightarrow> Inl (Table name TooLarge) | Some n \<Rightarrow> Inr n)"

text \<open>
  Push onto a list of \<open>room\<close> places, or hand the item back (\<^const>\<open>None\<close>); lists and queues alike.
\<close>

definition within :: "nat \<Rightarrow> 'a list \<Rightarrow> 'a \<Rightarrow> 'a list option" where
  "within room xs x = (if length xs = room then None else Some (xs @ [x]))"

lemma within_Some: "within room xs x = Some ys \<longleftrightarrow> length xs \<noteq> room \<and> ys = xs @ [x]"
  by (auto simp: within_def)

lemma within_length: "within room xs x = Some ys \<Longrightarrow> length xs \<le> room \<Longrightarrow> length ys \<le> room"
  by (auto simp: within_def split: if_splits)

section \<open>The sizes are the documented formulas\<close>

lemma flush_parts_Some:
  "flush_parts c served = Some n \<longleftrightarrow>
   n = c_operations c * (served + 1) \<and> served + 1 < usize_bound \<and> n < usize_bound"
  by (auto simp: flush_parts_def checked_add_def checked_mul_def bind_eq_Some_conv)

lemma cap_failures_Some:
  "cap_failures c served = Some n \<longleftrightarrow>
   n = c_operations c * (served + 1) + c_imports c \<and> served + 1 < usize_bound \<and> n < usize_bound"
  by (auto simp: cap_failures_def flush_parts_Some checked_add_def bind_eq_Some_conv)

lemma cap_entries_Some:
  "cap_entries c served = Some n \<longleftrightarrow>
   n = 3 * c_operations c + 2 * (c_operations c * (served + 1) + c_imports c) + 3 * c_lineages c \<and>
   served + 1 < usize_bound \<and> n < usize_bound"
  by (auto simp: cap_entries_def cap_failures_Some checked_add_def checked_mul_def bind_eq_Some_conv
      algebra_simps)


end
