(* ===== verification/Domain_Lists.thy ===== *)
theory Domain_Lists
  imports Capacity
begin

text \<open>
  The flush domains of an instance, crates/durable-ioring/src/domain_lists.rs and domains.rs: the
  interning of the consumer's domain names, and the table of rows the domain lists of targets and of
  imports by domains are kept in. A domain name is its bytes, a \<^typ>\<open>string\<close>; an interned domain is
  its number. The rows are one array of cells, a list a row number and a length; a claim sorts the
  domains into the row as it goes, as the code's insertion by binary search and \<^verbatim>\<open>copy_within\<close> does.
\<close>

type_synonym domain_id = nat

section \<open>The rows\<close>

record domain_list =
  dl_row :: nat
  dl_len :: nat

record domain_lists =
  ls_ids :: "domain_id list"
  ls_width :: nat
  ls_free :: "nat list"

definition EMPTY_list :: domain_list where
  "EMPTY_list = \<lparr>dl_row = 0, dl_len = 0\<rparr>"

definition list_is_empty :: "domain_list \<Rightarrow> bool" where
  "list_is_empty l = (dl_len l = 0)"

definition u32_bound :: nat where
  "u32_bound = 2 ^ 32"

definition domain_lists_new :: "nat option \<Rightarrow> nat \<Rightarrow> construction_error + domain_lists" where
  "domain_lists_new rows width =
     (case reserved ''the flush-domain lists'' (Option.bind rows (\<lambda>r. checked_mul r width)) of
        Inl e \<Rightarrow> Inl e
      | Inr cells \<Rightarrow>
          (let rows' = case_option 0 id rows
           in Inr \<lparr>ls_ids = replicate cells 0, ls_width = width,
                   ls_free = filter (\<lambda>r. r < u32_bound) (rev [0..<rows'])\<rparr>))"

definition lists_get :: "domain_lists \<Rightarrow> domain_list \<Rightarrow> domain_id list" where
  "lists_get ls l =
     (if list_is_empty l then []
      else
        (let start = dl_row l * ls_width ls
         in if start + dl_len l \<le> length (ls_ids ls) then take (dl_len l) (drop start (ls_ids ls)) else []))"

text \<open>One domain into the first \<open>len\<close> cells of a row: where it belongs, unless it is there or there is
  no cell left.\<close>

definition claim_one :: "domain_id list \<Rightarrow> nat \<Rightarrow> domain_id \<Rightarrow> (domain_id list \<times> nat) option" where
  "claim_one cells len d =
     (let here = take len cells; at = length (takeWhile (\<lambda>x. x < d) here)
      in if at < len \<and> here ! at = d then Some (cells, len)
         else if len = length cells then None
         else Some (take at cells @ d # take (len - at) (drop at cells) @ drop (len + 1) cells, len + 1))"

fun claim_all :: "domain_id list \<Rightarrow> nat \<Rightarrow> domain_id list \<Rightarrow> domain_id list \<times> nat option" where
  "claim_all cells len [] = (cells, Some len)"
| "claim_all cells len (d # ds) =
     (case claim_one cells len d of
        None \<Rightarrow> (cells, None)
      | Some (cells', len') \<Rightarrow> claim_all cells' len' ds)"

definition claim :: "domain_lists \<Rightarrow> domain_id list \<Rightarrow> (string + domain_list) \<times> domain_lists" where
  "claim ls ds =
     (if ds = [] then (Inr EMPTY_list, ls)
      else if ls_free ls = [] then (Inl ''no flush-domain list was free'', ls)
      else
        (let row = last (ls_free ls); start = row * ls_width ls;
             (cells, len) = claim_all (take (ls_width ls) (drop start (ls_ids ls))) 0 ds;
             ids = take start (ls_ids ls) @ cells @ drop (start + ls_width ls) (ls_ids ls)
         in case len of
              None \<Rightarrow> (Inl ''a flush-domain list named more domains than were declared'', ls\<lparr>ls_ids := ids\<rparr>)
            | Some n \<Rightarrow> (Inr \<lparr>dl_row = row, dl_len = min n (u32_bound - 1)\<rparr>,
                         ls\<lparr>ls_ids := ids, ls_free := butlast (ls_free ls)\<rparr>)))"

definition lists_release :: "domain_lists \<Rightarrow> domain_list \<Rightarrow> domain_lists" where
  "lists_release ls l = (if list_is_empty l then ls else ls\<lparr>ls_free := ls_free ls @ [dl_row l]\<rparr>)"

definition is_held :: "domain_lists \<Rightarrow> domain_list \<Rightarrow> bool" where
  "is_held ls l = (list_is_empty l \<or> dl_row l \<notin> set (ls_free ls))"

section \<open>Interning and routing\<close>

record routing =
  r_default :: bool
  r_provider :: bool

definition routing_of :: "domain_id list \<Rightarrow> domain_id list \<Rightarrow> routing" where
  "routing_of file srv =
     (if file = [] then \<lparr>r_default = True, r_provider = False\<rparr>
      else \<lparr>r_default = list_ex (\<lambda>d. d \<notin> set srv) file, r_provider = list_ex (\<lambda>d. d \<in> set srv) file\<rparr>)"

type_synonym interned = "(string, domain_id) table"

text \<open>\<open>lim\<close> is the size the table of interned domains was made for.\<close>

definition intern :: "nat \<Rightarrow> interned \<Rightarrow> string \<Rightarrow> (domain_id \<times> interned) option" where
  "intern lim tab name =
     (if u32_bound \<le> length tab then None
      else case map_of tab name of
             Some d \<Rightarrow> Some (d, tab)
           | None \<Rightarrow> map_option (Pair (length tab)) (hinsert lim name (length tab) tab))"

fun intern_ids :: "nat \<Rightarrow> interned \<Rightarrow> string list \<Rightarrow> domain_id list option \<times> interned" where
  "intern_ids lim tab [] = (Some [], tab)"
| "intern_ids lim tab (n # ns) =
     (case intern lim tab n of
        None \<Rightarrow> (None, tab)
      | Some (d, tab') \<Rightarrow> (case intern_ids lim tab' ns of (ds, tab'') \<Rightarrow> (map_option (Cons d) ds, tab'')))"

definition intern_all :: "nat \<Rightarrow> interned \<Rightarrow> string list \<Rightarrow> domain_id list option \<times> interned" where
  "intern_all lim tab names =
     (case intern_ids lim tab names of (ds, tab') \<Rightarrow> (map_option (\<lambda>ds. remdups_adj (sort ds)) ds, tab'))"

fun repeat_after :: "'a list \<Rightarrow> 'a list \<Rightarrow> 'a option" where
  "repeat_after seen [] = None"
| "repeat_after seen (x # xs) = (if x \<in> set seen then Some x else repeat_after (x # seen) xs)"

definition first_repeat :: "'a list \<Rightarrow> 'a option" where
  "first_repeat xs = repeat_after [] xs"

definition unmatched :: "string list \<Rightarrow> interned \<Rightarrow> string list" where
  "unmatched names tab = filter (\<lambda>n. map_of tab n = None) names"

definition import_ids :: "string list \<Rightarrow> interned \<Rightarrow> domain_id list" where
  "import_ids names tab = List.map_filter (map_of tab) names"

section \<open>What a claim writes\<close>

definition lists_inv :: "nat \<Rightarrow> domain_lists \<Rightarrow> bool" where
  "lists_inv rows ls \<longleftrightarrow> length (ls_ids ls) = rows * ls_width ls \<and> distinct (ls_free ls) \<and>
     set (ls_free ls) \<subseteq> {..<rows} \<and> ls_width ls < u32_bound"

definition list_wf :: "nat \<Rightarrow> domain_lists \<Rightarrow> domain_list \<Rightarrow> bool" where
  "list_wf rows ls l \<longleftrightarrow> list_is_empty l \<or> dl_row l < rows \<and> dl_len l \<le> ls_width ls"

lemma sorted_list_of_set_snoc_cases:
  assumes "sorted_wrt (<) xs" and "at = length (takeWhile (\<lambda>x. x < d) xs)"
  shows "at < length xs \<and> xs ! at = d \<longleftrightarrow> d \<in> set xs"
    and "d \<notin> set xs \<Longrightarrow> take at xs @ d # drop at xs = sorted_list_of_set (insert d (set xs))"
proof -
  have tk: "take at xs = takeWhile (\<lambda>x. x < d) xs" and dp: "drop at xs = dropWhile (\<lambda>x. x < d) xs"
    using assms(2) by (metis takeWhile_eq_take, metis dropWhile_eq_drop)
  have low: "\<forall>x \<in> set (take at xs). x < d" by (auto simp: tk dest: set_takeWhileD)
  have high: "\<forall>x \<in> set (drop at xs). d \<le> x"
  proof (cases "drop at xs")
    case (Cons y ys)
    then have "\<not> y < d" using dp by (simp add: dropWhile_eq_Cons_conv)
    moreover have "sorted_wrt (<) (y # ys)" using assms(1) Cons by (metis append_take_drop_id sorted_wrt_append)
    ultimately show ?thesis using Cons by force
  qed simp
  show "at < length xs \<and> xs ! at = d \<longleftrightarrow> d \<in> set xs"
  proof
    assume "d \<in> set xs"
    then have "d \<in> set (take at xs) \<union> set (drop at xs)" by (metis append_take_drop_id set_append)
    then have "d \<in> set (drop at xs)" using low by blast
    then obtain y ys where y: "drop at xs = y # ys" by (cases "drop at xs") auto
    have "sorted_wrt (<) (y # ys)" using assms(1) y by (metis append_take_drop_id sorted_wrt_append)
    then have "y = d" using \<open>d \<in> set (drop at xs)\<close> high y by force
    then show "at < length xs \<and> xs ! at = d" using y
      by (metis drop_eq_Nil hd_drop_conv_nth linorder_not_le list.distinct(1) list.sel(1))
  qed (metis nth_mem)
  assume new: "d \<notin> set xs"
  have "sorted_wrt (<) (take at xs @ d # drop at xs)"
  proof -
    have above: "\<forall>x \<in> set (drop at xs). d < x" using high new by (metis in_set_dropD order_le_less)
    moreover have "\<forall>x \<in> set (take at xs). \<forall>y \<in> set (drop at xs). x < y"
      using low above by (meson less_trans)
    ultimately show ?thesis using low assms(1)
      by (simp add: sorted_wrt_append sorted_wrt_take sorted_wrt_drop)
  qed
  moreover have "set (take at xs @ d # drop at xs) = insert d (set xs)"
    by (metis Un_insert_right append_take_drop_id list.simps(15) set_append)
  ultimately show "take at xs @ d # drop at xs = sorted_list_of_set (insert d (set xs))"
    by (metis sorted_list_of_set.idem_if_sorted_distinct strict_sorted_iff)
qed

lemma splice_take:
  assumes "at \<le> len" and "len < length cells"
  shows "take (len + 1) (take at cells @ d # take (len - at) (drop at cells) @ drop (len + 1) cells) =
      take at (take len cells) @ d # drop at (take len cells)"
    and "length (take at cells @ d # take (len - at) (drop at cells) @ drop (len + 1) cells) = length cells"
proof -
  have "length (take (len - at) (drop at cells)) = len - at" using assms by simp
  then show "take (len + 1) (take at cells @ d # take (len - at) (drop at cells) @ drop (len + 1) cells) =
      take at (take len cells) @ d # drop at (take len cells)"
    using assms by (simp add: drop_take min_def Suc_diff_le)
  show "length (take at cells @ d # take (len - at) (drop at cells) @ drop (len + 1) cells) = length cells"
    using assms by simp
qed

lemma claim_one_Some:
  assumes "sorted_wrt (<) (take len cells)" and "len \<le> length cells" and "claim_one cells len d = Some (cells', len')"
  shows "length cells' = length cells \<and> len' \<le> length cells \<and>
    take len' cells' = sorted_list_of_set (insert d (set (take len cells)))"
proof -
  define here where "here = take len cells"
  define at where "at = length (takeWhile (\<lambda>x. x < d) here)"
  have sorted: "sorted_wrt (<) here" and lenh: "length here = len" using assms(1,2) by (simp_all add: here_def)
  note slot = sorted_list_of_set_snoc_cases [OF sorted at_def]
  have at: "at \<le> len" unfolding at_def lenh [symmetric] by (rule length_takeWhile_le)
  have one: "claim_one cells len d =
      (if at < len \<and> here ! at = d then Some (cells, len) else if len = length cells then None
       else Some (take at cells @ d # take (len - at) (drop at cells) @ drop (len + 1) cells, len + 1))"
    by (simp only: claim_one_def Let_def here_def at_def)
  show ?thesis
  proof (cases "d \<in> set here")
    case True
    then have "cells' = cells" and "len' = len" using assms(3) slot(1) lenh one by auto
    then show ?thesis using True sorted assms(2) unfolding here_def
      by (metis insert_absorb sorted_list_of_set.idem_if_sorted_distinct strict_sorted_iff)
  next
    case False
    then have "\<not> (at < len \<and> here ! at = d)" using slot(1) lenh by simp
    then have lt: "len < length cells" and l': "len' = len + 1"
      and c': "cells' = take at cells @ d # take (len - at) (drop at cells) @ drop (len + 1) cells"
      using assms(2,3) unfolding one by (auto split: if_splits)
    show ?thesis using splice_take [OF at lt, of d] slot(2) [OF False] lt unfolding l' c' here_def by simp
  qed
qed

lemma claim_one_None:
  assumes "sorted_wrt (<) (take len cells)" and "len \<le> length cells" and "claim_one cells len d = None"
  shows "length cells < card (insert d (set (take len cells)))"
proof -
  have lenh: "length (take len cells) = len" using assms(2) by simp
  have "len = length cells" and "d \<notin> set (take len cells)"
    using assms(3) sorted_list_of_set_snoc_cases(1) [OF assms(1) refl, of d] lenh
    by (auto simp: claim_one_def Let_def split: if_splits)
  then show ?thesis using assms(1) lenh
    by (metis List.finite_set card_insert_disjoint distinct_card lessI strict_sorted_iff)
qed

lemma claim_all_spec:
  assumes "sorted_wrt (<) (take len cells)" and "len \<le> length cells" and "claim_all cells len ds = (cells', r)"
  shows "length cells' = length cells \<and>
    (case r of
       None \<Rightarrow> length cells < card (set (take len cells) \<union> set ds)
     | Some n \<Rightarrow> n \<le> length cells \<and> take n cells' = sorted_list_of_set (set (take len cells) \<union> set ds))"
  using assms
proof (induction ds arbitrary: cells len)
  case Nil
  then show ?case by (auto simp: sorted_list_of_set.idem_if_sorted_distinct strict_sorted_iff)
next
  case (Cons d ds)
  show ?case
  proof (cases "claim_one cells len d")
    case None
    have "insert d (set (take len cells)) \<subseteq> set (take len cells) \<union> set (d # ds)" by auto
    then have "card (insert d (set (take len cells))) \<le> card (set (take len cells) \<union> set (d # ds))"
      by (intro card_mono) auto
    then show ?thesis using claim_one_None [OF Cons.prems(1,2) None] Cons.prems(3) None by auto
  next
    case (Some p)
    obtain c1 l1 where p: "p = (c1, l1)" by force
    note one = claim_one_Some [OF Cons.prems(1,2) Some [unfolded p]]
    have "sorted_wrt (<) (take l1 c1)" using one by (metis strict_sorted_list_of_set)
    moreover have "set (take l1 c1) = insert d (set (take len cells))"
      using one by (metis finite_insert List.finite_set set_sorted_list_of_set)
    then have seteq: "set (take l1 c1) \<union> set ds = set (take len cells) \<union> set (d # ds)" by auto
    moreover have len: "length c1 = length cells" using one by blast
    moreover have "l1 \<le> length c1" using one by simp
    moreover have "claim_all c1 l1 ds = (cells', r)" using Cons.prems(3) Some p by simp
    ultimately show ?thesis using Cons.IH [of l1 c1] unfolding seteq len by blast
  qed
qed

text \<open>Writing one row leaves the cells of every other row as they were.\<close>

lemma other_row_cells:
  assumes "length cells = w" and "row < rows" and "r < rows" and "r \<noteq> row" and "n \<le> w"
    and "length ids = rows * w"
  shows "take n (drop (r * w) (take (row * w) ids @ cells @ drop (row * w + w) ids)) = take n (drop (r * w) ids)"
proof -
  have fits: "row * w + w \<le> length ids"
    using assms(2,6) by (metis Suc_leI add.commute mult_Suc mult_le_mono1)
  show ?thesis
  proof (cases "r < row")
    case True
    then have "r * w + w \<le> row * w" by (metis Suc_leI add.commute mult_Suc mult_le_mono1)
    moreover from this have "r * w + n \<le> row * w" using assms(5) by simp
    ultimately show ?thesis using fits by (simp add: take_drop)
  next
    case False
    then have "row * w + w \<le> r * w" using assms(4)
      by (metis Suc_leI add.commute linorder_neqE_nat mult_Suc mult_le_mono1)
    then have "drop (r * w) (take (row * w) ids @ cells @ drop (row * w + w) ids) = drop (r * w) ids"
      using fits assms(1) False by simp
    then show ?thesis by simp
  qed
qed

lemma own_row_cells:
  assumes "length cells = w" and "row * w + w \<le> length ids"
  shows "take n (drop (row * w) (take (row * w) ids @ cells @ drop (row * w + w) ids)) = take n (cells @ drop (row * w + w) ids)"
  using assms by simp

text \<open>
  C17. Claiming a domain list: within the width declared and while a row is free, a claim succeeds and
  the list reads back as the domains named, sorted and each once; every list held before it reads as it
  did, in a row of its own; and the table keeps its shape.
\<close>

theorem claim_roundtrip:
  assumes "lists_inv rows ls" and "ls_free ls \<noteq> []" and "card (set ds) \<le> ls_width ls"
  shows "\<exists>l ls'. claim ls ds = (Inr l, ls') \<and> lists_inv rows ls' \<and> list_wf rows ls' l \<and> is_held ls' l \<and>
    lists_get ls' l = sorted_list_of_set (set ds) \<and>
    (\<forall>l'. list_wf rows ls l' \<and> is_held ls l' \<longrightarrow>
       is_held ls' l' \<and> lists_get ls' l' = lists_get ls l' \<and>
       (list_is_empty l' \<or> list_is_empty l \<or> dl_row l' \<noteq> dl_row l))"
proof (cases "ds = []")
  case True
  then show ?thesis using assms(1)
    by (auto simp: claim_def EMPTY_list_def list_wf_def is_held_def list_is_empty_def lists_get_def)
next
  case False
  define w where "w = ls_width ls"
  define row where "row = last (ls_free ls)"
  have row: "row < rows" and rowin: "row \<in> set (ls_free ls)"
    using assms(1,2) unfolding row_def lists_inv_def by (meson last_in_set lessThan_iff subsetD)+
  have ids: "length (ls_ids ls) = rows * w" and w: "w < u32_bound"
    using assms(1) by (simp_all add: lists_inv_def w_def)
  then have fits: "row * w + w \<le> length (ls_ids ls)"
    using row by (metis Suc_leI add.commute mult_Suc mult_le_mono1)
  obtain cells r where call: "claim_all (take w (drop (row * w) (ls_ids ls))) 0 ds = (cells, r)" by force
  have "length (take w (drop (row * w) (ls_ids ls))) = w" using fits by simp
  then obtain n where r: "r = Some n" and len: "length cells = w" and n: "n \<le> w"
    and tk: "take n cells = sorted_list_of_set (set ds)"
    using claim_all_spec [OF _ _ call] assms(3) unfolding w_def by (cases r) auto
  let ?ids = "take (row * w) (ls_ids ls) @ cells @ drop (row * w + w) (ls_ids ls)"
  let ?l = "\<lparr>dl_row = row, dl_len = n\<rparr>" and ?ls = "ls\<lparr>ls_ids := ?ids, ls_free := butlast (ls_free ls)\<rparr>"
  have eq: "claim ls ds = (Inr ?l, ?ls)"
    using False assms(2) call r n w by (simp add: claim_def Let_def row_def w_def)
  have free: "set (butlast (ls_free ls)) = set (ls_free ls) - {row}"
    using assms(1,2) unfolding row_def lists_inv_def
    by (metis Diff_insert_absorb append_butlast_last_id distinct_butlast not_distinct_conv_prefix
        list.simps(15) rotate1.simps(2) set_rotate1)
  have inv: "lists_inv rows ?ls"
    using assms(1) free len fits by (auto simp: lists_inv_def w_def distinct_butlast)
  have lenids: "length ?ids = length (ls_ids ls)" using len fits by simp
  have "row * w + n \<le> length ?ids" using lenids fits n by simp
  moreover have "n \<noteq> 0" using tk False by (metis List.finite_set set_sorted_list_of_set set_empty take0)
  ultimately have own: "lists_get ?ls ?l = sorted_list_of_set (set ds)"
    using tk len n own_row_cells [OF len fits, of n]
    by (simp add: lists_get_def list_is_empty_def w_def [symmetric] Let_def)
  have "is_held ?ls l' \<and> lists_get ?ls l' = lists_get ls l' \<and> (list_is_empty l' \<or> dl_row l' \<noteq> row)"
    if "list_wf rows ls l'" and "is_held ls l'" for l'
  proof (cases "list_is_empty l'")
    case False
    then have "dl_row l' \<noteq> row" and "dl_row l' < rows" and "dl_len l' \<le> w" and "dl_row l' \<notin> set (ls_free ls)"
      using that rowin by (auto simp: is_held_def list_wf_def w_def)
    then show ?thesis
      using other_row_cells [OF len row, of "dl_row l'" "dl_len l'" "ls_ids ls"] ids lenids free False
      by (simp add: is_held_def lists_get_def w_def [symmetric] Let_def)
  qed (simp add: is_held_def lists_get_def)
  moreover have "list_wf rows ?ls ?l" and "is_held ?ls ?l"
    using row n free by (simp_all add: list_wf_def is_held_def w_def)
  ultimately show ?thesis using eq inv own by force
qed

definition sample_lists :: domain_lists where
  "sample_lists = \<lparr>ls_ids = [1, 4, 0, 0, 0, 0], ls_width = 3, ls_free = [1]\<rparr>"

theorem claim_roundtrip_witness:
  "lists_inv 2 sample_lists \<and> claim sample_lists [7, 2, 7] =
     (Inr \<lparr>dl_row = 1, dl_len = 2\<rparr>, \<lparr>ls_ids = [1, 4, 0, 2, 7, 0], ls_width = 3, ls_free = []\<rparr>) \<and>
   lists_get (snd (claim sample_lists [7, 2, 7])) \<lparr>dl_row = 1, dl_len = 2\<rparr> = [2, 7] \<and>
   lists_get (snd (claim sample_lists [7, 2, 7])) \<lparr>dl_row = 0, dl_len = 2\<rparr> = [1, 4]"
proof -
  have inv: "lists_inv 2 sample_lists" by (auto simp: lists_inv_def sample_lists_def u32_bound_def)
  have c: "claim sample_lists [7, 2, 7] =
      (Inr \<lparr>dl_row = 1, dl_len = 2\<rparr>, \<lparr>ls_ids = [1, 4, 0, 2, 7, 0], ls_width = 3, ls_free = []\<rparr>)"
    by code_simp
  have "ls_free sample_lists \<noteq> []" and "card (set [7, 2, 7 :: nat]) \<le> ls_width sample_lists"
    by (simp_all add: sample_lists_def card_insert_if)
  from claim_roundtrip [OF inv this] obtain l ls' where l: "claim sample_lists [7, 2, 7] = (Inr l, ls')"
    and own: "lists_get ls' l = sorted_list_of_set (set [7, 2, 7])"
    and others: "\<forall>l'. list_wf 2 sample_lists l' \<and> is_held sample_lists l' \<longrightarrow> lists_get ls' l' = lists_get sample_lists l'"
    by metis
  have lv: "l = \<lparr>dl_row = 1, dl_len = 2\<rparr>" and ls': "ls' = snd (claim sample_lists [7, 2, 7])"
    using l c by simp_all
  have "lists_get ls' l = [2, 7]" unfolding own by code_simp
  moreover have "lists_get ls' \<lparr>dl_row = 0, dl_len = 2\<rparr> = [1, 4]"
  proof -
    have "list_wf 2 sample_lists \<lparr>dl_row = 0, dl_len = 2\<rparr>" and "is_held sample_lists \<lparr>dl_row = 0, dl_len = 2\<rparr>"
      and "lists_get sample_lists \<lparr>dl_row = 0, dl_len = 2\<rparr> = [1, 4]"
      by (simp_all add: sample_lists_def list_wf_def is_held_def lists_get_def list_is_empty_def)
    then show ?thesis using others by metis
  qed
  ultimately show ?thesis using inv c unfolding lv ls' by blast
qed

section \<open>Interning\<close>

text \<open>Names are numbered in the order they are first given, so the table is a bijection onto its size.\<close>

definition interned_inv :: "interned \<Rightarrow> bool" where
  "interned_inv tab \<longleftrightarrow> distinct (keys tab) \<and> vals tab = [0..<length tab]"

lemma intern_spec:
  assumes "interned_inv tab" and "intern lim tab name = Some (d, tab')"
  shows "interned_inv tab' \<and> map_of tab' name = Some d \<and> (\<forall>n e. map_of tab n = Some e \<longrightarrow> map_of tab' n = Some e) \<and>
    length tab \<le> length tab'"
proof (cases "map_of tab name")
  case None
  then have new: "name \<notin> set (keys tab)" by (simp add: map_of_keys)
  then have "tab' = tab @ [(name, length tab)]" and "d = length tab"
    using assms(2) None by (auto simp: intern_def hinsert_def hput_def split: if_splits)
  then show ?thesis using assms(1) None new by (auto simp: interned_inv_def map_of_snoc simp del: map_of_append split: option.split)
next
  case (Some e)
  then show ?thesis using assms by (auto simp: intern_def split: if_splits)
qed

end
