(* ===== verification/Identities.thy ===== *)
theory Identities
  imports Dioring_Prelude "HOL-Library.Word"
begin

text \<open>
  The identities an instance hands out, crates/durable-ioring/src/ids.rs, and the slots that say
  whether a failure's token is live. Each operation on a slot is one atomic
  read-modify-write, so an interleaving of threads is a sequence of the steps below. Sequence numbers
  are natural numbers; a token slot is the 64-bit word it is in the code.
\<close>

unbundle bit_operations_syntax

section \<open>Names\<close>

record op_id =
  oi_instance :: nat
  oi_seq :: nat

record lineage_id =
  li_instance :: nat
  li_seq :: nat

record failure_id =
  fi_instance :: nat
  fi_seq :: nat

section \<open>Token slots\<close>

type_synonym token_slots = "64 word list"

record failure_token =
  tk_id :: failure_id
  tk_slot :: nat

definition token_word :: "nat \<Rightarrow> bool \<Rightarrow> 64 word" where
  "token_word failure live = push_bit 1 (of_nat failure) OR of_bool live"

definition token_slots_new :: "nat \<Rightarrow> token_slots" where
  "token_slots_new n = replicate n 0"

definition token_slot :: "token_slots \<Rightarrow> nat \<Rightarrow> 64 word option" where
  "token_slot ts at = (if at < length ts then Some (ts ! at) else None)"

definition token_is_live :: "token_slots \<Rightarrow> nat \<Rightarrow> failure_id \<Rightarrow> bool" where
  "token_is_live ts at f = is_some_and (\<lambda>w. w = token_word (fi_seq f) True) (token_slot ts at)"

text \<open>A failure's first token stores its word; a later one only over its own word with none live.\<close>

definition token_mint ::
  "failure_id \<Rightarrow> nat \<Rightarrow> bool \<Rightarrow> token_slots \<Rightarrow> failure_token option \<times> token_slots" where
  "token_mint f at first ts =
     (case token_slot ts at of
        None \<Rightarrow> (None, ts)
      | Some w \<Rightarrow>
          if first \<or> w = token_word (fi_seq f) False
          then (Some \<lparr>tk_id = f, tk_slot = at\<rparr>, ts[at := token_word (fi_seq f) True])
          else (None, ts))"

text \<open>Dropping a token clears its liveness, unless the slot is another failure's by now.\<close>

definition token_drop :: "failure_token \<Rightarrow> token_slots \<Rightarrow> token_slots" where
  "token_drop t ts =
     (case token_slot ts (tk_slot t) of
        None \<Rightarrow> ts
      | Some w \<Rightarrow>
          if w = token_word (fi_seq (tk_id t)) True
          then ts[tk_slot t := token_word (fi_seq (tk_id t)) False] else ts)"

lemma token_word_nat: "token_word f live = of_nat (2 * f + of_bool live)"
proof -
  have "push_bit 1 (of_nat f) AND of_bool live = (0 :: 64 word)"
    by (rule bit_eqI) (auto simp: bit_simps bit_0)
  then have "token_word f live = push_bit 1 (of_nat f) + of_bool live"
    by (simp add: token_word_def disjunctive_add_eq_or)
  then show ?thesis by (simp add: push_bit_eq_mult mult.commute)
qed

lemma unat_small: "n < 2 ^ 64 \<Longrightarrow> unat (of_nat n :: 64 word) = n"
  by (simp add: unat_of_nat)

text \<open>Failure numbers stay below this, so that a slot's word loses none of them.\<close>

definition seq_bound :: nat where
  "seq_bound = 2 ^ 63"

lemma token_word_unat:
  assumes "f < seq_bound"
  shows "unat (token_word f live) = 2 * f + of_bool live"
proof -
  have "2 * f + of_bool live < 2 ^ 64" using assms by (cases live) (simp_all add: seq_bound_def)
  then show ?thesis unfolding token_word_nat by (rule unat_small)
qed

lemma token_word_inject:
  assumes "f < seq_bound" and "g < seq_bound"
  shows "token_word f a = token_word g b \<longleftrightarrow> f = g \<and> a = b"
proof
  assume "token_word f a = token_word g b"
  then have "2 * f + of_bool a = 2 * g + of_bool b"
    using token_word_unat [OF assms(1), of a] token_word_unat [OF assms(2), of b] by simp
  then show "f = g \<and> a = b" by (cases a; cases b; simp; presburger)
qed simp

section \<open>Tokens over time\<close>

text \<open>
  What the instance and the token holders do to the slots: a failure observed takes a slot and mints
  its first token, the inventory mints another for a failure that holds a slot, and a token is dropped,
  which closing and resolving it do. \<open>ks_holder\<close> is the failure each slot was last given to, and
  \<open>ks_out\<close> the tokens that exist. Failures are numbered in observation order.
\<close>

record token_state =
  ks_slots :: token_slots
  ks_holder :: "(nat, failure_id) table"
  ks_next :: nat
  ks_out :: "failure_token list"

inductive token_step :: "token_state \<Rightarrow> token_state \<Rightarrow> bool" where
  token_observe:
    "fi_seq f = ks_next s \<Longrightarrow> Suc (ks_next s) < seq_bound \<Longrightarrow> token_mint f at True (ks_slots s) = (Some t, ts) \<Longrightarrow>
     token_step s (s\<lparr>ks_slots := ts, ks_holder := tput at f (ks_holder s), ks_next := ks_next s + 1,
       ks_out := t # ks_out s\<rparr>)"
| token_take:
    "map_of (ks_holder s) at = Some f \<Longrightarrow> token_mint f at False (ks_slots s) = (Some t, ts) \<Longrightarrow>
     token_step s (s\<lparr>ks_slots := ts, ks_out := t # ks_out s\<rparr>)"
| token_close:
    "t \<in> set (ks_out s) \<Longrightarrow>
     token_step s (s\<lparr>ks_slots := token_drop t (ks_slots s), ks_out := remove1 t (ks_out s)\<rparr>)"

definition token_start :: "nat \<Rightarrow> token_state" where
  "token_start n = \<lparr>ks_slots = token_slots_new n, ks_holder = [], ks_next = 0, ks_out = []\<rparr>"

text \<open>
  A held slot's word is its holder's, live exactly when the holder's token is out; a failure has at
  most one token out, and the holder's is for its own slot.
\<close>

definition holder_ok :: "token_state \<Rightarrow> nat \<Rightarrow> failure_id \<Rightarrow> bool" where
  "holder_ok s at f \<longleftrightarrow> at < length (ks_slots s) \<and> fi_seq f < ks_next s \<and>
     ks_slots s ! at = token_word (fi_seq f) (\<lparr>tk_id = f, tk_slot = at\<rparr> \<in> set (ks_out s)) \<and>
     (\<forall>t \<in> set (ks_out s). fi_seq (tk_id t) = fi_seq f \<longrightarrow> tk_id t = f \<and> tk_slot t = at)"

definition holder_inj :: "(nat, failure_id) table \<Rightarrow> bool" where
  "holder_inj h \<longleftrightarrow> (\<forall>a b f g. map_of h a = Some f \<and> map_of h b = Some g \<and> fi_seq f = fi_seq g \<longrightarrow> a = b)"

definition token_inv :: "token_state \<Rightarrow> bool" where
  "token_inv s \<longleftrightarrow>
     ks_next s < seq_bound \<and> (\<forall>at f. map_of (ks_holder s) at = Some f \<longrightarrow> holder_ok s at f) \<and>
     holder_inj (ks_holder s) \<and>
     (\<forall>t \<in> set (ks_out s). fi_seq (tk_id t) < ks_next s) \<and>
     distinct (map (\<lambda>t. fi_seq (tk_id t)) (ks_out s))"

lemma token_invI:
  assumes "\<forall>at f. map_of (ks_holder s) at = Some f \<longrightarrow> holder_ok s at f"
    and "holder_inj (ks_holder s)"
    and "ks_next s < seq_bound" and "\<forall>t \<in> set (ks_out s). fi_seq (tk_id t) < ks_next s"
    and "distinct (map (\<lambda>t. fi_seq (tk_id t)) (ks_out s))"
  shows "token_inv s"
  using assms by (simp add: token_inv_def)

lemma token_mint_Some:
  "token_mint f at first ts = (Some t, ts') \<longleftrightarrow>
   at < length ts \<and> (first \<or> ts ! at = token_word (fi_seq f) False) \<and>
   t = \<lparr>tk_id = f, tk_slot = at\<rparr> \<and> ts' = ts[at := token_word (fi_seq f) True]"
  by (auto simp: token_mint_def token_slot_def split: if_splits)

lemma token_inv_holder:
  assumes "token_inv s" and "map_of (ks_holder s) at = Some f"
  shows "holder_ok s at f" and "fi_seq f < seq_bound"
    and "map_of (ks_holder s) b = Some g \<Longrightarrow> fi_seq g = fi_seq f \<Longrightarrow> b = at"
  using assms unfolding token_inv_def holder_ok_def holder_inj_def by (blast, meson order_less_trans, metis)

lemma token_inv_distinct: "token_inv s \<Longrightarrow> distinct (map (\<lambda>t. fi_seq (tk_id t)) (ks_out s))"
  by (simp add: token_inv_def)

lemma distinct_map_remove1: "distinct (map g xs) \<Longrightarrow> distinct (map g (remove1 x xs))"
  by (induction xs) (use set_remove1_subset in \<open>fastforce+\<close>)

lemma token_inv_close:
  assumes inv: "token_inv s" and t: "t \<in> set (ks_out s)"
    and s': "s' = s\<lparr>ks_slots := token_drop t (ks_slots s), ks_out := remove1 t (ks_out s)\<rparr>"
  shows "token_inv s'"
proof -
  note dist = token_inv_distinct [OF inv]
  have out: "set (ks_out s') = set (ks_out s) - {t}" using dist by (simp add: s' distinct_map)
  have "fi_seq (tk_id t) < ks_next s" and "ks_next s < seq_bound" using inv t by (simp_all add: token_inv_def)
  then have small: "fi_seq (tk_id t) < seq_bound" by (rule order_less_trans)
  have hs: "ks_holder s' = ks_holder s" and ns: "ks_next s' = ks_next s"
    and ss: "ks_slots s' = token_drop t (ks_slots s)"
    by (simp_all add: s')
  have len: "length (token_drop t (ks_slots s)) = length (ks_slots s)"
    by (simp add: token_drop_def split: option.split)
  have "holder_ok s' at f" if h: "map_of (ks_holder s) at = Some f" for at f
  proof -
    note ok = token_inv_holder(1) [OF inv h, unfolded holder_ok_def]
    have "token_drop t (ks_slots s) ! at =
        token_word (fi_seq f) (\<lparr>tk_id = f, tk_slot = at\<rparr> \<in> set (ks_out s) - {t})"
    proof (cases "t = \<lparr>tk_id = f, tk_slot = at\<rparr>")
      case True
      then show ?thesis using ok t by (simp add: token_drop_def token_slot_def)
    next
      case False
      then have ne: "fi_seq (tk_id t) \<noteq> fi_seq f" using ok t by auto
      have "token_drop t (ks_slots s) ! at = ks_slots s ! at"
        using ne ok token_inv_holder(2) [OF inv h] small
        by (simp add: token_drop_def token_slot_def token_word_inject nth_list_update)
      then show ?thesis using ok False by simp
    qed
    then show ?thesis unfolding holder_ok_def out hs ns ss len using ok by blast
  qed
  then have "\<forall>at f. map_of (ks_holder s') at = Some f \<longrightarrow> holder_ok s' at f" unfolding hs by blast
  moreover have "holder_inj (ks_holder s')"
    using inv by (simp add: token_inv_def hs)
  moreover have "ks_next s' < seq_bound" using inv by (simp add: token_inv_def ns)
  moreover have "\<forall>u \<in> set (ks_out s'). fi_seq (tk_id u) < ks_next s'"
    using inv unfolding out ns by (simp add: token_inv_def)
  moreover have "distinct (map (\<lambda>t. fi_seq (tk_id t)) (ks_out s'))"
    using distinct_map_remove1 [OF dist] by (simp add: s')
  ultimately show ?thesis by (rule token_invI)
qed

lemma token_inv_observe:
  assumes inv: "token_inv s" and f: "fi_seq f = ks_next s" "Suc (ks_next s) < seq_bound"
    and m: "token_mint f at True (ks_slots s) = (Some t, ts)"
    and s': "s' = s\<lparr>ks_slots := ts, ks_holder := tput at f (ks_holder s), ks_next := ks_next s + 1,
      ks_out := t # ks_out s\<rparr>"
  shows "token_inv s'"
proof -
  have at: "at < length (ks_slots s)" and t: "t = \<lparr>tk_id = f, tk_slot = at\<rparr>"
    and ts: "ts = (ks_slots s)[at := token_word (fi_seq f) True]"
    using m by (auto simp: token_mint_Some)
  have new: "\<forall>u \<in> set (ks_out s). fi_seq (tk_id u) < fi_seq f" using inv f(1) by (auto simp: token_inv_def)
  have "holder_ok s' b g" if h: "map_of (ks_holder s') b = Some g" for b g
  proof (cases "b = at")
    case True
    then have "g = f" using h by (simp add: s')
    then show ?thesis using True at new f(1) by (auto simp: holder_ok_def s' t ts)
  next
    case False
    then have "map_of (ks_holder s) b = Some g" using h by (simp add: s')
    from token_inv_holder(1) [OF inv this] show ?thesis using False
      by (auto simp: holder_ok_def s' t ts f(1))
  qed
  then have "\<forall>b g. map_of (ks_holder s') b = Some g \<longrightarrow> holder_ok s' b g" by blast
  moreover have "holder_inj (ks_holder s')"
    unfolding holder_inj_def
  proof (intro allI impI, elim conjE)
    fix a b g h
    assume a: "map_of (ks_holder s') a = Some g" and b: "map_of (ks_holder s') b = Some h"
      and eq: "fi_seq g = fi_seq h"
    have look: "map_of (ks_holder s') c = (if c = at then Some f else map_of (ks_holder s) c)" for c
      by (simp add: s')
    have other: "fi_seq g' \<noteq> fi_seq f" if "map_of (ks_holder s) c = Some g'" for c g'
      using token_inv_holder(1) [OF inv that] f(1) by (simp add: holder_ok_def)
    show "a = b"
      using a b eq other [of a g] other [of b h] token_inv_holder(3) [OF inv, of b h a g] unfolding look
      by (cases "a = at"; cases "b = at") simp_all
  qed
  moreover have "ks_next s' < seq_bound" using f(2) by (simp add: s')
  moreover have "\<forall>u \<in> set (ks_out s'). fi_seq (tk_id u) < ks_next s'"
    using new f(1) by (auto simp: s' t)
  moreover have "distinct (map (\<lambda>t. fi_seq (tk_id t)) (ks_out s'))"
    using token_inv_distinct [OF inv] new by (auto simp: s' t)
  ultimately show ?thesis by (rule token_invI)
qed

lemma token_inv_take:
  assumes inv: "token_inv s" and h: "map_of (ks_holder s) at = Some f"
    and m: "token_mint f at False (ks_slots s) = (Some t, ts)"
    and s': "s' = s\<lparr>ks_slots := ts, ks_out := t # ks_out s\<rparr>"
  shows "token_inv s'"
proof -
  note ok = token_inv_holder [OF inv h]
  have at: "at < length (ks_slots s)" and t: "t = \<lparr>tk_id = f, tk_slot = at\<rparr>"
    and w: "ks_slots s ! at = token_word (fi_seq f) False"
    and ts: "ts = (ks_slots s)[at := token_word (fi_seq f) True]"
    using m by (auto simp: token_mint_Some)
  have "t \<notin> set (ks_out s)" using w ok by (auto simp: holder_ok_def t token_word_inject)
  then have new: "\<forall>u \<in> set (ks_out s). fi_seq (tk_id u) \<noteq> fi_seq f"
    using ok(1) unfolding holder_ok_def t by (metis failure_token.surjective old.unit.exhaust)
  have "holder_ok s' b g" if hg': "map_of (ks_holder s') b = Some g" for b g
  proof (cases "b = at")
    case True
    then have "g = f" using h hg' by (simp add: s')
    then show ?thesis using True ok(1) new by (auto simp: holder_ok_def s' t ts)
  next
    case False
    have hg: "map_of (ks_holder s) b = Some g" using hg' by (simp add: s')
    then have "fi_seq g \<noteq> fi_seq f" using token_inv_holder(3) [OF inv h hg] False by blast
    then show ?thesis using False token_inv_holder(1) [OF inv hg]
      by (auto simp: holder_ok_def s' t ts)
  qed
  then have "\<forall>b g. map_of (ks_holder s') b = Some g \<longrightarrow> holder_ok s' b g" by blast
  moreover have "holder_inj (ks_holder s')"
    using inv by (simp add: token_inv_def s')
  moreover have "ks_next s' < seq_bound" using inv by (simp add: token_inv_def s')
  moreover have "\<forall>u \<in> set (ks_out s'). fi_seq (tk_id u) < ks_next s'"
    using inv ok(1) unfolding token_inv_def holder_ok_def s' t by simp
  moreover have "distinct (map (\<lambda>t. fi_seq (tk_id t)) (ks_out s'))"
    using token_inv_distinct [OF inv] new by (auto simp: s' t)
  ultimately show ?thesis by (rule token_invI)
qed

lemma token_inv_step:
  assumes "token_step s s'" and "token_inv s"
  shows "token_inv s'"
  using assms(1)
proof cases
  case (token_observe f at t ts)
  show ?thesis by (rule token_inv_observe [OF assms(2) token_observe(2-4) token_observe(1)])
next
  case (token_take at f t ts)
  show ?thesis by (rule token_inv_take [OF assms(2) token_take(2,3) token_take(1)])
next
  case (token_close t)
  show ?thesis by (rule token_inv_close [OF assms(2) token_close(2) token_close(1)])
qed

lemma token_inv_start: "token_inv (token_start n)"
  by (simp add: token_inv_def token_start_def seq_bound_def holder_inj_def)

text \<open>
  C15. At most one token is live for a failure: over every sequence of observations, inventory tokens
  and drops, by whatever threads and in whatever order, each failure has at most one token, and
  the slot a failure holds reads live exactly while that token exists, so a token can be taken from the
  inventory exactly when none does.
\<close>

theorem token_exclusive:
  assumes "token_step\<^sup>*\<^sup>* (token_start n) s"
  shows "distinct (map (\<lambda>t. fi_seq (tk_id t)) (ks_out s)) \<and>
    (\<forall>at f. map_of (ks_holder s) at = Some f \<longrightarrow>
       token_is_live (ks_slots s) at f = (\<lparr>tk_id = f, tk_slot = at\<rparr> \<in> set (ks_out s)) \<and>
       (fst (token_mint f at False (ks_slots s)) = None) = (\<lparr>tk_id = f, tk_slot = at\<rparr> \<in> set (ks_out s)))"
proof -
  have inv: "token_inv s"
    using assms by (induction rule: rtranclp_induct) (auto intro: token_inv_start token_inv_step)
  moreover have "token_is_live (ks_slots s) at f = (\<lparr>tk_id = f, tk_slot = at\<rparr> \<in> set (ks_out s)) \<and>
      (fst (token_mint f at False (ks_slots s)) = None) = (\<lparr>tk_id = f, tk_slot = at\<rparr> \<in> set (ks_out s))"
    if h: "map_of (ks_holder s) at = Some f" for at f
    using token_inv_holder(1,2) [OF inv h]
    by (simp add: holder_ok_def token_is_live_def token_mint_def token_slot_def token_word_inject)
  ultimately show ?thesis by (simp add: token_inv_def)
qed

text \<open>Two failures observed, the first one's token closed and taken again.\<close>

definition sample_tokens :: token_state where
  "sample_tokens =
     \<lparr>ks_slots = [token_word 0 True, token_word 1 True],
      ks_holder = [(0, \<lparr>fi_instance = 7, fi_seq = 0\<rparr>), (1, \<lparr>fi_instance = 7, fi_seq = 1\<rparr>)],
      ks_next = 2,
      ks_out = [\<lparr>tk_id = \<lparr>fi_instance = 7, fi_seq = 0\<rparr>, tk_slot = 0\<rparr>, \<lparr>tk_id = \<lparr>fi_instance = 7, fi_seq = 1\<rparr>, tk_slot = 1\<rparr>]\<rparr>"

lemma sample_tokens_reached: "token_step\<^sup>*\<^sup>* (token_start 2) sample_tokens"
proof -
  let ?f = "\<lparr>fi_instance = 7, fi_seq = 0\<rparr>" and ?g = "\<lparr>fi_instance = 7, fi_seq = 1\<rparr>"
  let ?t = "\<lparr>tk_id = ?f, tk_slot = 0\<rparr>" and ?u = "\<lparr>tk_id = ?g, tk_slot = 1\<rparr>"
  define s1 where "s1 = \<lparr>ks_slots = [token_word 0 True, 0], ks_holder = [(0, ?f)], ks_next = 1, ks_out = [?t]\<rparr>"
  define s2 where "s2 = \<lparr>ks_slots = [token_word 0 True, token_word 1 True], ks_holder = [(0, ?f), (1, ?g)], ks_next = 2, ks_out = [?u, ?t]\<rparr>"
  define s3 where "s3 = \<lparr>ks_slots = [token_word 0 False, token_word 1 True], ks_holder = [(0, ?f), (1, ?g)], ks_next = 2, ks_out = [?u]\<rparr>"
  have lt: "Suc (Suc 0) < seq_bound" by (simp add: seq_bound_def)
  have two: "token_slots_new 2 = [0, 0]" by (simp add: token_slots_new_def numeral_2_eq_2)
  have "token_step (token_start 2) s1"
    using token_observe [of ?f "token_start 2" 0 ?t "[token_word 0 True, 0]"]
    by (simp add: s1_def token_start_def two token_mint_Some seq_bound_def)
  moreover have "token_step s1 s2"
    using token_observe [of ?g s1 1 ?u "[token_word 0 True, token_word 1 True]"]
    by (simp add: s1_def s2_def token_mint_Some lt numeral_2_eq_2)
  moreover have "token_step s2 s3"
    using token_close [of ?t s2] by (simp add: s2_def s3_def token_drop_def token_slot_def)
  moreover have "token_step s3 sample_tokens"
    using token_take [of s3 0 ?f ?t "[token_word 0 True, token_word 1 True]"]
    by (simp add: s3_def sample_tokens_def token_mint_Some)
  ultimately show ?thesis by (metis (no_types) converse_rtranclp_into_rtranclp rtranclp.rtrancl_refl)
qed

theorem token_exclusive_witness:
  "distinct (map (\<lambda>t. fi_seq (tk_id t)) (ks_out sample_tokens)) \<and>
   token_is_live (ks_slots sample_tokens) 0 \<lparr>fi_instance = 7, fi_seq = 0\<rparr> \<and>
   fst (token_mint \<lparr>fi_instance = 7, fi_seq = 0\<rparr> 0 False (ks_slots sample_tokens)) = None"
  using token_exclusive [OF sample_tokens_reached] by (simp add: sample_tokens_def)

end
