(* ===== verification/Lineage_Handles.thy ===== *)
theory Lineage_Handles
  imports Dioring_Prelude "HOL-Library.Multiset"
begin

text \<open>
  The handles of an instance's lineages, crates/durable-ioring/src/ids.rs: the slots that count the
  copies of each lineage's handle, and what minting, cloning, dropping and taking the last copy do to
  them. Each operation on a slot is one atomic read-modify-write, so an interleaving of threads is a
  sequence of the steps below; a minted lineage's number is stored in its slot before any copy of its
  handle exists.
\<close>

section \<open>Slots and handles\<close>

text \<open>
  A home's slots, each the lineage it was claimed for and how many copies of the handle there are; a
  handle is its lineage and its slot. A handle whose home is gone counts nothing and is not here.
\<close>

record lineage_slot =
  sl_lineage :: nat
  sl_copies :: nat

record lineage_handle =
  hd_lineage :: nat
  hd_slot :: nat

definition lineage_slots_new :: "nat \<Rightarrow> lineage_slot list" where
  "lineage_slots_new n = replicate n \<lparr>sl_lineage = 0, sl_copies = 0\<rparr>"

definition free_slot :: "lineage_slot list \<Rightarrow> nat" where
  "free_slot ss = length (takeWhile (\<lambda>s. sl_copies s \<noteq> 0) ss)"

definition slot_claim :: "nat \<Rightarrow> lineage_slot list \<Rightarrow> (nat \<times> lineage_slot list) option" where
  "slot_claim l ss =
     (let at = free_slot ss
      in if at < length ss then Some (at, ss[at := \<lparr>sl_lineage = l, sl_copies = 1\<rparr>]) else None)"

definition slot_held :: "lineage_handle \<Rightarrow> lineage_slot list \<Rightarrow> bool" where
  "slot_held h ss = (hd_slot h < length ss \<and> sl_lineage (ss ! hd_slot h) = hd_lineage h)"

definition slots_in_use :: "lineage_slot list \<Rightarrow> nat" where
  "slots_in_use ss = length (filter (\<lambda>s. 0 < sl_copies s) ss)"

definition handle_mint :: "nat \<Rightarrow> lineage_slot list \<Rightarrow> (lineage_handle \<times> lineage_slot list) option" where
  "handle_mint l ss = map_option (\<lambda>(at, ss'). (\<lparr>hd_lineage = l, hd_slot = at\<rparr>, ss')) (slot_claim l ss)"

definition handle_clone :: "lineage_handle \<Rightarrow> lineage_slot list \<Rightarrow> lineage_slot list" where
  "handle_clone h ss = (if slot_held h ss then ss[hd_slot h := (ss ! hd_slot h)\<lparr>sl_copies := sl_copies (ss ! hd_slot h) + 1\<rparr>] else ss)"

definition handle_is_last :: "lineage_handle \<Rightarrow> lineage_slot list \<Rightarrow> bool" where
  "handle_is_last h ss = (slot_held h ss \<and> sl_copies (ss ! hd_slot h) = 1)"

text \<open>Whether the last copy was taken, the lineage not ended through it.\<close>

definition handle_take_last :: "lineage_handle \<Rightarrow> lineage_slot list \<Rightarrow> bool \<times> lineage_slot list" where
  "handle_take_last h ss =
     (if handle_is_last h ss then (True, ss[hd_slot h := (ss ! hd_slot h)\<lparr>sl_copies := 0\<rparr>]) else (False, ss))"

text \<open>Whether the home is told to end the lineage, and the slots after.\<close>

definition handle_drop :: "lineage_handle \<Rightarrow> lineage_slot list \<Rightarrow> bool \<times> lineage_slot list" where
  "handle_drop h ss =
     (if slot_held h ss
      then (sl_copies (ss ! hd_slot h) = 1,
            ss[hd_slot h := (ss ! hd_slot h)\<lparr>sl_copies := sl_copies (ss ! hd_slot h) - 1\<rparr>])
      else (False, ss))"

text \<open>
  Handles over time. A lineage is minted once, with a number of its own, and its handle with it; any
  copy that exists may be cloned or dropped, and the last may be taken. \<open>hs_ended\<close> lists the lineages
  the home was told to end, \<open>hs_taken\<close> those whose last handle was taken.
\<close>

record handle_state =
  hs_slots :: "lineage_slot list"
  hs_next :: nat
  hs_out :: "lineage_handle multiset"
  hs_ended :: "nat list"
  hs_taken :: "nat list"

inductive handle_step :: "handle_state \<Rightarrow> handle_state \<Rightarrow> bool" where
  handle_minted:
    "handle_mint (hs_next s) (hs_slots s) = Some (h, ss) \<Longrightarrow>
     handle_step s (s\<lparr>hs_slots := ss, hs_next := hs_next s + 1, hs_out := add_mset h (hs_out s)\<rparr>)"
| handle_cloned:
    "h \<in># hs_out s \<Longrightarrow>
     handle_step s (s\<lparr>hs_slots := handle_clone h (hs_slots s), hs_out := add_mset h (hs_out s)\<rparr>)"
| handle_dropped:
    "h \<in># hs_out s \<Longrightarrow> handle_drop h (hs_slots s) = (was_last, ss) \<Longrightarrow>
     handle_step s (s\<lparr>hs_slots := ss, hs_out := hs_out s - {#h#},
       hs_ended := (if was_last then [hd_lineage h] else []) @ hs_ended s\<rparr>)"
| handle_taken:
    "h \<in># hs_out s \<Longrightarrow> handle_take_last h (hs_slots s) = (True, ss) \<Longrightarrow>
     handle_step s (s\<lparr>hs_slots := ss, hs_out := hs_out s - {#h#}, hs_taken := hd_lineage h # hs_taken s\<rparr>)"

definition handle_start :: "nat \<Rightarrow> handle_state" where
  "handle_start n = \<lparr>hs_slots = lineage_slots_new n, hs_next = 0, hs_out = {#}, hs_ended = [], hs_taken = []\<rparr>"

text \<open>
  Every copy's slot is its lineage's and counts its copies, a lineage has one slot, and exactly the
  lineages with no copy left were ended or taken, each once.
\<close>

definition held_ok :: "handle_state \<Rightarrow> bool" where
  "held_ok s \<longleftrightarrow> (\<forall>h \<in># hs_out s. slot_held h (hs_slots s) \<and> hd_lineage h < hs_next s)"

definition counts_ok :: "handle_state \<Rightarrow> bool" where
  "counts_ok s \<longleftrightarrow> (\<forall>at < length (hs_slots s). sl_copies (hs_slots s ! at) =
     count (hs_out s) \<lparr>hd_lineage = sl_lineage (hs_slots s ! at), hd_slot = at\<rparr>)"

definition gone :: "handle_state \<Rightarrow> nat list" where
  "gone s = hs_ended s @ hs_taken s"

definition ended_ok :: "handle_state \<Rightarrow> bool" where
  "ended_ok s \<longleftrightarrow> distinct (gone s) \<and>
     set (gone s) = {..<hs_next s} - hd_lineage ` set_mset (hs_out s)"

definition handle_inv :: "handle_state \<Rightarrow> bool" where
  "handle_inv s \<longleftrightarrow> held_ok s \<and> counts_ok s \<and> inj_on hd_lineage (set_mset (hs_out s)) \<and> ended_ok s"

lemma handle_inv_count:
  assumes "handle_inv s" and "h \<in># hs_out s"
  shows "sl_copies (hs_slots s ! hd_slot h) = count (hs_out s) h" and "slot_held h (hs_slots s)"
    and "hd_slot h < length (hs_slots s)" and "hd_lineage h < hs_next s"
proof -
  show held: "slot_held h (hs_slots s)" and "hd_lineage h < hs_next s"
    using assms by (simp_all add: handle_inv_def held_ok_def)
  then show at: "hd_slot h < length (hs_slots s)" by (simp add: slot_held_def)
  have "\<lparr>hd_lineage = sl_lineage (hs_slots s ! hd_slot h), hd_slot = hd_slot h\<rparr> = h"
    using held by (simp add: slot_held_def)
  then show "sl_copies (hs_slots s ! hd_slot h) = count (hs_out s) h"
    using assms(1) at by (simp add: handle_inv_def counts_ok_def)
qed

lemma free_slot_free: "free_slot ss < length ss \<Longrightarrow> sl_copies (ss ! free_slot ss) = 0"
  using nth_length_takeWhile [of "\<lambda>s. sl_copies s \<noteq> 0" ss] by (simp add: free_slot_def)

lemma handle_inv_mint:
  assumes inv: "handle_inv s" and m: "handle_mint (hs_next s) (hs_slots s) = Some (h, ss)"
    and s': "s' = s\<lparr>hs_slots := ss, hs_next := hs_next s + 1, hs_out := add_mset h (hs_out s)\<rparr>"
  shows "handle_inv s'"
proof -
  define at where "at = free_slot (hs_slots s)"
  have at: "at < length (hs_slots s)" and h: "h = \<lparr>hd_lineage = hs_next s, hd_slot = at\<rparr>"
    and ss: "ss = (hs_slots s)[at := \<lparr>sl_lineage = hs_next s, sl_copies = 1\<rparr>]"
    using m by (auto simp: handle_mint_def slot_claim_def at_def Let_def split: if_splits)
  have free: "sl_copies (hs_slots s ! at) = 0" using free_slot_free at by (simp add: at_def)
  have noslot: "\<forall>k \<in># hs_out s. hd_slot k \<noteq> at"
    using handle_inv_count(1) [OF inv] free by (metis count_eq_zero_iff)
  have fresh: "\<forall>k \<in># hs_out s. hd_lineage k < hs_next s" using handle_inv_count(4) [OF inv] by blast
  then have new: "hs_next s \<notin> hd_lineage ` set_mset (hs_out s)" by auto
  have zero: "count (hs_out s) k = 0" if "hd_slot k = at" for k
    using noslot that by (metis count_eq_zero_iff)
  have "held_ok s'" using inv noslot at fresh
    by (auto simp: handle_inv_def held_ok_def s' ss h slot_held_def less_Suc_eq nth_list_update)
  moreover have "counts_ok s'"
    using inv at zero by (simp add: handle_inv_def counts_ok_def s' ss h nth_list_update)
  moreover have "inj_on hd_lineage (set_mset (hs_out s'))"
    using inv new by (auto simp: handle_inv_def s' h)
  moreover have "ended_ok s'"
    using inv fresh by (auto simp: handle_inv_def ended_ok_def gone_def s' h less_Suc_eq)
  ultimately show ?thesis by (simp add: handle_inv_def)
qed

lemma handle_inv_clone:
  assumes inv: "handle_inv s" and h: "h \<in># hs_out s"
    and s': "s' = s\<lparr>hs_slots := handle_clone h (hs_slots s), hs_out := add_mset h (hs_out s)\<rparr>"
  shows "handle_inv s'"
proof -
  note c = handle_inv_count [OF inv h]
  have ss: "handle_clone h (hs_slots s) =
      (hs_slots s)[hd_slot h := (hs_slots s ! hd_slot h)\<lparr>sl_copies := count (hs_out s) h + 1\<rparr>]"
    using c by (simp add: handle_clone_def)
  have eta: "\<lparr>hd_lineage = sl_lineage (hs_slots s ! hd_slot h), hd_slot = hd_slot h\<rparr> = h"
    using c(2) by (simp add: slot_held_def)
  have out: "set_mset (hs_out s') = set_mset (hs_out s)" using h by (simp add: s' insert_absorb)
  have "held_ok s'" using inv c(3)
    by (simp add: handle_inv_def held_ok_def out) (simp add: s' ss slot_held_def nth_list_update)
  moreover have "counts_ok s'"
    using inv c(3) eta by (auto simp: handle_inv_def counts_ok_def s' ss nth_list_update)
  moreover have "inj_on hd_lineage (set_mset (hs_out s'))" using inv by (simp add: handle_inv_def out)
  moreover have "ended_ok s'"
    using inv by (simp add: handle_inv_def ended_ok_def gone_def out) (simp add: s')
  ultimately show ?thesis by (simp add: handle_inv_def)
qed

text \<open>One copy fewer, the lineage gone exactly when it was the last.\<close>

lemma handle_inv_fewer:
  assumes inv: "handle_inv s" and h: "h \<in># hs_out s"
    and slots: "hs_slots s' = (hs_slots s)[hd_slot h := (hs_slots s ! hd_slot h)\<lparr>sl_copies := count (hs_out s) h - 1\<rparr>]"
    and out: "hs_out s' = hs_out s - {#h#}" and nxt: "hs_next s' = hs_next s"
    and last: "count (hs_out s) h = 1 \<Longrightarrow> mset (gone s') = add_mset (hd_lineage h) (mset (gone s))"
    and more: "count (hs_out s) h \<noteq> 1 \<Longrightarrow> gone s' = gone s"
  shows "handle_inv s'"
proof -
  note c = handle_inv_count [OF inv h]
  have eta: "\<lparr>hd_lineage = sl_lineage (hs_slots s ! hd_slot h), hd_slot = hd_slot h\<rparr> = h"
    using c(2) by (simp add: slot_held_def)
  have inj: "inj_on hd_lineage (set_mset (hs_out s))" and eo: "ended_ok s"
    using inv by (simp_all add: handle_inv_def)
  have sub: "set_mset (hs_out s') \<subseteq> set_mset (hs_out s)" by (auto simp: out dest: in_diffD)
  have "\<forall>k \<in># hs_out s'. slot_held k (hs_slots s) \<and> hd_lineage k < hs_next s"
    using sub c inv by (auto simp: handle_inv_def held_ok_def)
  then have "held_ok s'" using c(3) by (simp add: held_ok_def slots slot_held_def nxt nth_list_update)
  moreover have "counts_ok s'"
    using inv c(3) eta by (auto simp: handle_inv_def counts_ok_def slots out nth_list_update)
  moreover have "inj_on hd_lineage (set_mset (hs_out s'))" using inj sub by (rule inj_on_subset)
  moreover have "ended_ok s'"
  proof (cases "count (hs_out s) h = 1")
    case True
    have g: "mset (gone s') = add_mset (hd_lineage h) (mset (gone s))" by (rule last [OF True])
    have "set_mset (hs_out s') = set_mset (hs_out s) - {h}"
      using True by (auto simp: out set_mset_diff set_eq_iff)
    then have "hd_lineage ` set_mset (hs_out s') = hd_lineage ` set_mset (hs_out s) - {hd_lineage h}"
      using inj h by (simp add: inj_on_image_set_diff [of _ "set_mset (hs_out s)"])
    moreover have "set (gone s') = insert (hd_lineage h) (set (gone s))"
      using g by (metis set_mset_add_mset_insert set_mset_mset)
    moreover have "hd_lineage h \<notin> set (gone s)" using eo h by (auto simp: ended_ok_def)
    moreover from this have "distinct (hd_lineage h # gone s)" using eo by (simp add: ended_ok_def)
    then have "distinct (gone s')" using mset_eq_imp_distinct_iff [of "gone s'" "hd_lineage h # gone s"] g by simp
    ultimately show ?thesis using eo c(4) h by (auto simp: ended_ok_def nxt)
  next
    case False
    moreover have "0 < count (hs_out s) h" using h by simp
    ultimately have "1 < count (hs_out s) h" by linarith
    then have "h \<in># hs_out s'" by (simp add: out in_diff_count)
    moreover have "k \<in># hs_out s'" if "k \<in># hs_out s" and "k \<noteq> h" for k
      using that by (simp add: out in_diff_count)
    ultimately have "set_mset (hs_out s') = set_mset (hs_out s)" using sub by blast
    then show ?thesis using eo more [OF False] by (simp add: ended_ok_def nxt)
  qed
  ultimately show ?thesis by (simp add: handle_inv_def)
qed

lemma handle_inv_step:
  assumes "handle_step s s'" and inv: "handle_inv s"
  shows "handle_inv s'"
  using assms(1)
proof cases
  case (handle_minted h ss)
  show ?thesis by (rule handle_inv_mint [OF inv handle_minted(2) handle_minted(1)])
next
  case (handle_cloned h)
  show ?thesis by (rule handle_inv_clone [OF inv handle_cloned(2) handle_cloned(1)])
next
  case (handle_dropped h was_last ss)
  note c = handle_inv_count [OF inv handle_dropped(2)]
  show ?thesis
    by (rule handle_inv_fewer [OF inv handle_dropped(2)])
       (use handle_dropped(3) c in \<open>auto simp: handle_dropped(1) handle_drop_def gone_def\<close>)
next
  case (handle_taken h ss)
  note c = handle_inv_count [OF inv handle_taken(2)]
  show ?thesis
    by (rule handle_inv_fewer [OF inv handle_taken(2)])
       (use handle_taken(3) c in \<open>auto simp: handle_taken(1) handle_take_last_def handle_is_last_def gone_def split: if_splits\<close>)
qed

lemma handle_inv_start: "handle_inv (handle_start n)"
  by (simp add: handle_inv_def held_ok_def counts_ok_def ended_ok_def gone_def handle_start_def lineage_slots_new_def)

lemma handle_inv_reached: "handle_step\<^sup>*\<^sup>* (handle_start n) s \<Longrightarrow> handle_inv s"
  by (induction rule: rtranclp_induct) (auto intro: handle_inv_start handle_inv_step)

text \<open>
  C16. A lineage is ended by its handles exactly once and only when no copy is left: over every
  sequence of mints, clones, drops and takings of a last copy, the lineages ended or taken are those
  minted with no copy left, each once; and a copy reads as the last exactly when it is the only one.
\<close>

theorem handles_end_once:
  assumes "handle_step\<^sup>*\<^sup>* (handle_start n) s"
  shows "distinct (hs_ended s @ hs_taken s) \<and>
    set (hs_ended s @ hs_taken s) = {..<hs_next s} - hd_lineage ` set_mset (hs_out s) \<and>
    (\<forall>h \<in># hs_out s. handle_is_last h (hs_slots s) \<longleftrightarrow> filter_mset (\<lambda>k. hd_lineage k = hd_lineage h) (hs_out s) = {#h#})"
proof -
  have inv: "handle_inv s" using assms by (rule handle_inv_reached)
  have "handle_is_last h (hs_slots s) \<longleftrightarrow> filter_mset (\<lambda>k. hd_lineage k = hd_lineage h) (hs_out s) = {#h#}"
    if h: "h \<in># hs_out s" for h
  proof -
    have inj: "inj_on hd_lineage (set_mset (hs_out s))" using inv by (simp add: handle_inv_def)
    have "filter_mset (\<lambda>k. hd_lineage k = hd_lineage h) (hs_out s) = replicate_mset (count (hs_out s) h) h"
      using inj h by (intro multiset_eqI) (auto simp: count_eq_zero_iff dest: inj_onD)
    then show ?thesis using handle_inv_count [OF inv h] by (auto simp: handle_is_last_def multiset_eq_iff)
  qed
  then show ?thesis using inv by (simp add: handle_inv_def ended_ok_def gone_def)
qed

text \<open>Two lineages minted, the first one's handle cloned and one copy of it dropped.\<close>

definition sample_handles :: handle_state where
  "sample_handles =
     \<lparr>hs_slots = [\<lparr>sl_lineage = 0, sl_copies = 1\<rparr>, \<lparr>sl_lineage = 1, sl_copies = 0\<rparr>], hs_next = 2,
      hs_out = {#\<lparr>hd_lineage = 0, hd_slot = 0\<rparr>#}, hs_ended = [1], hs_taken = []\<rparr>"

lemma sample_handles_reached: "handle_step\<^sup>*\<^sup>* (handle_start 2) sample_handles"
proof -
  let ?h = "\<lparr>hd_lineage = 0, hd_slot = 0\<rparr>" and ?k = "\<lparr>hd_lineage = 1, hd_slot = 1\<rparr>"
  let ?none = "\<lparr>sl_lineage = 0, sl_copies = 0\<rparr>" and ?one = "\<lambda>l. \<lparr>sl_lineage = l, sl_copies = 1\<rparr>"
  define s1 where "s1 = \<lparr>hs_slots = [?one 0, ?none], hs_next = 1, hs_out = {#?h#}, hs_ended = [], hs_taken = []\<rparr>"
  define s2 where "s2 = \<lparr>hs_slots = [?one 0, ?one 1], hs_next = 2, hs_out = {#?k, ?h#}, hs_ended = [], hs_taken = []\<rparr>"
  have start: "handle_start 2 = \<lparr>hs_slots = [?none, ?none], hs_next = 0, hs_out = {#}, hs_ended = [], hs_taken = []\<rparr>"
    by (simp add: handle_start_def lineage_slots_new_def numeral_2_eq_2)
  have "handle_step (handle_start 2) s1"
    using handle_minted [of "handle_start 2" ?h "[?one 0, ?none]"]
    by (simp add: start s1_def handle_mint_def slot_claim_def free_slot_def)
  moreover have "handle_step s1 s2"
    using handle_minted [of s1 ?k "[?one 0, ?one 1]"]
    by (simp add: s1_def s2_def handle_mint_def slot_claim_def free_slot_def numeral_2_eq_2)
  moreover have "handle_step s2 sample_handles"
    using handle_dropped [of ?k s2 True "[?one 0, \<lparr>sl_lineage = 1, sl_copies = 0\<rparr>]"]
    by (simp add: s2_def sample_handles_def handle_drop_def slot_held_def)
  ultimately show ?thesis by (metis (no_types) converse_rtranclp_into_rtranclp rtranclp.rtrancl_refl)
qed

theorem handles_end_once_witness:
  "distinct (hs_ended sample_handles @ hs_taken sample_handles) \<and>
   set (hs_ended sample_handles @ hs_taken sample_handles) = {1} \<and>
   handle_is_last \<lparr>hd_lineage = 0, hd_slot = 0\<rparr> (hs_slots sample_handles)"
proof -
  have "{..<2} - {0} = {1 :: nat}" by auto
  then show ?thesis using handles_end_once [OF sample_handles_reached] by (simp add: sample_handles_def)
qed

end
