(* ===== verification/Window.thy ===== *)
theory Window
  imports Dioring_Prelude
begin

text \<open>
  The places of the submit window, crates/durable-ioring/src/durability/window.rs: one place for each
  operation, held until its last holder lets go. The table of places is made for the operations
  declared, \<open>lim\<close> below. An operation answers \<^const>\<open>None\<close>, or what about it is inconsistent.
\<close>

section \<open>Places and their holders\<close>

datatype holder = ByOperation | ByUncovered | BySuspect | BySeal | ByAbandoned

record holds =
  h_operation :: bool
  h_uncovered :: bool
  h_suspected :: nat
  h_sealed :: bool
  h_abandoned :: bool

definition no_holds :: holds where
  "no_holds = \<lparr>h_operation = False, h_uncovered = False, h_suspected = 0, h_sealed = False, h_abandoned = False\<rparr>"

definition is_held_place :: "holds \<Rightarrow> bool" where
  "is_held_place p = (h_operation p \<or> h_uncovered p \<or> 0 < h_suspected p \<or> h_sealed p \<or> h_abandoned p)"

type_synonym window = "(nat, holds) table"

definition window_new :: window where
  "window_new = []"

definition window_places :: "window \<Rightarrow> nat" where
  "window_places w = length w"

fun take_hold :: "holder \<Rightarrow> holds \<Rightarrow> string + holds" where
  "take_hold ByOperation p =
     (if h_operation p then Inl ''an operation was admitted twice'' else Inr (p\<lparr>h_operation := True\<rparr>))"
| "take_hold ByUncovered p =
     (if h_uncovered p then Inl ''a write was recorded uncovered twice'' else Inr (p\<lparr>h_uncovered := True\<rparr>))"
| "take_hold BySuspect p = Inr (p\<lparr>h_suspected := h_suspected p + 1\<rparr>)"
| "take_hold BySeal p =
     (if h_sealed p then Inl ''two seals held one write's place'' else Inr (p\<lparr>h_sealed := True\<rparr>))"
| "take_hold ByAbandoned p =
     (if h_abandoned p then Inl ''two abandoned epochs held one write's place'' else Inr (p\<lparr>h_abandoned := True\<rparr>))"

definition window_hold :: "nat \<Rightarrow> nat \<Rightarrow> holder \<Rightarrow> window \<Rightarrow> string option \<times> window" where
  "window_hold lim op h w =
     (case (case map_of w op of Some _ \<Rightarrow> Some w | None \<Rightarrow> hinsert lim op no_holds w) of
        None \<Rightarrow> (Some ''a place was held past the operations declared'', w)
      | Some w' \<Rightarrow>
          (case take_hold h (the (map_of w' op)) of
             Inl what \<Rightarrow> (Some what, w')
           | Inr p \<Rightarrow> (None, tmod op (\<lambda>_. p) w')))"

text \<open>\<^const>\<open>None\<close> when the holder did not hold the place.\<close>

fun drop_hold :: "holder \<Rightarrow> holds \<Rightarrow> holds option" where
  "drop_hold ByOperation p = (if h_operation p then Some (p\<lparr>h_operation := False\<rparr>) else None)"
| "drop_hold ByUncovered p = (if h_uncovered p then Some (p\<lparr>h_uncovered := False\<rparr>) else None)"
| "drop_hold BySuspect p = (if h_suspected p = 0 then None else Some (p\<lparr>h_suspected := h_suspected p - 1\<rparr>))"
| "drop_hold BySeal p = (if h_sealed p then Some (p\<lparr>h_sealed := False\<rparr>) else None)"
| "drop_hold ByAbandoned p = (if h_abandoned p then Some (p\<lparr>h_abandoned := False\<rparr>) else None)"

definition window_release :: "nat \<Rightarrow> holder \<Rightarrow> window \<Rightarrow> string option \<times> window" where
  "window_release op h w =
     (case map_of w op of
        None \<Rightarrow> (Some ''a place was released that no one holds'', w)
      | Some p \<Rightarrow>
          (case drop_hold h p of
             None \<Rightarrow> (Some ''a place was released by a holder that did not hold it'', w)
           | Some p' \<Rightarrow> (None, if is_held_place p' then tmod op (\<lambda>_. p') w else tdel op w)))"

definition window_suspected :: "nat \<Rightarrow> window \<Rightarrow> bool" where
  "window_suspected op w = is_some_and (\<lambda>p. 0 < h_suspected p) (map_of w op)"

definition unpin :: "nat option \<Rightarrow> window \<Rightarrow> string option \<times> window" where
  "unpin pin w = (case pin of None \<Rightarrow> (None, w) | Some op \<Rightarrow> window_release op BySeal w)"

section \<open>What the window holds\<close>

text \<open>How many holds each kind of holder has on an operation's place.\<close>

fun holds_of :: "holder \<Rightarrow> holds \<Rightarrow> nat" where
  "holds_of ByOperation p = of_bool (h_operation p)"
| "holds_of ByUncovered p = of_bool (h_uncovered p)"
| "holds_of BySuspect p = h_suspected p"
| "holds_of BySeal p = of_bool (h_sealed p)"
| "holds_of ByAbandoned p = of_bool (h_abandoned p)"

definition held_by :: "window \<Rightarrow> holder \<Rightarrow> nat \<Rightarrow> nat" where
  "held_by w h op = (case map_of w op of None \<Rightarrow> 0 | Some p \<Rightarrow> holds_of h p)"

definition window_inv :: "window \<Rightarrow> bool" where
  "window_inv w \<longleftrightarrow> distinct (keys w) \<and> (\<forall>op p. map_of w op = Some p \<longrightarrow> is_held_place p)"

lemma is_held_iff: "is_held_place p \<longleftrightarrow> (\<exists>h. 0 < holds_of h p)"
proof
  assume "is_held_place p"
  then consider "0 < holds_of ByOperation p" | "0 < holds_of ByUncovered p" | "0 < holds_of BySuspect p"
    | "0 < holds_of BySeal p" | "0 < holds_of ByAbandoned p"
    by (auto simp: is_held_place_def)
  then show "\<exists>h. 0 < holds_of h p" by cases blast+
next
  assume "\<exists>h. 0 < holds_of h p"
  then obtain h where "0 < holds_of h p" by blast
  then show "is_held_place p" by (cases h) (auto simp: is_held_place_def split: if_splits)
qed

lemma holds_of_no_holds [simp]: "holds_of h no_holds = 0"
  by (cases h) (simp_all add: no_holds_def)

lemma take_hold_Inr:
  "take_hold h p = Inr q \<Longrightarrow> holds_of k q = holds_of k p + of_bool (k = h)"
  by (cases h; cases k) (auto split: if_splits)

lemma take_hold_Inl: "(\<exists>e. take_hold h p = Inl e) \<longleftrightarrow> h \<noteq> BySuspect \<and> 0 < holds_of h p"
  by (cases h) auto

lemma drop_hold_Some:
  "drop_hold h p = Some q \<Longrightarrow> holds_of k p = holds_of k q + of_bool (k = h)"
  by (cases h; cases k) (auto split: if_splits)

lemma drop_hold_None: "drop_hold h p = None \<longleftrightarrow> holds_of h p = 0"
  by (cases h) auto

lemma held_by_place:
  assumes inv: "window_inv w"
  shows "op \<in> set (keys w) \<longleftrightarrow> (\<exists>h. 0 < held_by w h op)"
proof (cases "map_of w op")
  case None
  then have "op \<notin> set (keys w)" by (simp add: map_of_keys)
  then show ?thesis using None by (simp add: held_by_def)
next
  case (Some p)
  then have "op \<in> set (keys w)" by (metis map_of_keys option.distinct(1))
  moreover have "\<exists>h. 0 < holds_of h p" using inv Some unfolding window_inv_def is_held_iff by blast
  ultimately show ?thesis using Some by (simp add: held_by_def)
qed

text \<open>The outcome of a hold: taken, with one hold more, or refused, with the holds as they were.\<close>

lemma window_hold_taken:
  assumes inv: "window_inv w" and "window_hold lim op h w = (None, w')"
  shows "window_inv w'"
    and "held_by w' k o' = held_by w k o' + of_bool (k = h \<and> o' = op)"
proof -
  obtain v where v: "(case map_of w op of Some _ \<Rightarrow> Some w | None \<Rightarrow> hinsert lim op no_holds w) = Some v"
    using assms(2) by (cases "case map_of w op of Some _ \<Rightarrow> Some w | None \<Rightarrow> hinsert lim op no_holds w")
      (simp_all add: window_hold_def)
  have look: "map_of v = (map_of w)(op \<mapsto> case map_of w op of None \<Rightarrow> no_holds | Some p \<Rightarrow> p)"
    using v by (auto simp: hinsert_def fun_eq_iff split: option.splits if_splits)
  have dist: "distinct (keys v)"
    using v inv by (auto simp: hinsert_def window_inv_def split: option.splits if_splits)
  obtain p q where p: "map_of v op = Some p" and q: "take_hold h p = Inr q" and w': "w' = tmod op (\<lambda>_. q) v"
    using assms(2) v look by (auto simp: window_hold_def split: sum.splits)
  have lookw: "map_of w' = (map_of v)(op \<mapsto> q)" using p by (auto simp: w' map_of_tmod fun_eq_iff)
  have heldq: "holds_of k q = held_by w k op + of_bool (k = h)" for k
    using take_hold_Inr [OF q, of k] p look by (auto simp: held_by_def split: option.splits)
  have "is_held_place q" using heldq [of h] unfolding is_held_iff by (metis add_gr_0 of_bool_eq(2) zero_less_one)
  then show "window_inv w'"
    using inv dist look lookw by (auto simp: window_inv_def w' split: if_splits)
  show "held_by w' k o' = held_by w k o' + of_bool (k = h \<and> o' = op)"
    using heldq [of k] look lookw by (cases "o' = op") (auto simp: held_by_def)
qed

lemma window_hold_length:
  "window_inv w \<Longrightarrow> length w \<le> lim \<Longrightarrow> window_hold lim op h w = (r, w') \<Longrightarrow> length w' \<le> lim"
  using hinsert_within [of lim op no_holds w]
  by (auto simp: window_hold_def split: option.splits sum.splits)

lemma window_hold_error:
  assumes inv: "window_inv w"
  shows "fst (window_hold lim op h w) \<noteq> None \<longleftrightarrow>
    (h \<noteq> BySuspect \<and> 0 < held_by w h op) \<or> (op \<notin> set (keys w) \<and> lim \<le> length w)"
proof (cases "map_of w op")
  case None
  then have new: "op \<notin> set (keys w)" by (simp add: map_of_keys)
  have "take_hold h no_holds \<noteq> Inl e" for e using take_hold_Inl [of h no_holds] by auto
  then obtain q where "take_hold h no_holds = Inr q" by (metis sum.exhaust)
  then show ?thesis using None new by (auto simp: window_hold_def hinsert_def held_by_def)
next
  case (Some p)
  then have "op \<in> set (keys w)" by (metis map_of_keys option.distinct(1))
  then show ?thesis using Some take_hold_Inl [of h p]
    by (auto simp: window_hold_def held_by_def split: sum.splits)
qed

lemma window_release_done:
  assumes inv: "window_inv w" and "window_release op h w = (None, w')"
  shows "window_inv w'" and "held_by w k o' = held_by w' k o' + of_bool (k = h \<and> o' = op)"
proof -
  obtain p q where p: "map_of w op = Some p" and q: "drop_hold h p = Some q"
    and w': "w' = (if is_held_place q then tmod op (\<lambda>_. q) w else tdel op w)"
    using assms(2) by (auto simp: window_release_def split: option.splits)
  have look: "map_of w' = (map_of w)(op := if is_held_place q then Some q else None)"
    using p by (auto simp: w' map_of_tmod fun_eq_iff)
  have zero: "\<not> is_held_place q \<Longrightarrow> holds_of k q = 0" for k unfolding is_held_iff by simp
  show "window_inv w'" using inv look by (auto simp: window_inv_def w' split: if_splits)
  show "held_by w k o' = held_by w' k o' + of_bool (k = h \<and> o' = op)"
    using drop_hold_Some [OF q, of k] p look zero by (cases "o' = op") (auto simp: held_by_def)
qed

lemma window_release_error: "fst (window_release op h w) \<noteq> None \<longleftrightarrow> held_by w h op = 0"
proof (cases "map_of w op")
  case (Some p)
  then show ?thesis using drop_hold_None [of h p]
    by (cases "drop_hold h p") (simp_all add: window_release_def held_by_def)
qed (simp add: window_release_def held_by_def)

lemma window_release_refused: "window_release op h w = (Some e, w') \<Longrightarrow> w' = w"
  by (auto simp: window_release_def split: option.splits)

lemma window_hold_refused:
  "window_hold lim op h w = (Some e, w') \<Longrightarrow> w' = w"
proof (cases "map_of w op")
  case None
  have "take_hold h no_holds \<noteq> Inl e" for e using take_hold_Inl [of h no_holds] by auto
  moreover assume "window_hold lim op h w = (Some e, w')"
  ultimately show ?thesis using None by (auto simp: window_hold_def hinsert_def split: sum.splits if_splits)
qed (auto simp: window_hold_def split: sum.splits)

lemma window_suspected_iff: "window_suspected op w \<longleftrightarrow> 0 < held_by w BySuspect op"
  by (simp add: window_suspected_def held_by_def split: option.split)

text \<open>
  C6. A place is held until its last holder lets go: taking a hold and letting it go again leaves every
  holder's holds on every operation as they were, takes a place exactly when the operation had none,
  and gives it back exactly then; neither is refused, but for a window full of other operations'
  places or a holder that holds the place already.
\<close>

theorem hold_release_roundtrip:
  assumes "window_inv w" and "length w \<le> lim" and "op \<in> set (keys w) \<or> length w < lim"
    and "h = BySuspect \<or> held_by w h op = 0"
  shows "\<exists>w1 w2. window_hold lim op h w = (None, w1) \<and> window_release op h w1 = (None, w2) \<and>
    window_inv w1 \<and> window_inv w2 \<and> op \<in> set (keys w1) \<and> length w1 \<le> lim \<and>
    (\<forall>k o'. held_by w2 k o' = held_by w k o') \<and> set (keys w2) = set (keys w)"
proof -
  have "fst (window_hold lim op h w) = None" using window_hold_error [OF assms(1), of lim op h] assms(3,4) by auto
  then obtain w1 where w1: "window_hold lim op h w = (None, w1)" by (metis prod.collapse)
  note t = window_hold_taken [OF assms(1) w1]
  have "0 < held_by w1 h op" using t(2) by simp
  moreover obtain r w2 where rel: "window_release op h w1 = (r, w2)" by force
  ultimately have w2: "window_release op h w1 = (None, w2)"
    using window_release_error [of op h w1] by (auto simp: rel)
  note d = window_release_done [OF t(1) w2]
  have same: "held_by w2 k o' = held_by w k o'" for k o' using t(2) [of k o'] d(2) [of k o'] by simp
  then have "set (keys w2) = set (keys w)"
    using held_by_place [OF assms(1)] held_by_place [OF d(1)] by (simp add: set_eq_iff del: set_map)
  moreover have "op \<in> set (keys w1)" using held_by_place [OF t(1)] \<open>0 < held_by w1 h op\<close> by blast
  ultimately show ?thesis
    using w1 w2 t(1) d(1) same window_hold_length [OF assms(1,2) w1] by blast
qed

theorem hold_release_roundtrip_witness:
  "\<exists>w1 w2. window_hold 2 7 BySuspect [(3, no_holds\<lparr>h_operation := True\<rparr>)] = (None, w1) \<and>
     window_release 7 BySuspect w1 = (None, w2) \<and> 7 \<in> set (keys w1) \<and> set (keys w2) = {3}"
proof -
  let ?w = "[(3, no_holds\<lparr>h_operation := True\<rparr>)] :: window"
  have "window_inv ?w" by (simp add: window_inv_def is_held_place_def)
  then obtain w1 w2 where "window_hold 2 7 BySuspect ?w = (None, w1)" and "window_release 7 BySuspect w1 = (None, w2)"
    and "7 \<in> set (keys w1)" and "set (keys w2) = set (keys ?w)"
    using hold_release_roundtrip [of ?w 2 7 BySuspect] by auto
  then show ?thesis by auto
qed

end
