(* ===== verification/Durability_State.thy ===== *)
theory Durability_State
  imports Capacity Domain_Lists Identities Window
begin

text \<open>
  The state of the durability core, crates/durable-ioring/src/durability.rs: the data a change reads
  and writes, the record of an instance's state with one field for each of the code's, and the
  construction of a new one. The epoch ids are any linear order \<open>'e\<close>; a target and a file are named by
  their keys; an instant is a number, the readings of the stamp clock a sequence the state walks along.
  Each table's size comes from the capacity declared, and \<open>rooms\<close> keeps the sizes the code's lists were
  reserved with.

  A defect the code finds in its own state is reported and panicked on (\<^verbatim>\<open>inconsistent\<close>). Here it is
  recorded in \<open>dg_panics\<close>, and the operation goes on as the code's does on a thread that is already
  unwinding, where it only reports; that the core never panics is that \<open>dg_panics\<close> stays empty. The
  details a report names beyond what was inconsistent are not kept.
\<close>

type_synonym key = nat

definition DEFAULT_LINEAGE :: key where
  "DEFAULT_LINEAGE = 0"

section \<open>Causes, reaches and gates\<close>

datatype refusal_kind =
  SubmitNeeded | DrainNeeded | SubmitAndDrainNeeded | Busy | UnknownTarget | Unsupported | Invalid
  | AccessDenied | Unusable | UnknownRefusal

text \<open>A fault is relayed as its source gave it; its report is named by its identity, as it compares.\<close>

record io_fault =
  fault_source :: string
  fault_code :: "int option"
  fault_refusal :: "refusal_kind option"
  fault_error :: nat

datatype import_scope = ScopeAll | ScopeLineage lineage_id | ScopeDomains "string list"

datatype failure_cause =
    CommitFailed nat io_fault
  | Imported import_scope
  | ProviderFailed string nat
  | ProviderAbandoned string

datatype reach = ReachAll | ReachFile domain_list | ReachDomain domain_id | ReachNamed domain_list

definition reach_of_file :: "domain_list \<Rightarrow> reach" where
  "reach_of_file l = (if list_is_empty l then ReachAll else ReachFile l)"

definition reaches :: "reach \<Rightarrow> domain_lists \<Rightarrow> domain_id list \<Rightarrow> bool" where
  "reaches r ls file =
     (case r of
        ReachAll \<Rightarrow> True
      | ReachDomain x \<Rightarrow> file = [] \<or> x \<in> set file
      | ReachFile l \<Rightarrow> file = [] \<or> list_ex (\<lambda>x. x \<in> set (lists_get ls l)) file
      | ReachNamed l \<Rightarrow> file = [] \<or> list_ex (\<lambda>x. x \<in> set (lists_get ls l)) file)"

datatype epoch_state = Open | Pending | Blocked failure_id | Durable | Abandoned

record 'e gate =
  g_lineage :: key
  g_epoch :: 'e

section \<open>Writes, seals and failures\<close>

record 'e accepted =
  a_op :: op_id
  a_lineage :: key
  a_epoch :: 'e
  a_file :: nat
  a_target :: nat
  a_routing :: routing
  a_domains :: domain_list

record 'e held_op =
  ho_op :: op_id
  ho_write :: "'e accepted option"
  ho_gate :: "'e gate"
  ho_ready :: bool

datatype stage = InFlight | Completed | Named nat

record 'e write_rec =
  w_op :: op_id
  w_lineage :: key
  w_epoch :: 'e
  w_file :: nat
  w_target :: nat
  w_routing :: routing
  w_domains :: domain_list
  w_stage :: stage
  w_born :: nat
  w_until :: "nat option"

record seal_domain =
  sd_answered :: bool
  sd_ok :: bool

datatype seal_stage = Waiting | Flushing nat bool | Done bool

record 'e empty_seal =
  em_made :: nat
  em_through :: 'e
  em_finished :: bool
  em_answered :: bool
  em_pair :: "nat option"

record 'e seal =
  s_seq :: nat
  s_made :: nat
  s_through :: 'e
  s_stage :: seal_stage
  s_answered :: bool
  s_pair :: "nat option"
  s_trailing :: "'e empty_seal option"
  s_pin :: "nat option"

text \<open>When a heal was made: the push sequence, then the seal clock, compared in that order.\<close>

type_synonym heal_at = "nat \<times> nat"

datatype standing = Unresolved | Healing heal_at | Resolved

record failure =
  f_id :: failure_id
  f_cause :: failure_cause
  f_reach :: reach
  f_only :: "key option"
  f_observed :: nat
  f_standing :: standing
  f_token :: nat

record 'e lineage_state =
  l_description :: "string option"
  l_sealed_through :: "'e option"
  l_durable_through :: "'e option"
  l_leading :: "'e empty_seal option"
  l_next_seal :: nat
  l_ended :: bool
  l_end_unpopped :: bool
  l_released :: "heal_at option"

definition lineage_state_new :: "string option \<Rightarrow> 'e lineage_state" where
  "lineage_state_new description =
     \<lparr>l_description = description, l_sealed_through = None, l_durable_through = None, l_leading = None,
      l_next_seal = 0, l_ended = False, l_end_unpopped = False, l_released = None\<rparr>"

text \<open>A write that has stopped being uncovered while a failure suspects it.\<close>

record 'e gone_write =
  k_op :: op_id
  k_lineage :: key
  k_epoch :: 'e
  k_file :: nat
  k_domains :: domain_list
  k_born :: nat
  k_until :: nat

datatype span = Unsealed | InSeal nat

fun span_of :: "stage \<Rightarrow> span" where
  "span_of InFlight = Unsealed"
| "span_of Completed = Unsealed"
| "span_of (Named sq) = InSeal sq"

record span_file =
  sp_writes :: nat
  sp_domains :: domain_list
  sp_flushed :: bool
  sp_answered :: bool
  sp_ok :: bool

definition span_file_new :: "domain_list \<Rightarrow> span_file" where
  "span_file_new l = \<lparr>sp_writes = 0, sp_domains = l, sp_flushed = False, sp_answered = False, sp_ok = False\<rparr>"

datatype part = FilePart nat | DomainPart domain_id

record 'e flush_pair =
  fp_id :: nat
  fp_through :: 'e

section \<open>What a change makes due\<close>

record 'e flush =
  fu_lineage :: key
  fu_through :: 'e
  fu_file :: nat
  fu_target :: nat

record failed =
  fd_id :: failure_id
  fd_token :: failure_token
  fd_cause :: failure_cause
  fd_observed :: nat

datatype 'e event =
    EvDurable key 'e
  | EvBlocked key 'e failure_id
  | EvFailed failed
  | EvAbandoned failure_id
  | EvHealed failure_id
  | EvSuperseded key 'e
  | EvLineageEnded key "'e option"
  | EvNeverIssued op_id "'e gate"

datatype write_end = Succeeded | WriteFailed io_fault

record provider_call =
  pc_lineage :: key
  pc_seal :: nat

record 'e due =
  du_flushes :: "'e flush list"
  du_events :: "'e event list"
  du_released :: "op_id list"
  du_calls :: "provider_call list"

definition fresh_due :: "'e due" where
  "fresh_due = \<lparr>du_flushes = [], du_events = [], du_released = [], du_calls = []\<rparr>"

section \<open>Diagnostics and the observer\<close>

datatype diagnostic_kind = InconsistencyKind | LockWaitKind | SealKind | FlushKind

datatype seal_outcome = SealDurable | SealFailed | SealBlocked | SealEndedUnanswered | SealSuperseded

datatype flush_outcome = FlushSucceeded | FlushFailed | FlushAbandoned

datatype flush_part = ShownFile nat | ShownDomain string

datatype 'e diagnostic =
    Inconsistency nat string
  | SealBegan nat key 'e nat
  | SealEnded nat key 'e nat seal_outcome
  | FlushBegan nat key 'e flush_part nat
  | FlushEnded nat key 'e flush_part nat flush_outcome

text \<open>The sink: the kinds it wants, what was reported to it, the process's next pair id, and the
  inconsistencies panicked on.\<close>

record 'e diagnostics =
  dg_wants :: "diagnostic_kind \<Rightarrow> bool"
  dg_reports :: "'e diagnostic list"
  dg_next_pair :: nat
  dg_panics :: "string list"

datatype marking_kind = Nullified io_fault | Covered bool bool

record marking =
  mk_write :: op_id
  mk_observed :: nat
  mk_kind :: marking_kind

record 'e suspect =
  su_op :: op_id
  su_lineage :: key
  su_epoch :: 'e
  su_file :: nat

text \<open>What the consumer's failure observer is told, in order.\<close>

datatype 'e observation =
    ToldFailed failure_id failure_cause nat
  | ToldSuspected failure_id "'e suspect"
  | ToldMarked failure_id marking

section \<open>The instance's state\<close>

record rooms =
  rm_events :: nat
  rm_failures :: nat
  rm_flush_pairs :: nat
  rm_seal_domains :: nat

record 'e durability =
  inst_id :: nat
  lineages :: "(key, 'e lineage_state) table"
  next_lineage :: key
  writes :: "(nat, 'e write_rec) table"
  seals :: "(key \<times> nat, 'e seal) table"
  in_flight_by_epoch :: "(key \<times> 'e, nat) table"
  held_by_epoch :: "(key \<times> 'e, nat) table"
  gated :: "(key \<times> 'e \<times> nat, 'e gate) table"
  spans :: "(key \<times> nat \<times> span, span_file) table"
  seal_domains :: "(key \<times> nat \<times> domain_id, seal_domain) table"
  dwindow :: window
  failures :: "failure list"
  kept :: "(nat, 'e gone_write) table"
  abandoned :: "(key \<times> 'e, nat) table"
  tokens :: token_slots
  free_tokens :: "nat list"
  dlists :: domain_lists
  next_failure :: nat
  next_push :: nat
  seals_made :: nat
  held :: "(nat, 'e held_op) table"
  served :: "domain_id list"
  clock :: "nat \<Rightarrow> nat"
  readings :: nat
  diags :: "'e diagnostics"
  observer :: bool
  told :: "'e observation list"
  flush_pairs :: "(key \<times> nat \<times> part, 'e flush_pair) table"
  served_names :: "(domain_id, string) table"
  cap :: capacity
  served_count :: nat
  rms :: rooms

abbreviation ops_room :: "'e durability \<Rightarrow> nat" where
  "ops_room d \<equiv> c_operations (cap d)"

abbreviation panics :: "'e durability \<Rightarrow> string list" where
  "panics d \<equiv> dg_panics (diags d)"

text \<open>A new instance: its default lineage, and its tables empty.\<close>

definition durability_new ::
  "nat \<Rightarrow> (nat \<Rightarrow> nat) \<Rightarrow> (diagnostic_kind \<Rightarrow> bool) \<Rightarrow> capacity \<Rightarrow> nat \<Rightarrow>
   construction_error + 'e durability" where
  "durability_new inst clk wants c srv =
     (if c_lineages c = 0 then Inl NoLineages
      else
        (case (reserved ''the domains the seals asked the provider about'' (provider_parts c srv),
               reserved ''the open flush pairs'' (flush_parts c srv),
               reserved ''the unresolved failures'' (cap_failures c srv),
               domain_lists_new (checked_add (c_targets c) (c_imports c)) (c_domains c),
               reserved ''the entries a change makes due'' (change_entries c srv)) of
           (Inl e, _) \<Rightarrow> Inl e
         | (Inr _, Inl e, _) \<Rightarrow> Inl e
         | (Inr _, Inr _, Inl e, _) \<Rightarrow> Inl e
         | (Inr _, Inr _, Inr _, Inl e, _) \<Rightarrow> Inl e
         | (Inr _, Inr _, Inr _, Inr _, Inl e) \<Rightarrow> Inl e
         | (Inr doms, Inr pairs, Inr fails, Inr ls, Inr events) \<Rightarrow>
             Inr \<lparr>inst_id = inst,
                  lineages = [(DEFAULT_LINEAGE, lineage_state_new None)],
                  next_lineage = DEFAULT_LINEAGE + 1,
                  writes = [], seals = [], in_flight_by_epoch = [], held_by_epoch = [], gated = [],
                  spans = [], seal_domains = [], dwindow = window_new, failures = [], kept = [],
                  abandoned = [], tokens = token_slots_new fails,
                  free_tokens = filter (\<lambda>at. at < u32_bound) (rev [0..<fails]),
                  dlists = ls, next_failure = 0, next_push = 0, seals_made = 0, held = [],
                  served = [], clock = clk, readings = 0,
                  diags = \<lparr>dg_wants = wants, dg_reports = [], dg_next_pair = 1, dg_panics = []\<rparr>,
                  observer = False, told = [], flush_pairs = [], served_names = [],
                  cap = c, served_count = srv,
                  rms = \<lparr>rm_events = events, rm_failures = fails, rm_flush_pairs = pairs,
                         rm_seal_domains = doms\<rparr>\<rparr>))"

text \<open>An inconsistency: reported to the sink if it wants it, and panicked on.\<close>

definition inconsistent :: "string \<Rightarrow> 'e durability \<Rightarrow> 'e durability" where
  "inconsistent what d =
     d\<lparr>diags := (diags d)\<lparr>
         dg_reports := dg_reports (diags d) @
           (if dg_wants (diags d) InconsistencyKind then [Inconsistency (inst_id d) what] else []),
         dg_panics := dg_panics (diags d) @ [what]\<rparr>\<rparr>"

definition maybe_inconsistent :: "string option \<Rightarrow> 'e durability \<Rightarrow> 'e durability" where
  "maybe_inconsistent what d = (case what of None \<Rightarrow> d | Some w \<Rightarrow> inconsistent w d)"

definition report :: "'e diagnostic \<Rightarrow> 'e durability \<Rightarrow> 'e durability" where
  "report e d = d\<lparr>diags := (diags d)\<lparr>dg_reports := dg_reports (diags d) @ [e]\<rparr>\<rparr>"

text \<open>A new pair id, if the sink wants the kind; the process's counter is this instance's here.\<close>

definition for_pair :: "diagnostic_kind \<Rightarrow> 'e durability \<Rightarrow> nat option \<times> 'e durability" where
  "for_pair kind d =
     (if dg_wants (diags d) kind
      then (Some (dg_next_pair (diags d)), d\<lparr>diags := (diags d)\<lparr>dg_next_pair := dg_next_pair (diags d) + 1\<rparr>\<rparr>)
      else (None, d))"

definition end_seal :: "key \<Rightarrow> 'e \<Rightarrow> nat option \<Rightarrow> seal_outcome \<Rightarrow> 'e durability \<Rightarrow> 'e durability" where
  "end_seal l through pair outcome d =
     (case pair of None \<Rightarrow> d | Some i \<Rightarrow> report (SealEnded (inst_id d) l through i outcome) d)"

definition flush_part_of :: "part \<Rightarrow> (domain_id, string) table \<Rightarrow> flush_part option" where
  "flush_part_of pt ns =
     (case pt of FilePart f \<Rightarrow> Some (ShownFile f) | DomainPart x \<Rightarrow> map_option ShownDomain (map_of ns x))"

definition end_flush ::
  "key \<Rightarrow> 'e flush_pair \<Rightarrow> flush_part \<Rightarrow> flush_outcome \<Rightarrow> 'e durability \<Rightarrow> 'e durability" where
  "end_flush l pair pt outcome d = report (FlushEnded (inst_id d) l (fp_through pair) pt (fp_id pair) outcome) d"

text \<open>Put an event on what is due, within its room. One past it is dropped, and the token it carries
  with it.\<close>

definition drop_event :: "'e event \<Rightarrow> 'e durability \<Rightarrow> 'e durability" where
  "drop_event e d = (case e of EvFailed fd \<Rightarrow> d\<lparr>tokens := token_drop (fd_token fd) (tokens d)\<rparr> | _ \<Rightarrow> d)"

definition emit :: "'e event \<Rightarrow> 'e due \<times> 'e durability \<Rightarrow> 'e due \<times> 'e durability" where
  "emit e s =
     (case within (rm_events (rms (snd s))) (du_events (fst s)) e of
        Some es \<Rightarrow> ((fst s)\<lparr>du_events := es\<rparr>, snd s)
      | None \<Rightarrow>
          (fst s,
           drop_event e (inconsistent ''a change made more entries due than the declaration bounds'' (snd s))))"

text \<open>The stamp clock is read: the next of its readings.\<close>

definition clock_now :: "'e durability \<Rightarrow> nat \<times> 'e durability" where
  "clock_now d = (clock d (readings d), d\<lparr>readings := readings d + 1\<rparr>)"

definition tell :: "'e observation \<Rightarrow> 'e durability \<Rightarrow> 'e durability" where
  "tell x d = d\<lparr>told := told d @ [x]\<rparr>"

section \<open>A small instance\<close>

text \<open>An instance built for four operations, two lineages, one import and two targets, with a provider
  that serves one of two domains: where the examples start.\<close>

definition sample_capacity :: capacity where
  "sample_capacity = \<lparr>c_operations = 4, c_lineages = 2, c_imports = 1, c_targets = 2, c_domains = 2\<rparr>"

definition sample_start :: "nat durability" where
  "sample_start =
     \<lparr>inst_id = 7, lineages = [(0, lineage_state_new None)], next_lineage = 1, writes = [], seals = [],
      in_flight_by_epoch = [], held_by_epoch = [], gated = [], spans = [], seal_domains = [], dwindow = [],
      failures = [], kept = [], abandoned = [], tokens = replicate 9 0, free_tokens = rev [0..<9],
      dlists = \<lparr>ls_ids = replicate 6 0, ls_width = 2, ls_free = [2, 1, 0]\<rparr>, next_failure = 0, next_push = 0,
      seals_made = 0, held = [], served = [], clock = id, readings = 0,
      diags = \<lparr>dg_wants = \<lambda>_. False, dg_reports = [], dg_next_pair = 1, dg_panics = []\<rparr>, observer = False,
      told = [], flush_pairs = [], served_names = [], cap = sample_capacity, served_count = 1,
      rms = \<lparr>rm_events = 47, rm_failures = 9, rm_flush_pairs = 8, rm_seal_domains = 4\<rparr>\<rparr>"

lemma sample_rooms:
  "provider_parts sample_capacity 1 = Some 4 \<and> flush_parts sample_capacity 1 = Some 8 \<and>
   cap_failures sample_capacity 1 = Some 9 \<and> change_entries sample_capacity 1 = Some 47 \<and>
   domain_lists_new (Some 3) 2 = Inr \<lparr>ls_ids = replicate 6 0, ls_width = 2, ls_free = [2, 1, 0]\<rparr> \<and>
   checked_add 2 1 = Some 3"
  by code_simp

lemma sample_start_new: "durability_new 7 id (\<lambda>_. False) sample_capacity 1 = Inr sample_start"
proof -
  have "filter (\<lambda>at. at < u32_bound) (rev [0..<9]) = rev [0..<9]"
    by (rule filter_True) (simp add: u32_bound_def)
  then show ?thesis
    using sample_rooms
    by (simp add: durability_new_def sample_start_def reserved_def token_slots_new_def DEFAULT_LINEAGE_def
        window_new_def sample_capacity_def)
qed

end
