(* ===== verification/Durability_Reads.thy ===== *)
theory Durability_Reads
  imports Durability_State
begin

text \<open>
  What the durability core reads of its state, crates/durable-ioring/src/durability.rs and
  durability/tables.rs, suspects.rs, heals.rs, empties.rs, files.rs, gates.rs, abandoned.rs, providers.rs
  and kept.rs: ranges of its tables, which writes a failure suspects and which epochs it holds, the
  states of epochs and gates, what a heal waits for, and what a seal made now would pin.
\<close>

section \<open>Ranges\<close>

text \<open>\<^verbatim>\<open>Ordered::between\<close>: past the leading run below the range, up to its end.\<close>

definition tbetween :: "('k \<Rightarrow> bool) \<Rightarrow> ('k \<Rightarrow> bool) \<Rightarrow> ('k, 'v) table \<Rightarrow> ('k, 'v) table" where
  "tbetween before up_to t = filter (\<lambda>e. \<not> before (fst e) \<and> up_to (fst e)) t"

definition first_of :: "'a list \<Rightarrow> 'a option" where
  "first_of xs = (case xs of [] \<Rightarrow> None | x # _ \<Rightarrow> Some x)"

definition last_of :: "'a list \<Rightarrow> 'a option" where
  "last_of xs = (if xs = [] then None else Some (last xs))"

definition seals_of :: "(key \<times> nat, 'e seal) table \<Rightarrow> key \<Rightarrow> (key \<times> nat, 'e seal) table" where
  "seals_of t l = tbetween (\<lambda>k. fst k < l) (\<lambda>k. fst k \<le> l) t"

datatype 'e bound = Included 'e | Excluded 'e | Unbounded

fun starts_after :: "'e::linorder bound \<Rightarrow> 'e \<Rightarrow> bool" where
  "starts_after (Included s) e = (e < s)"
| "starts_after (Excluded s) e = (e \<le> s)"
| "starts_after Unbounded e = False"

fun ends_at_or_after :: "'e::linorder bound \<Rightarrow> 'e \<Rightarrow> bool" where
  "ends_at_or_after (Included f) e = (e \<le> f)"
| "ends_at_or_after (Excluded f) e = (e < f)"
| "ends_at_or_after Unbounded e = True"

definition bound_contains :: "'e::linorder bound \<Rightarrow> 'e bound \<Rightarrow> 'e \<Rightarrow> bool" where
  "bound_contains lo hi e = (\<not> starts_after lo e \<and> ends_at_or_after hi e)"

text \<open>A lineage's entries of a table keyed by lineage, then by epoch (\<open>ep\<close> reads it), in a range.\<close>

definition table_of ::
  "('b \<Rightarrow> 'e::linorder) \<Rightarrow> (key \<times> 'b, 'v) table \<Rightarrow> key \<Rightarrow> 'e bound \<Rightarrow> 'e bound \<Rightarrow> (key \<times> 'b, 'v) table" where
  "table_of ep t l lo hi =
     tbetween (\<lambda>k. fst k < l \<or> fst k = l \<and> starts_after lo (ep (snd k)))
       (\<lambda>k. fst k < l \<or> fst k = l \<and> ends_at_or_after hi (ep (snd k))) t"

definition lowest :: "(key \<times> 'e::linorder, nat) table \<Rightarrow> key \<Rightarrow> 'e option" where
  "lowest counts l = map_option (\<lambda>e. snd (fst e)) (first_of (table_of id counts l Unbounded Unbounded))"

definition count_up ::
  "nat \<Rightarrow> key \<Rightarrow> 'e::linorder \<Rightarrow> (key \<times> 'e, nat) table \<Rightarrow> (key \<times> 'e, nat) table option" where
  "count_up lim l e counts =
     (case map_of counts (l, e) of
        Some _ \<Rightarrow> Some (tmod (l, e) (\<lambda>n. n + 1) counts)
      | None \<Rightarrow> tinsert lim (l, e) 1 counts)"

definition count_down ::
  "key \<Rightarrow> 'e::linorder \<Rightarrow> (key \<times> 'e, nat) table \<Rightarrow> bool \<times> (key \<times> 'e, nat) table" where
  "count_down l e counts =
     (case map_of counts (l, e) of
        None \<Rightarrow> (False, counts)
      | Some n \<Rightarrow> (True, if n - 1 = 0 then tdel (l, e) counts else tmod (l, e) (\<lambda>n. n - 1) counts))"

section \<open>Lineages\<close>

definition name_of :: "'e durability \<Rightarrow> key \<Rightarrow> lineage_id" where
  "name_of d l = \<lparr>li_instance = inst_id d, li_seq = l\<rparr>"

definition live :: "'e durability \<Rightarrow> key \<Rightarrow> 'e lineage_state option" where
  "live d l = opt_filter (\<lambda>st. \<not> l_ended st) (map_of (lineages d) l)"

definition is_live :: "'e durability \<Rightarrow> key \<Rightarrow> bool" where
  "is_live d l = (live d l \<noteq> None)"

definition sealed_through :: "'e durability \<Rightarrow> key \<Rightarrow> 'e option option" where
  "sealed_through d l = map_option l_sealed_through (live d l)"

definition durable_through :: "'e durability \<Rightarrow> key \<Rightarrow> 'e option option" where
  "durable_through d l = map_option l_durable_through (live d l)"

definition refuses :: "'e::linorder durability \<Rightarrow> key \<Rightarrow> 'e \<Rightarrow> 'e option" where
  "refuses d l e = Option.bind (live d l) (\<lambda>st. opt_filter (\<lambda>sealed. e \<le> sealed) (l_sealed_through st))"

definition lineage_count :: "'e durability \<Rightarrow> nat" where
  "lineage_count d = length (lineages d)"

record 'e lineage_info =
  lf_lineage :: lineage_id
  lf_description :: "string option"
  lf_is_default :: bool
  lf_durable_through :: "'e option"
  lf_sealed_through :: "'e option"

definition lineage_infos :: "'e durability \<Rightarrow> 'e lineage_info list" where
  "lineage_infos d =
     map (\<lambda>(k, st). \<lparr>lf_lineage = name_of d k, lf_description = l_description st,
                      lf_is_default = (k = DEFAULT_LINEAGE), lf_durable_through = l_durable_through st,
                      lf_sealed_through = l_sealed_through st\<rparr>)
       (filter (\<lambda>(k, st). \<not> l_ended st) (lineages d))"

section \<open>What a failure suspects\<close>

definition names_write ::
  "failure \<Rightarrow> domain_lists \<Rightarrow> nat \<Rightarrow> nat option \<Rightarrow> key \<Rightarrow> domain_list \<Rightarrow> bool" where
  "names_write f ls born unt l doms =
     (let at = fi_seq (f_id f)
      in born \<le> at \<and> is_none_or (\<lambda>u. at < u) unt \<and> is_none_or (\<lambda>only. only = l) (f_only f) \<and>
         reaches (f_reach f) ls (lists_get ls doms))"

definition names_uncovered :: "failure \<Rightarrow> domain_lists \<Rightarrow> 'e write_rec \<Rightarrow> bool" where
  "names_uncovered f ls w = names_write f ls (w_born w) (w_until w) (w_lineage w) (w_domains w)"

definition names_gone :: "failure \<Rightarrow> domain_lists \<Rightarrow> 'e gone_write \<Rightarrow> bool" where
  "names_gone f ls k = names_write f ls (k_born k) (Some (k_until k)) (k_lineage k) (k_domains k)"

definition uncovered_suspects ::
  "domain_lists \<Rightarrow> (nat, 'e write_rec) table \<Rightarrow> failure \<Rightarrow> 'e suspect list" where
  "uncovered_suspects ls ws f =
     map (\<lambda>w. \<lparr>su_op = w_op w, su_lineage = w_lineage w, su_epoch = w_epoch w, su_file = w_file w\<rparr>)
       (filter (names_uncovered f ls) (vals ws))"

definition gone_suspects ::
  "domain_lists \<Rightarrow> (nat, 'e gone_write) table \<Rightarrow> failure \<Rightarrow> 'e suspect list" where
  "gone_suspects ls ks f =
     map (\<lambda>k. \<lparr>su_op = k_op k, su_lineage = k_lineage k, su_epoch = k_epoch k, su_file = k_file k\<rparr>)
       (filter (names_gone f ls) (vals ks))"

definition suspects_in ::
  "domain_lists \<Rightarrow> (nat, 'e write_rec) table \<Rightarrow> (nat, 'e gone_write) table \<Rightarrow> failure \<Rightarrow> 'e suspect list" where
  "suspects_in ls ws ks f = uncovered_suspects ls ws f @ gone_suspects ls ks f"

abbreviation suspects :: "'e durability \<Rightarrow> failure \<Rightarrow> 'e suspect list" where
  "suspects d f \<equiv> suspects_in (dlists d) (writes d) (kept d) f"

definition suspects_op :: "'e durability \<Rightarrow> failure \<Rightarrow> op_id \<Rightarrow> bool" where
  "suspects_op d f op =
     (case map_of (writes d) (oi_seq op) of
        Some w \<Rightarrow> w_op w = op \<and> names_uncovered f (dlists d) w
      | None \<Rightarrow> is_some_and (\<lambda>k. k_op k = op \<and> names_gone f (dlists d) k) (map_of (kept d) (oi_seq op)))"

definition suspects_a_write_to :: "'e durability \<Rightarrow> failure \<Rightarrow> nat \<Rightarrow> bool" where
  "suspects_a_write_to d f file = list_ex (\<lambda>s. su_file s = file) (suspects d f)"

text \<open>The suspects in push order: the two parts merged.\<close>

fun merge_suspects :: "'e suspect list \<Rightarrow> 'e suspect list \<Rightarrow> 'e suspect list" where
  "merge_suspects (a # as) (b # bs) =
     (if oi_seq (su_op a) \<le> oi_seq (su_op b) then a # merge_suspects as (b # bs)
      else b # merge_suspects (a # as) bs)"
| "merge_suspects [] bs = bs"
| "merge_suspects as [] = as"

definition visit_suspects :: "'e durability \<Rightarrow> failure \<Rightarrow> 'e suspect list" where
  "visit_suspects d f =
     merge_suspects (uncovered_suspects (dlists d) (writes d) f) (gone_suspects (dlists d) (kept d) f)"

section \<open>What a failure holds\<close>

definition heal_reach :: "'e::linorder durability \<Rightarrow> key \<Rightarrow> heal_at \<Rightarrow> 'e option" where
  "heal_reach d l at =
     list_max
       (map w_epoch (filter (\<lambda>w. w_lineage w = l \<and> oi_seq (w_op w) < fst at) (vals (writes d))) @
        map a_epoch
          (filter (\<lambda>w. a_lineage w = l)
            (List.map_filter ho_write (filter (\<lambda>h. oi_seq (ho_op h) < fst at) (vals (held d))))))"

definition releases :: "'e::linorder durability \<Rightarrow> key \<Rightarrow> nat \<Rightarrow> 'e \<Rightarrow> heal_at \<Rightarrow> bool" where
  "releases d l made through at =
     (snd at \<le> made \<and> is_none_or (\<lambda>rc. rc \<le> through) (heal_reach d l at))"

definition pending_on :: "'e durability \<Rightarrow> failure \<Rightarrow> key \<Rightarrow> bool" where
  "pending_on d f l =
     (case f_standing f of
        Unresolved \<Rightarrow> True
      | Healing at \<Rightarrow>
          is_some_and (\<lambda>st. \<not> l_ended st \<and> is_none_or (\<lambda>done_at. done_at < at) (l_released st)) (map_of (lineages d) l)
      | Resolved \<Rightarrow> False)"

definition heal_now :: "'e durability \<Rightarrow> heal_at" where
  "heal_now d = (next_push d, seals_made d)"

definition holds_within ::
  "'e::linorder durability \<Rightarrow> failure \<Rightarrow> key \<Rightarrow> 'e bound \<Rightarrow> 'e bound \<Rightarrow> bool" where
  "holds_within d f l lo hi =
     (pending_on d f l \<and> list_ex (\<lambda>s. su_lineage s = l \<and> bound_contains lo hi (su_epoch s)) (suspects d f))"

definition above_bound :: "'e option \<Rightarrow> 'e bound" where
  "above_bound e = (case e of None \<Rightarrow> Unbounded | Some x \<Rightarrow> Excluded x)"

definition blocking :: "'e::linorder durability \<Rightarrow> key \<Rightarrow> 'e \<Rightarrow> failure_id option" where
  "blocking d l through =
     (case map_of (lineages d) l of
        None \<Rightarrow> None
      | Some st \<Rightarrow>
          if is_some_and (\<lambda>mark. through \<le> mark) (l_durable_through st) then None
          else map_option f_id
                 (find (\<lambda>f. holds_within d f l (above_bound (l_durable_through st)) (Included through))
                   (failures d)))"

definition lineage_failures :: "'e::linorder durability \<Rightarrow> key \<Rightarrow> failure_id list" where
  "lineage_failures d l = map f_id (filter (\<lambda>f. holds_within d f l Unbounded Unbounded) (failures d))"

section \<open>Seals, and the states of epochs\<close>

record 'e seal_point =
  pt_made :: nat
  pt_through :: 'e
  pt_finished :: bool

definition empty_point :: "'e empty_seal \<Rightarrow> 'e seal_point" where
  "empty_point e = \<lparr>pt_made = em_made e, pt_through = em_through e, pt_finished = em_finished e\<rparr>"

definition is_done :: "seal_stage \<Rightarrow> bool" where
  "is_done st = (case st of Done _ \<Rightarrow> True | _ \<Rightarrow> False)"

definition opt_list :: "'a option \<Rightarrow> 'a list" where
  "opt_list x = (case x of None \<Rightarrow> [] | Some v \<Rightarrow> [v])"

definition seal_points ::
  "'e lineage_state \<Rightarrow> (key \<times> nat, 'e seal) table \<Rightarrow> key \<Rightarrow> 'e seal_point list" where
  "seal_points st sl l =
     map empty_point (opt_list (l_leading st)) @
     concat (map (\<lambda>(k, s). \<lparr>pt_made = s_made s, pt_through = s_through s, pt_finished = is_done (s_stage s)\<rparr> #
                           map empty_point (opt_list (s_trailing s)))
              (seals_of sl l))"

definition epoch_state_of :: "'e::linorder durability \<Rightarrow> key \<Rightarrow> 'e \<Rightarrow> epoch_state option" where
  "epoch_state_of d l e =
     (case live d l of
        None \<Rightarrow> None
      | Some st \<Rightarrow>
          if map_of (abandoned d) (l, e) \<noteq> None then Some Abandoned
          else if is_none_or (\<lambda>sealed. sealed < e) (l_sealed_through st) then Some Open
          else if is_some_and (\<lambda>mark. e \<le> mark) (l_durable_through st) then Some Durable
          else
            (let finished = is_some_and pt_finished
                   (find (\<lambda>p. e \<le> pt_through p) (seal_points st (seals d) l))
             in Some (case blocking d l e of
                        Some f \<Rightarrow> if finished then Blocked f else Pending
                      | None \<Rightarrow> Pending)))"

datatype gate_standing = GateUnknown | GateAbandoned | GateDurable | GateWaiting

definition gate_state :: "'e::linorder durability \<Rightarrow> 'e gate \<Rightarrow> gate_standing" where
  "gate_state d g =
     (case epoch_state_of d (g_lineage g) (g_epoch g) of
        None \<Rightarrow> GateUnknown
      | Some Abandoned \<Rightarrow> GateAbandoned
      | Some Durable \<Rightarrow> GateDurable
      | Some _ \<Rightarrow> GateWaiting)"

definition is_abandoned :: "'e durability \<Rightarrow> key \<Rightarrow> 'e \<Rightarrow> bool" where
  "is_abandoned d l e =
     (is_some_and (\<lambda>st. \<not> l_ended st) (map_of (lineages d) l) \<and> map_of (abandoned d) (l, e) \<noteq> None)"

definition oldest_outstanding :: "'e::linorder durability \<Rightarrow> key \<Rightarrow> 'e option" where
  "oldest_outstanding d l = opt_lesser (lowest (in_flight_by_epoch d) l) (lowest (held_by_epoch d) l)"

definition pinned_by :: "'e::linorder durability \<Rightarrow> key \<Rightarrow> 'e \<Rightarrow> nat option" where
  "pinned_by d l through =
     (case map_of (lineages d) l of
        None \<Rightarrow> None
      | Some st \<Rightarrow>
          (let covers = (\<lambda>at e. at = l \<and> bound_contains (above_bound (l_sealed_through st)) (Included through) e);
               written = map_option fst (find (\<lambda>(k, w). covers (w_lineage w) (w_epoch w)) (writes d));
               hold = map_option fst
                 (find (\<lambda>(k, h). is_some_and (\<lambda>w. covers (a_lineage w) (a_epoch w)) (ho_write h)) (held d))
           in opt_lesser written hold))"

definition held_for_gate :: "'e durability \<Rightarrow> key \<Rightarrow> nat" where
  "held_for_gate d l =
     length (filter (\<lambda>h. is_some_and (\<lambda>w. a_lineage w = l) (ho_write h) \<or>
                         \<not> ho_ready h \<and> g_lineage (ho_gate h) = l) (vals (held d)))"

section \<open>Files and the provider's requests\<close>

record file_hold_counts =
  fh_uncovered :: nat
  fh_failures :: nat

definition holds_uncovered :: "'e durability \<Rightarrow> nat \<Rightarrow> 'e write_rec \<Rightarrow> bool" where
  "holds_uncovered d file w =
     (w_file w = file \<and> w_stage w \<noteq> InFlight \<and>
      is_some_and (\<lambda>st. \<not> l_ended st) (map_of (lineages d) (w_lineage w)) \<and>
      \<not> list_ex (\<lambda>f. suspects_op d f (w_op w)) (failures d))"

definition file_holds :: "'e durability \<Rightarrow> nat \<Rightarrow> file_hold_counts" where
  "file_holds d file =
     \<lparr>fh_uncovered = length (filter (holds_uncovered d file) (vals (writes d))),
      fh_failures = length (filter (\<lambda>f. suspects_a_write_to d f file) (failures d))\<rparr>"

definition file_holds_empty :: "file_hold_counts \<Rightarrow> bool" where
  "file_holds_empty h = (fh_uncovered h = 0 \<and> fh_failures h = 0)"

definition file_uncovered :: "'e::linorder durability \<Rightarrow> nat \<Rightarrow> (lineage_id \<times> 'e) list" where
  "file_uncovered d file =
     List.map_filter
       (\<lambda>l. map_option (Pair (name_of d l))
          (list_max (map w_epoch (filter (\<lambda>w. w_lineage w = l \<and> holds_uncovered d file w) (vals (writes d))))))
       (keys (lineages d))"

definition file_failures :: "'e durability \<Rightarrow> nat \<Rightarrow> failure_id list" where
  "file_failures d file = map f_id (filter (\<lambda>f. suspects_a_write_to d f file) (failures d))"

definition asked :: "'e durability \<Rightarrow> key \<Rightarrow> nat \<Rightarrow> domain_id list" where
  "asked d l sq = filter (\<lambda>x. map_of (seal_domains d) (l, sq, x) \<noteq> None) (served d)"

definition named_for_provider :: "'e durability \<Rightarrow> key \<Rightarrow> nat \<Rightarrow> (op_id \<times> nat \<times> domain_id list) list" where
  "named_for_provider d l sq =
     map (\<lambda>w. (w_op w, w_file w, lists_get (dlists d) (w_domains w)))
       (filter (\<lambda>w. w_lineage w = l \<and> w_stage w = Named sq \<and> r_provider (w_routing w)) (vals (writes d)))"

section \<open>The failures, as the inventory lists them\<close>

record failure_info =
  fo_id :: failure_id
  fo_cause :: failure_cause
  fo_observed :: nat
  fo_token_live :: bool

definition failure_infos :: "'e durability \<Rightarrow> failure_info list" where
  "failure_infos d =
     map (\<lambda>f. \<lparr>fo_id = f_id f, fo_cause = f_cause f, fo_observed = f_observed f,
                fo_token_live = (f_standing f \<noteq> Unresolved \<or> token_is_live (tokens d) (f_token f) (f_id f))\<rparr>)
       (filter (\<lambda>f. f_standing f \<noteq> Resolved) (failures d))"

definition imports_count :: "'e durability \<Rightarrow> nat" where
  "imports_count d = length (filter (\<lambda>f. case f_cause f of Imported _ \<Rightarrow> True | _ \<Rightarrow> False) (failures d))"

definition has_observed :: "'e durability \<Rightarrow> bool" where
  "has_observed d = (0 < next_failure d)"

end
