(* ===== verification/Gate_Search.thy ===== *)
theory Gate_Search
  imports Durability_Reads
begin

text \<open>
  The cycle search of crates/durable-ioring/src/durability/gates.rs, which refuses a gated push or a
  seal that would leave held writes waiting on each other. The search keeps a work list of gates, taken
  from its end, and a bound for each lineage it reached; raising a bound scans the newly covered gated
  writes and puts their gates on the work list. Its lists have the rooms the code made them with; a push
  past one is an inconsistency, reported, and ends the search: the search returns what it reported
  beside its answer.
\<close>

section \<open>The search\<close>

text \<open>How far a gate's lineage must complete its writes for its mark to reach the gate's epoch.\<close>

definition extent_seals :: "'e::linorder durability \<Rightarrow> 'e gate option \<Rightarrow> key \<Rightarrow> (nat \<times> 'e) list" where
  "extent_seals d extra l =
     (case live d l of
        None \<Rightarrow> []
      | Some st \<Rightarrow>
          map (\<lambda>p. (pt_made p, pt_through p)) (seal_points st (seals d) l) @
          map (\<lambda>g. (seals_made d, g_epoch g)) (opt_list (opt_filter (\<lambda>g. g_lineage g = l) extra)))"

definition extent :: "'e::linorder durability \<Rightarrow> 'e gate option \<Rightarrow> 'e gate \<Rightarrow> 'e option" where
  "extent d extra target =
     (case live d (g_lineage target) of
        None \<Rightarrow> None
      | Some st \<Rightarrow>
          if is_some_and (\<lambda>mark. g_epoch target \<le> mark) (l_durable_through st) then None
          else
            (let sls = extent_seals d extra (g_lineage target);
                 start = (case find (\<lambda>(_, through). g_epoch target \<le> through) sls of
                            None \<Rightarrow> g_epoch target
                          | Some (_, through) \<Rightarrow> max (g_epoch target) through)
             in Some
                  (fold (\<lambda>f ext.
                     case f_standing f of
                       Healing at \<Rightarrow>
                         if pending_on d f (g_lineage target) \<and>
                            list_ex (\<lambda>s. su_lineage s = g_lineage target \<and>
                                         bound_contains (above_bound (l_durable_through st))
                                           (Included (g_epoch target)) (su_epoch s)) (suspects d f)
                         then (case find (\<lambda>(made, through). releases d (g_lineage target) made through at) sls of
                                 None \<Rightarrow> ext
                               | Some (_, through) \<Rightarrow> max ext through)
                         else ext
                     | _ \<Rightarrow> ext) (failures d) start)))"

datatype 'e raised = Covers | Raised "'e bound" "(key, 'e) table" | PastLineages

definition raise :: "nat \<Rightarrow> key \<Rightarrow> 'e::linorder \<Rightarrow> (key, 'e) table \<Rightarrow> 'e raised" where
  "raise lim l ext bounds =
     (case map_of bounds l of
        Some b \<Rightarrow> if ext \<le> b then Covers else Raised (Excluded b) (tmod l (\<lambda>_. ext) bounds)
      | None \<Rightarrow>
          (case within lim bounds (l, ext) of Some bs \<Rightarrow> Raised Unbounded bs | None \<Rightarrow> PastLineages))"

abbreviation past_gates :: string where
  "past_gates \<equiv> ''a cycle search visited more gates than the operations declared''"

abbreviation past_lineages :: string where
  "past_lineages \<equiv> ''a cycle search reached more lineages than were declared''"

text \<open>Put gates on the work list, in order, up to its room: whether every one fitted.\<close>

fun seed_all :: "nat \<Rightarrow> 'e gate list \<Rightarrow> 'e gate list \<Rightarrow> bool \<times> 'e gate list" where
  "seed_all room work [] = (True, work)"
| "seed_all room work (g # gs) =
     (case within room work g of None \<Rightarrow> (False, work) | Some work' \<Rightarrow> seed_all room work' gs)"

text \<open>A lineage's gated writes above one bound and up to another, and the gates they wait for.\<close>

definition gates_in ::
  "(key \<times> 'e \<times> nat, 'e gate) table \<Rightarrow> key \<Rightarrow> 'e::linorder bound \<Rightarrow> 'e bound \<Rightarrow> 'e gate list" where
  "gates_in t l lo hi = vals (table_of fst t l lo hi)"

definition not_covered :: "(key \<times> 'e \<times> nat, 'e gate) table \<Rightarrow> (key, 'e::linorder) table \<Rightarrow> nat" where
  "not_covered t bounds =
     length (filter (\<lambda>e. is_none_or (\<lambda>b. b < fst (snd (fst e))) (map_of bounds (fst (fst e)))) t)"

lemma seed_all_work: "seed_all room work gs = (True, work') \<Longrightarrow> work' = work @ gs"
  by (induction gs arbitrary: work) (fastforce simp: within_def split: option.splits if_splits)+

lemma filter_length_either:
  assumes "\<And>x. p x = (q x \<or> r x)" and "\<And>x. \<not> (q x \<and> r x)"
  shows "length (filter p xs) = length (filter q xs) + length (filter r xs)"
  using assms(2) by (induction xs) (auto simp: assms(1))

lemma raise_not_covered:
  assumes "raise lim l ext bounds = Raised lo bounds'"
  shows "not_covered t bounds = not_covered t bounds' + length (gates_in t l lo (Included ext))"
proof -
  let ?p = "\<lambda>e. is_none_or (\<lambda>b. b < fst (snd (fst e))) (map_of bounds (fst (fst e)))"
  let ?q = "\<lambda>e. is_none_or (\<lambda>b. b < fst (snd (fst e))) (map_of bounds' (fst (fst e)))"
  let ?in = "\<lambda>e. \<not> (fst (fst e) < l \<or> fst (fst e) = l \<and> starts_after lo (fst (snd (fst e)))) \<and>
                 (fst (fst e) < l \<or> fst (fst e) = l \<and> ends_at_or_after (Included ext) (fst (snd (fst e))))"
  have *: "(?p e \<longleftrightarrow> ?q e \<or> ?in e) \<and> \<not> (?q e \<and> ?in e)" for e
    using assms
    by (auto simp: raise_def within_def map_of_tmod is_none_or_def map_of_append map_add_def
        split: option.splits if_splits)
  have "length (filter ?p t) = length (filter ?q t) + length (filter ?in t)"
    by (rule filter_length_either) (use * in blast)+
  then show ?thesis by (simp add: not_covered_def gates_in_def table_of_def tbetween_def)
qed

lemma raise_decreases:
  assumes "work \<noteq> []" and "raise lim l ext bounds = Raised lo bounds'"
    and "seed_all room (butlast work) (gates_in t l lo (Included ext)) = (True, work')"
  shows "2 * not_covered t bounds' + length work' < 2 * not_covered t bounds + length work"
proof -
  have "length (butlast work) < length work" using assms(1) by simp
  then show ?thesis
    using raise_not_covered [OF assms(2), of t] seed_all_work [OF assms(3)] by simp
qed

function needs_loop ::
  "'e::linorder durability \<Rightarrow> 'e gate \<Rightarrow> 'e gate option \<Rightarrow> 'e gate list \<Rightarrow> (key, 'e) table \<Rightarrow> string list \<times> bool" where
  "needs_loop d goal extra work bounds =
     (if work = [] then ([], False)
      else
        (let g = last work; rest = butlast work
         in case extent d extra g of
              None \<Rightarrow> needs_loop d goal extra rest bounds
            | Some ext \<Rightarrow>
                if g_lineage g = g_lineage goal \<and> g_epoch goal \<le> ext then ([], True)
                else
                  (case raise (c_lineages (cap d)) (g_lineage g) ext bounds of
                     Covers \<Rightarrow> needs_loop d goal extra rest bounds
                   | PastLineages \<Rightarrow> ([past_lineages], False)
                   | Raised lo bounds' \<Rightarrow>
                       (case seed_all (ops_room d) rest (gates_in (gated d) (g_lineage g) lo (Included ext)) of
                          (False, _) \<Rightarrow> ([past_gates], False)
                        | (True, work') \<Rightarrow> needs_loop d goal extra work' bounds'))))"
  by pat_completeness auto
termination
  by (relation "measure (\<lambda>(d, goal, extra, work, bounds). 2 * not_covered (gated d) bounds + length work)")
    (auto intro: raise_decreases)

declare needs_loop.simps [simp del]

definition needs ::
  "'e::linorder durability \<Rightarrow> 'e gate \<Rightarrow> 'e gate option \<Rightarrow> 'e gate list \<Rightarrow> string list \<times> bool" where
  "needs d goal extra work = needs_loop d goal extra work []"

text \<open>Whether a gated push would close a cycle.\<close>

definition write_cycle :: "'e::linorder durability \<Rightarrow> 'e gate \<Rightarrow> 'e gate \<Rightarrow> string list \<times> bool" where
  "write_cycle d wr g =
     (case seed_all (ops_room d) [] [g] of
        (False, _) \<Rightarrow> ([past_gates], False)
      | (True, work) \<Rightarrow> needs d wr None work)"

fun needs_any :: "'e::linorder durability \<Rightarrow> 'e gate option \<Rightarrow> ('e gate \<times> 'e gate) list \<Rightarrow> string list \<times> bool" where
  "needs_any d extra [] = ([], False)"
| "needs_any d extra ((wr, g) # rest) =
     (case (case seed_all (ops_room d) [] [g] of
              (False, _) \<Rightarrow> ([past_gates], False)
            | (True, work) \<Rightarrow> needs d wr extra work) of
        (said, True) \<Rightarrow> (said, True)
      | (said, False) \<Rightarrow> (case needs_any d extra rest of (said', b) \<Rightarrow> (said @ said', b)))"

definition sealing_needs :: "'e::linorder durability \<Rightarrow> key \<Rightarrow> 'e \<Rightarrow> string list \<times> bool" where
  "sealing_needs d l through =
     (let covered = table_of fst (gated d) l Unbounded (Included through);
          extra = Some \<lparr>g_lineage = l, g_epoch = through\<rparr>
      in case first_of covered of
           None \<Rightarrow> ([], False)
         | Some ((_, low, _), _) \<Rightarrow>
             (case seed_all (ops_room d) [] (vals covered) of
                (False, _) \<Rightarrow> ([past_gates], False)
              | (True, work) \<Rightarrow>
                  (case needs d \<lparr>g_lineage = l, g_epoch = low\<rparr> extra work of
                     (said, False) \<Rightarrow> (said, False)
                   | (said, True) \<Rightarrow>
                       (case needs_any d extra
                               (map (\<lambda>((_, e, _), g). (\<lparr>g_lineage = l, g_epoch = e\<rparr>, g)) covered) of
                          (said', b) \<Rightarrow> (said @ said', b)))))"

definition seal_cycle :: "'e::linorder durability \<Rightarrow> key \<Rightarrow> 'e \<Rightarrow> string list \<times> bool" where
  "seal_cycle d l through = (if live d l = None then ([], False) else sealing_needs d l through)"

section \<open>What the search decides\<close>

text \<open>
  Reaching a gate needs, in one step, every gate of the gated writes its lineage must complete: those at
  or below the gate's extent. A gate is on the goal when its lineage is the goal's and its extent reaches
  the goal's epoch.
\<close>

definition gate_edge :: "'e::linorder durability \<Rightarrow> 'e gate option \<Rightarrow> 'e gate \<Rightarrow> 'e gate \<Rightarrow> bool" where
  "gate_edge d extra g h \<longleftrightarrow>
     (\<exists>ext e q. extent d extra g = Some ext \<and> ((g_lineage g, e, q), h) \<in> set (gated d) \<and> e \<le> ext)"

definition on_goal :: "'e::linorder durability \<Rightarrow> 'e gate option \<Rightarrow> 'e gate \<Rightarrow> 'e gate \<Rightarrow> bool" where
  "on_goal d extra goal g \<longleftrightarrow>
     (\<exists>ext. extent d extra g = Some ext \<and> g_lineage g = g_lineage goal \<and> g_epoch goal \<le> ext)"

definition needs_goal :: "'e::linorder durability \<Rightarrow> 'e gate option \<Rightarrow> 'e gate \<Rightarrow> 'e gate \<Rightarrow> bool" where
  "needs_goal d extra goal g \<longleftrightarrow> (\<exists>h. (gate_edge d extra)\<^sup>*\<^sup>* g h \<and> on_goal d extra goal h)"

text \<open>A gate is settled by the bounds when it leads nowhere the bounds do not cover.\<close>

definition settled :: "'e::linorder durability \<Rightarrow> 'e gate \<Rightarrow> 'e gate option \<Rightarrow> (key, 'e) table \<Rightarrow> 'e gate \<Rightarrow> bool" where
  "settled d goal extra bounds g \<longleftrightarrow>
     (case extent d extra g of
        None \<Rightarrow> True
      | Some ext \<Rightarrow> \<not> on_goal d extra goal g \<and> (\<exists>b. map_of bounds (g_lineage g) = Some b \<and> ext \<le> b))"

definition covered_gate :: "'e::linorder durability \<Rightarrow> (key, 'e) table \<Rightarrow> 'e gate \<Rightarrow> bool" where
  "covered_gate d bounds h \<longleftrightarrow>
     (\<exists>l e q b. ((l, e, q), h) \<in> set (gated d) \<and> map_of bounds l = Some b \<and> e \<le> b)"

definition bounds_le :: "(key, 'e::linorder) table \<Rightarrow> (key, 'e) table \<Rightarrow> bool" where
  "bounds_le bs bs' \<longleftrightarrow> (\<forall>l b. map_of bs l = Some b \<longrightarrow> (\<exists>b'. map_of bs' l = Some b' \<and> b \<le> b'))"

lemma bounds_le_refl: "bounds_le bs bs"
  by (auto simp: bounds_le_def)

lemma bounds_le_trans: "bounds_le a b \<Longrightarrow> bounds_le b c \<Longrightarrow> bounds_le a c"
  unfolding bounds_le_def by (meson order_trans)

lemma settled_mono: "settled d goal extra bs g \<Longrightarrow> bounds_le bs bs' \<Longrightarrow> settled d goal extra bs' g"
  unfolding settled_def bounds_le_def by (fastforce split: option.splits dest: order_trans)

lemma raise_Raised:
  assumes "raise lim l ext bounds = Raised lo bounds'"
  shows "map_of bounds' = (map_of bounds)(l \<mapsto> ext)" and "bounds_le bounds bounds'"
    and "\<And>e. bound_contains lo (Included ext) e \<longleftrightarrow> e \<le> ext \<and> is_none_or (\<lambda>b. b < e) (map_of bounds l)"
  using assms
  by (auto simp: raise_def within_def bounds_le_def bound_contains_def map_of_tmod fun_eq_iff map_add_def
      split: option.splits if_splits)

lemma gates_in_set:
  "h \<in> set (gates_in t l lo hi) \<longleftrightarrow> (\<exists>e q. ((l, e, q), h) \<in> set t \<and> bound_contains lo hi e)"
  by (force simp: gates_in_def table_of_def tbetween_def bound_contains_def image_iff)

text \<open>The search answers yes only for a seed that needs the goal.\<close>

lemma needs_loop_sound:
  "needs_loop d goal extra work bounds = (said, True) \<Longrightarrow> \<exists>g \<in> set work. needs_goal d extra goal g"
proof (induction d goal extra work bounds arbitrary: said rule: needs_loop.induct)
  case (1 d goal extra work bounds)
  let ?g = "last work" and ?rest = "butlast work"
  have ne: "work \<noteq> []" using 1(4) by (auto simp: needs_loop.simps [of d goal extra work])
  then have g: "?g \<in> set work" and rest: "set ?rest \<subseteq> set work" by (auto dest: in_set_butlastD)
  show ?case
  proof (cases "extent d extra ?g")
    case None
    then show ?thesis using 1(1) [OF ne refl refl None] 1(4) ne rest
      by (auto simp: needs_loop.simps [of d goal extra work])
  next
    case (Some ext)
    show ?thesis
    proof (cases "g_lineage ?g = g_lineage goal \<and> g_epoch goal \<le> ext")
      case True
      then have "on_goal d extra goal ?g" using Some by (auto simp: on_goal_def)
      then show ?thesis using g unfolding needs_goal_def by blast
    next
      case False
      show ?thesis
      proof (cases "raise (c_lineages (cap d)) (g_lineage ?g) ext bounds")
        case Covers
        then show ?thesis using 1(2) [OF ne refl refl Some False Covers] 1(4) ne rest Some False
          by (auto simp: needs_loop.simps [of d goal extra work])
      next
        case PastLineages
        then show ?thesis using 1(4) ne Some False by (auto simp: needs_loop.simps [of d goal extra work])
      next
        case (Raised lo bounds')
        let ?gs = "gates_in (gated d) (g_lineage ?g) lo (Included ext)"
        obtain work' where seed: "seed_all (ops_room d) ?rest ?gs = (True, work')"
          and run: "needs_loop d goal extra work' bounds' = (said, True)"
          using 1(4) ne Some False Raised
          by (auto simp: needs_loop.simps [of d goal extra work] Let_def split: prod.splits bool.splits)
        obtain h where h: "h \<in> set work'" "needs_goal d extra goal h"
          using 1(3) [OF ne refl refl Some False Raised seed [symmetric] refl run] by blast
        have "gate_edge d extra ?g h" if "h \<in> set ?gs"
          using that Some raise_Raised(3) [OF Raised] unfolding gates_in_set gate_edge_def by blast
        then have "needs_goal d extra goal ?g" if "h \<in> set ?gs"
          using that h(2) unfolding needs_goal_def by (meson converse_rtranclp_into_rtranclp)
        then show ?thesis using h seed_all_work [OF seed] g rest by auto
      qed
    qed
  qed
qed

text \<open>A search that ends unanswered leaves bounds that cover what they lead to.\<close>

definition search_closed :: "'e::linorder durability \<Rightarrow> 'e gate \<Rightarrow> 'e gate option \<Rightarrow> (key, 'e) table \<Rightarrow> bool" where
  "search_closed d goal extra bounds \<longleftrightarrow> (\<forall>h. covered_gate d bounds h \<longrightarrow> settled d goal extra bounds h)"

definition search_inv ::
  "'e::linorder durability \<Rightarrow> 'e gate \<Rightarrow> 'e gate option \<Rightarrow> 'e gate list \<Rightarrow> (key, 'e) table \<Rightarrow> bool" where
  "search_inv d goal extra work bounds \<longleftrightarrow>
     (\<forall>h. covered_gate d bounds h \<longrightarrow> h \<in> set work \<or> settled d goal extra bounds h)"

definition search_ends ::
  "'e::linorder durability \<Rightarrow> 'e gate \<Rightarrow> 'e gate option \<Rightarrow> 'e gate list \<Rightarrow> (key, 'e) table \<Rightarrow> bool" where
  "search_ends d goal extra work bounds \<longleftrightarrow>
     (\<exists>bs. bounds_le bounds bs \<and> search_closed d goal extra bs \<and> (\<forall>g \<in> set work. settled d goal extra bs g))"

lemma set_last_butlast: "work \<noteq> [] \<Longrightarrow> set work = insert (last work) (set (butlast work))"
  by (metis Un_insert_right append_butlast_last_id list.set(1) list.set(2) set_append sup_bot.right_neutral)

lemma search_inv_settle:
  assumes "search_inv d goal extra work bounds" and "work \<noteq> []" and "settled d goal extra bounds (last work)"
  shows "search_inv d goal extra (butlast work) bounds"
  using assms unfolding search_inv_def by (auto simp: set_last_butlast [OF assms(2)])

lemma search_ends_settle:
  assumes "search_ends d goal extra (butlast work) bounds" and "work \<noteq> []" and "settled d goal extra bounds (last work)"
  shows "search_ends d goal extra work bounds"
  using assms settled_mono unfolding search_ends_def set_last_butlast [OF assms(2)] by blast

lemma search_inv_raise:
  assumes inv: "search_inv d goal extra work bounds" and ne: "work \<noteq> []"
    and ext: "extent d extra (last work) = Some ext" and ng: "\<not> on_goal d extra goal (last work)"
    and up: "raise lim (g_lineage (last work)) ext bounds = Raised lo bounds'"
  shows "search_inv d goal extra (butlast work @ gates_in (gated d) (g_lineage (last work)) lo (Included ext)) bounds'"
  unfolding search_inv_def
proof (intro allI impI)
  fix h assume "covered_gate d bounds' h"
  then obtain l e q b where e: "((l, e, q), h) \<in> set (gated d)" "map_of bounds' l = Some b" "e \<le> b"
    unfolding covered_gate_def by blast
  have last: "settled d goal extra bounds' (last work)"
    using ext ng raise_Raised(1) [OF up] by (simp add: settled_def)
  show "h \<in> set (butlast work @ gates_in (gated d) (g_lineage (last work)) lo (Included ext)) \<or>
    settled d goal extra bounds' h"
  proof (cases "covered_gate d bounds h")
    case True
    then have "h \<in> set work \<or> settled d goal extra bounds h" using inv unfolding search_inv_def by blast
    then have "h = last work \<or> h \<in> set (butlast work) \<or> settled d goal extra bounds' h"
      using settled_mono [OF _ raise_Raised(2) [OF up]] unfolding set_last_butlast [OF ne] by blast
    then show ?thesis using last by auto
  next
    case False
    then have "l = g_lineage (last work) \<and> bound_contains lo (Included ext) e"
      using e raise_Raised(1) [OF up] raise_Raised(3) [OF up, of e]
      by (auto simp: covered_gate_def is_none_or_def not_less [symmetric] split: option.splits if_splits)
    then show ?thesis using e(1) by (auto simp: gates_in_set)
  qed
qed

lemma needs_loop_complete:
  "needs_loop d goal extra work bounds = ([], False) \<Longrightarrow> search_inv d goal extra work bounds \<Longrightarrow>
   search_ends d goal extra work bounds"
proof (induction d goal extra work bounds rule: needs_loop.induct)
  case (1 d goal extra work bounds)
  show ?case
  proof (cases "work = []")
    case True
    then show ?thesis using 1(5) bounds_le_refl
      unfolding search_ends_def search_inv_def search_closed_def by auto
  next
    case ne: False
    let ?g = "last work" and ?rest = "butlast work"
    show ?thesis
    proof (cases "extent d extra ?g")
      case None
      then have st: "settled d goal extra bounds ?g" by (simp add: settled_def)
      have "needs_loop d goal extra ?rest bounds = ([], False)"
        using 1(4) ne None by (simp add: needs_loop.simps [of d goal extra work])
      from 1(1) [OF ne refl refl None this search_inv_settle [OF 1(5) ne st]] show ?thesis
        by (rule search_ends_settle [OF _ ne st])
    next
      case (Some ext)
      have ng: "\<not> (g_lineage ?g = g_lineage goal \<and> g_epoch goal \<le> ext)"
        using 1(4) ne Some by (auto simp: needs_loop.simps [of d goal extra work])
      then have ng': "\<not> on_goal d extra goal ?g" using Some by (auto simp: on_goal_def)
      show ?thesis
      proof (cases "raise (c_lineages (cap d)) (g_lineage ?g) ext bounds")
        case Covers
        then have st: "settled d goal extra bounds ?g" using Some ng'
          by (auto simp: settled_def raise_def split: option.splits if_splits)
        have "needs_loop d goal extra ?rest bounds = ([], False)"
          using 1(4) ne Some ng Covers by (auto simp: needs_loop.simps [of d goal extra work])
        from 1(2) [OF ne refl refl Some ng Covers this search_inv_settle [OF 1(5) ne st]] show ?thesis
          by (rule search_ends_settle [OF _ ne st])
      next
        case PastLineages
        then show ?thesis using 1(4) ne Some ng by (auto simp: needs_loop.simps [of d goal extra work])
      next
        case (Raised lo bounds')
        let ?gs = "gates_in (gated d) (g_lineage ?g) lo (Included ext)"
        obtain work' where seed: "seed_all (ops_room d) ?rest ?gs = (True, work')"
          and run: "needs_loop d goal extra work' bounds' = ([], False)"
          using 1(4) ne Some ng Raised
          by (auto simp: needs_loop.simps [of d goal extra work] Let_def split: prod.splits bool.splits)
        have work': "work' = ?rest @ ?gs" by (rule seed_all_work [OF seed])
        have "search_ends d goal extra work' bounds'"
          by (rule 1(3) [OF ne refl refl Some ng Raised seed [symmetric] refl run])
            (simp add: work' search_inv_raise [OF 1(5) ne Some ng' Raised])
        then obtain bs where bs: "bounds_le bounds' bs" "search_closed d goal extra bs"
          "\<forall>g \<in> set work'. settled d goal extra bs g" unfolding search_ends_def by blast
        have "settled d goal extra bounds' ?g"
          using Some ng' raise_Raised(1) [OF Raised] by (simp add: settled_def)
        then have "settled d goal extra bs ?g" using settled_mono bs(1) by blast
        moreover have "bounds_le bounds bs" using raise_Raised(2) [OF Raised] bs(1) by (rule bounds_le_trans)
        ultimately show ?thesis
          using bs work' unfolding search_ends_def set_last_butlast [OF ne] by auto
      qed
    qed
  qed
qed

lemma settled_not_needed:
  assumes closed: "search_closed d goal extra bs" and "settled d goal extra bs g"
  shows "\<not> needs_goal d extra goal g"
proof
  assume "needs_goal d extra goal g"
  then obtain h where h: "(gate_edge d extra)\<^sup>*\<^sup>* g h" "on_goal d extra goal h"
    unfolding needs_goal_def by blast
  from h(1) have "settled d goal extra bs h"
  proof (induction rule: rtranclp_induct)
    case (step y z)
    then have "covered_gate d bs z"
      unfolding covered_gate_def gate_edge_def settled_def by (fastforce dest: order_trans)
    then show ?case using closed unfolding search_closed_def by blast
  qed (rule assms(2))
  then show False using h(2) by (auto simp: settled_def on_goal_def split: option.splits)
qed

lemma needs_correct:
  assumes "needs d goal extra work = ([], b)"
  shows "b \<longleftrightarrow> (\<exists>g \<in> set work. needs_goal d extra goal g)"
proof (cases b)
  case True
  then have "needs_loop d goal extra work [] = ([], True)" using assms by (simp add: needs_def)
  then show ?thesis using True needs_loop_sound by blast
next
  case False
  have "search_ends d goal extra work []"
    by (rule needs_loop_complete) (use assms False in \<open>simp_all add: needs_def search_inv_def covered_gate_def\<close>)
  then show ?thesis using False settled_not_needed unfolding search_ends_def by blast
qed

section \<open>The search stays within its rooms\<close>

text \<open>
  The gated writes a search can still scan: those its bounds do not cover, but for the goal's own at or
  above its epoch, since a search that reaches those ends.
\<close>

definition scannable :: "'e::linorder gate \<Rightarrow> (key, 'e) table \<Rightarrow> (key \<times> 'e \<times> nat) \<times> 'e gate \<Rightarrow> bool" where
  "scannable goal bounds e \<longleftrightarrow>
     is_none_or (\<lambda>b. b < fst (snd (fst e))) (map_of bounds (fst (fst e))) \<and>
     \<not> (fst (fst e) = g_lineage goal \<and> g_epoch goal \<le> fst (snd (fst e)))"

definition to_scan :: "(key \<times> 'e \<times> nat, 'e gate) table \<Rightarrow> 'e::linorder gate \<Rightarrow> (key, 'e) table \<Rightarrow> nat" where
  "to_scan t goal bounds = length (filter (scannable goal bounds) t)"

lemma raise_to_scan:
  assumes up: "raise lim l ext bounds = Raised lo bounds'" and ng: "\<not> (l = g_lineage goal \<and> g_epoch goal \<le> ext)"
  shows "to_scan t goal bounds = to_scan t goal bounds' + length (gates_in t l lo (Included ext))"
proof -
  let ?in = "\<lambda>e. \<not> (fst (fst e) < l \<or> fst (fst e) = l \<and> starts_after lo (fst (snd (fst e)))) \<and>
                 (fst (fst e) < l \<or> fst (fst e) = l \<and> ends_at_or_after (Included ext) (fst (snd (fst e))))"
  have in_iff: "?in e \<longleftrightarrow> fst (fst e) = l \<and> bound_contains lo (Included ext) (fst (snd (fst e)))" for e
    by (auto simp: bound_contains_def)
  have "(scannable goal bounds e \<longleftrightarrow> scannable goal bounds' e \<or> ?in e) \<and> \<not> (scannable goal bounds' e \<and> ?in e)" for e
    unfolding in_iff raise_Raised(3) [OF up] using raise_Raised(1) [OF up] ng raise_Raised(2) [OF up]
    by (auto simp: scannable_def is_none_or_def bounds_le_def split: option.splits if_splits)
  then have "length (filter (scannable goal bounds) t) =
      length (filter (scannable goal bounds') t) + length (filter ?in t)"
    by (intro filter_length_either) blast+
  then show ?thesis by (simp add: to_scan_def gates_in_def table_of_def tbetween_def)
qed

lemma seed_all_fits: "length work + length gs \<le> room \<Longrightarrow> seed_all room work gs = (True, work @ gs)"
  by (induction gs arbitrary: work) (auto simp: within_def)

definition bounds_live :: "'e durability \<Rightarrow> (key, 'e) table \<Rightarrow> bool" where
  "bounds_live d bounds \<longleftrightarrow> distinct (keys bounds) \<and> set (keys bounds) \<subseteq> set (keys (lineages d))"

lemma extent_live: "extent d extra g = Some ext \<Longrightarrow> g_lineage g \<in> set (keys (lineages d))"
  by (auto simp: extent_def live_def opt_filter_def map_of_keys split: option.splits if_splits
      dest!: map_of_SomeD intro: rev_image_eqI)

lemma raise_quiet:
  assumes "bounds_live d bounds" and "l \<in> set (keys (lineages d))" and "length (lineages d) \<le> lim"
  shows "raise lim l ext bounds \<noteq> PastLineages"
    and "raise lim l ext bounds = Raised lo bounds' \<Longrightarrow> bounds_live d bounds'"
proof -
  have fits: "length bounds < lim" if "map_of bounds l = None"
  proof -
    have "length bounds = card (set (keys bounds))"
      using assms(1) by (metis bounds_live_def distinct_card length_map)
    also have "\<dots> < card (set (keys (lineages d)))"
    proof (rule psubset_card_mono)
      have "l \<notin> set (keys bounds)" using that by (simp add: map_of_eq_None_iff)
      then show "set (keys bounds) \<subset> set (keys (lineages d))"
        using assms(1,2) unfolding bounds_live_def by blast
    qed simp
    also have "\<dots> \<le> length (lineages d)" using card_length [of "keys (lineages d)"] by simp
    finally show ?thesis using assms(3) by simp
  qed
  show "raise lim l ext bounds \<noteq> PastLineages"
    using fits by (auto simp: raise_def within_def split: option.splits)
  show "bounds_live d bounds'" if "raise lim l ext bounds = Raised lo bounds'"
  proof (cases "map_of bounds l")
    case None
    then have "bounds' = bounds @ [(l, ext)]"
      using that by (auto simp: raise_def within_def split: if_splits)
    moreover have "l \<notin> set (keys bounds)" using None by (simp add: map_of_eq_None_iff)
    ultimately show ?thesis using assms(1,2) by (auto simp: bounds_live_def)
  next
    case (Some b)
    then have "keys bounds' = keys bounds" using that by (auto simp: raise_def split: if_splits)
    then show ?thesis using assms(1) by (simp only: bounds_live_def)
  qed
qed

lemma needs_loop_quiet:
  "length (lineages d) \<le> c_lineages (cap d) \<Longrightarrow> bounds_live d bounds \<Longrightarrow>
   length (butlast work) + to_scan (gated d) goal bounds \<le> ops_room d \<Longrightarrow>
   fst (needs_loop d goal extra work bounds) = []"
proof (induction d goal extra work bounds rule: needs_loop.induct)
  case (1 d goal extra work bounds)
  show ?case
  proof (cases "work = []")
    case ne: False
    let ?g = "last work" and ?rest = "butlast work"
    have shrink: "length (butlast ?rest) \<le> length ?rest" by simp
    note unfold = needs_loop.simps [of d goal extra work]
    show ?thesis
    proof (cases "extent d extra ?g")
      case None
      then show ?thesis using 1(1) [OF ne refl refl None] 1(4-6) ne shrink by (simp add: unfold)
    next
      case (Some ext)
      show ?thesis
      proof (cases "g_lineage ?g = g_lineage goal \<and> g_epoch goal \<le> ext")
        case False
        note quiet = raise_quiet [OF 1(5) extent_live [OF Some] 1(4), of ext]
        show ?thesis
        proof (cases "raise (c_lineages (cap d)) (g_lineage ?g) ext bounds")
          case Covers
          have "fst (needs_loop d goal extra ?rest bounds) = []"
            by (rule 1(2) [OF ne refl refl Some False Covers 1(4,5)]) (use 1(6) shrink in linarith)
          then show ?thesis using ne Some False Covers by (auto simp: unfold)
        next
          case PastLineages
          then show ?thesis using quiet(1) by simp
        next
          case (Raised lo bounds')
          let ?gs = "gates_in (gated d) (g_lineage ?g) lo (Included ext)"
          have scan: "to_scan (gated d) goal bounds = to_scan (gated d) goal bounds' + length ?gs"
            by (rule raise_to_scan [OF Raised False])
          have seed: "seed_all (ops_room d) ?rest ?gs = (True, ?rest @ ?gs)"
            by (rule seed_all_fits) (use 1(6) scan in linarith)
          have "length (butlast (?rest @ ?gs)) \<le> length ?rest + length ?gs" by simp
          then have "length (butlast (?rest @ ?gs)) + to_scan (gated d) goal bounds' \<le> ops_room d"
            using 1(6) scan by linarith
          then have "fst (needs_loop d goal extra (?rest @ ?gs) bounds') = []"
            by (rule 1(3) [OF ne refl refl Some False Raised seed [symmetric] refl 1(4) quiet(2) [OF Raised]])
          then show ?thesis using ne Some False Raised seed by (auto simp: unfold Let_def)
        qed
      qed (use ne Some in \<open>simp add: unfold\<close>)
    qed
  qed (simp add: needs_loop.simps)
qed

lemma needs_decides:
  assumes "length (lineages d) \<le> c_lineages (cap d)"
    and "length (butlast work) + to_scan (gated d) goal [] \<le> ops_room d"
  shows "needs d goal extra work = ([], \<exists>g \<in> set work. needs_goal d extra goal g)"
proof -
  obtain said b where run: "needs d goal extra work = (said, b)" by fastforce
  have "said = []" using needs_loop_quiet [of d "[]" work goal extra] assms run
    by (simp add: needs_def bounds_live_def)
  then show ?thesis using run needs_correct [of d goal extra work b] by simp
qed

lemma to_scan_le: "to_scan t goal bounds \<le> length t"
  by (simp add: to_scan_def)

section \<open>A push and a seal are refused exactly for a cycle\<close>

text \<open>What the search is made within: no more gated writes than operations, no more lineages than declared.\<close>

definition search_rooms :: "'e durability \<Rightarrow> bool" where
  "search_rooms d \<longleftrightarrow> length (gated d) \<le> ops_room d \<and> length (lineages d) \<le> c_lineages (cap d)"

text \<open>
  C4. A gated push is found to close a cycle exactly when its gate, followed through the gated writes each
  lineage must complete first, leads to the write's own lineage at or above the write's epoch. The search
  ends, whatever the gates, and within the rooms made for it reports no inconsistency.
\<close>

theorem write_cycle_correct:
  assumes "search_rooms d" and "0 < ops_room d"
  shows "write_cycle d wr g = ([], needs_goal d None wr g)"
proof -
  have "needs d wr None [g] = ([], \<exists>x \<in> set [g]. needs_goal d None wr x)"
    by (rule needs_decides)
      (use assms to_scan_le [of "gated d" wr "[]"] in \<open>simp_all add: search_rooms_def\<close>)
  then show ?thesis using assms(2) by (simp add: write_cycle_def within_def)
qed

lemma on_goal_lower:
  "on_goal d extra \<lparr>g_lineage = l, g_epoch = e\<rparr> h \<Longrightarrow> e' \<le> e \<Longrightarrow> on_goal d extra \<lparr>g_lineage = l, g_epoch = e'\<rparr> h"
  by (auto simp: on_goal_def)

lemma needs_any_correct:
  assumes "search_rooms d" and "0 < ops_room d"
  shows "needs_any d extra ws = ([], \<exists>(wr, g) \<in> set ws. needs_goal d extra wr g)"
proof (induction ws)
  case (Cons p ws)
  obtain wr g where p: "p = (wr, g)" by fastforce
  have "needs d wr extra [g] = ([], \<exists>x \<in> set [g]. needs_goal d extra wr x)"
    by (rule needs_decides)
      (use assms to_scan_le [of "gated d" wr "[]"] in \<open>simp_all add: search_rooms_def\<close>)
  then show ?case using Cons assms(2) by (simp add: p within_def split: bool.split)
qed simp

lemma length_filter_disjoint:
  "\<forall>x \<in> set xs. \<not> (p x \<and> q x) \<Longrightarrow> length (filter p xs) + length (filter q xs) \<le> length xs"
  by (induction xs) (auto intro: le_SucI)

lemma covered_set:
  "set (table_of fst t l Unbounded (Included through)) = {x \<in> set t. fst (fst x) = l \<and> fst (snd (fst x)) \<le> through}"
  by (auto simp: table_of_def tbetween_def)

lemma covered_first:
  assumes "tsorted t" and "table_of fst t l Unbounded (Included through) = ((l', low, q), g) # es"
    and "x \<in> set (table_of fst t l Unbounded (Included through))"
  shows "l' = l" and "low \<le> fst (snd (fst x))"
proof -
  obtain lx ex qx gx where x: "x = ((lx, ex, qx), gx)" by (metis prod_cases3 surj_pair)
  have "((l', low, q), g) \<in> set (table_of fst t l Unbounded (Included through))" by (simp add: assms(2))
  then show "l' = l" by (simp add: covered_set)
  have "sorted_wrt (\<lambda>a b. fst a < fst b) t" using assms(1) by (simp add: tsorted_def sorted_wrt_map)
  then have "sorted_wrt (\<lambda>a b. fst a < fst b) (((l', low, q), g) # es)"
    unfolding assms(2) [symmetric] table_of_def tbetween_def by (rule sorted_wrt_filter)
  moreover have "lx = l" using assms(3) x by (simp add: covered_set)
  ultimately show "low \<le> fst (snd (fst x))"
    using assms(3) \<open>l' = l\<close> unfolding assms(2) x by (auto simp: less_prod_def)
qed

text \<open>
  C5. Sealing a lineage through an epoch is refused exactly when one of the gated writes the seal would
  cover is put on a cycle by it: the gate of that write leads back to the lineage at or above the write's
  own epoch, the seal taken as made. The first search, from all of them at once, decides nothing the
  searches from each would not.
\<close>

theorem seal_cycle_correct:
  assumes "search_rooms d" and "tsorted (gated d)"
  shows "seal_cycle d l through =
    ([], \<exists>e q g. ((l, e, q), g) \<in> set (gated d) \<and> e \<le> through \<and>
           needs_goal d (Some \<lparr>g_lineage = l, g_epoch = through\<rparr>) \<lparr>g_lineage = l, g_epoch = e\<rparr> g)"
    (is "_ = ([], ?closes)")
proof (cases "live d l")
  case None
  then have "\<not> on_goal d extra \<lparr>g_lineage = l, g_epoch = e\<rparr> h" for extra e h
    by (auto simp: on_goal_def extent_def)
  then show ?thesis using None by (auto simp: seal_cycle_def needs_goal_def)
next
  case (Some st)
  let ?extra = "Some \<lparr>g_lineage = l, g_epoch = through\<rparr>"
  let ?cov = "table_of fst (gated d) l Unbounded (Included through)"
  let ?pairs = "map (\<lambda>((_, e, _), g). (\<lparr>g_lineage = l, g_epoch = e\<rparr>, g)) ?cov"
  have closes: "?closes \<longleftrightarrow> (\<exists>(wr, g) \<in> set ?pairs. needs_goal d ?extra wr g)"
    by (fastforce simp: covered_set)
  show ?thesis
  proof (cases ?cov)
    case Nil
    then have "\<not> ?closes" unfolding closes by simp
    then show ?thesis using Some Nil by (simp add: seal_cycle_def sealing_needs_def first_of_def)
  next
    case (Cons x es)
    obtain l' low q g where x: "x = ((l', low, q), g)" by (metis prod_cases3 surj_pair)
    note first = covered_first [OF assms(2) Cons [unfolded x]]
    let ?goal = "\<lparr>g_lineage = l, g_epoch = low\<rparr>"
    have "length ?cov + to_scan (gated d) ?goal [] \<le> length (gated d)"
      unfolding table_of_def tbetween_def to_scan_def
    proof (rule length_filter_disjoint, intro ballI notI)
      fix e assume "e \<in> set (gated d)" and *: "(\<not> (fst (fst e) < l \<or> fst (fst e) = l \<and> starts_after Unbounded (fst (snd (fst e)))) \<and>
        (fst (fst e) < l \<or> fst (fst e) = l \<and> ends_at_or_after (Included through) (fst (snd (fst e))))) \<and> scannable ?goal [] e"
      then have "e \<in> set ?cov" by (auto simp: covered_set)
      from first(2) [OF this] * show False by (auto simp: scannable_def)
    qed
    then have rooms: "length ?cov + to_scan (gated d) ?goal [] \<le> ops_room d"
      using assms(1) by (simp add: search_rooms_def)
    then have seed: "seed_all (ops_room d) [] (vals ?cov) = (True, vals ?cov)"
      using seed_all_fits [of "[]" "vals ?cov" "ops_room d"] by simp
    have all: "needs d ?goal ?extra (vals ?cov) = ([], \<exists>g \<in> set (vals ?cov). needs_goal d ?extra ?goal g)"
      by (rule needs_decides) (use rooms assms(1) in \<open>simp_all add: search_rooms_def\<close>)
    have each: "needs_any d ?extra ?pairs = ([], ?closes)"
      unfolding closes by (rule needs_any_correct [OF assms(1)]) (use rooms Cons in simp)
    have quick: "\<exists>g \<in> set (vals ?cov). needs_goal d ?extra ?goal g" if cl: "?closes"
    proof -
      obtain e q' g' where *: "((l, e, q'), g') \<in> set ?cov" "needs_goal d ?extra \<lparr>g_lineage = l, g_epoch = e\<rparr> g'"
        using cl unfolding covered_set by force
      have "low \<le> e" using first(2) [OF *(1)] by simp
      then have "needs_goal d ?extra ?goal g'"
        using *(2) on_goal_lower [of d ?extra l e _ low] unfolding needs_goal_def by blast
      moreover have "g' \<in> set (vals ?cov)" using *(1) by (metis imageI list.set_map snd_conv)
      ultimately show ?thesis by blast
    qed
    have "sealing_needs d l through = ([], ?closes)"
      unfolding sealing_needs_def Let_def using Cons x seed all each quick
      by (auto simp: first_of_def split: bool.split)
    then show ?thesis using Some by (simp add: seal_cycle_def)
  qed
qed

text \<open>Two lineages, each with a write held for the other's next epoch but one.\<close>

definition sample_gates :: "nat durability" where
  "sample_gates =
     sample_start\<lparr>lineages := [(0, lineage_state_new None), (1, lineage_state_new None)],
       gated := [((0, 2, 5), \<lparr>g_lineage = 1, g_epoch = 3\<rparr>), ((1, 4, 6), \<lparr>g_lineage = 0, g_epoch = 9\<rparr>)]\<rparr>"

lemma sample_gates_runs:
  "(search_rooms sample_gates \<and> 0 < ops_room sample_gates \<and> tsorted (gated sample_gates)) \<and>
   write_cycle sample_gates \<lparr>g_lineage = 1, g_epoch = 3\<rparr> \<lparr>g_lineage = 0, g_epoch = 2\<rparr> = ([], True) \<and>
   seal_cycle sample_gates 1 5 = ([], True)"
  unfolding search_rooms_def tsorted_def by code_simp

theorem write_cycle_correct_witness:
  "search_rooms sample_gates \<and> 0 < ops_room sample_gates \<and>
   write_cycle sample_gates \<lparr>g_lineage = 1, g_epoch = 3\<rparr> \<lparr>g_lineage = 0, g_epoch = 2\<rparr> = ([], True) \<and>
   needs_goal sample_gates None \<lparr>g_lineage = 1, g_epoch = 3\<rparr> \<lparr>g_lineage = 0, g_epoch = 2\<rparr>"
  using sample_gates_runs
    write_cycle_correct [of sample_gates "\<lparr>g_lineage = 1, g_epoch = 3\<rparr>" "\<lparr>g_lineage = 0, g_epoch = 2\<rparr>"] by simp

theorem seal_cycle_correct_witness:
  "search_rooms sample_gates \<and> tsorted (gated sample_gates) \<and> seal_cycle sample_gates 1 5 = ([], True) \<and>
   (\<exists>e q g. ((1, e, q), g) \<in> set (gated sample_gates) \<and> e \<le> 5 \<and>
      needs_goal sample_gates (Some \<lparr>g_lineage = 1, g_epoch = 5\<rparr>) \<lparr>g_lineage = 1, g_epoch = e\<rparr> g)"
  using sample_gates_runs seal_cycle_correct [of sample_gates 1 5] by auto

end
