(* ===== verification/Durability_Parts.thy ===== *)
theory Durability_Parts
  imports Durability_Reads
begin

text \<open>
  What the durability core's changes are made of, crates/durable-ioring/src/durability/window.rs,
  kept.rs, spans.rs, lists.rs, abandoned.rs, gates.rs, observer.rs and the private operations of
  durability.rs: holds on the window's places taken and let go, writes let go of, markings, failures
  observed, abandoned epochs kept and forgotten, held operations released and stopped. A loop over a
  table that notes the first inconsistency it meets and reports it once it is done carries that first
  one along (\<open>first_error\<close>).
\<close>

section \<open>The window's places\<close>

definition first_error :: "string option \<Rightarrow> string option \<Rightarrow> string option" where
  "first_error lost e = (case lost of None \<Rightarrow> e | Some _ \<Rightarrow> lost)"

definition window_result :: "string option \<times> window \<Rightarrow> 'e durability \<Rightarrow> 'e durability" where
  "window_result r d = maybe_inconsistent (fst r) (d\<lparr>dwindow := snd r\<rparr>)"

definition admit :: "op_id \<Rightarrow> 'e durability \<Rightarrow> 'e durability" where
  "admit op d = window_result (window_hold (ops_room d) (oi_seq op) ByOperation (dwindow d)) d"

definition popped :: "op_id \<Rightarrow> 'e durability \<Rightarrow> 'e durability" where
  "popped op d = window_result (window_release (oi_seq op) ByOperation (dwindow d)) d"

definition hold_uncovered :: "op_id \<Rightarrow> 'e durability \<Rightarrow> 'e durability" where
  "hold_uncovered op d = window_result (window_hold (ops_room d) (oi_seq op) ByUncovered (dwindow d)) d"

definition hold_for_seal :: "nat \<Rightarrow> 'e durability \<Rightarrow> 'e durability" where
  "hold_for_seal op d = window_result (window_hold (ops_room d) op BySeal (dwindow d)) d"

fun hold_each :: "nat \<Rightarrow> holder \<Rightarrow> nat list \<Rightarrow> string option \<times> window \<Rightarrow> string option \<times> window" where
  "hold_each lim h [] r = r"
| "hold_each lim h (op # ops) (lost, w) =
     (case window_hold lim op h w of (e, w') \<Rightarrow> hold_each lim h ops (first_error lost e, w'))"

fun release_each :: "holder \<Rightarrow> nat list \<Rightarrow> string option \<times> window \<Rightarrow> string option \<times> window" where
  "release_each h [] r = r"
| "release_each h (op # ops) (lost, w) =
     (case window_release op h w of (e, w') \<Rightarrow> release_each h ops (first_error lost e, w'))"

definition hold_suspects :: "nat \<Rightarrow> 'e durability \<Rightarrow> 'e durability" where
  "hold_suspects at d =
     window_result
       (hold_each (ops_room d) BySuspect (map (\<lambda>s. oi_seq (su_op s)) (suspects d (failures d ! at))) (None, dwindow d))
       d"

text \<open>A resolved failure lets go of a kept write's place, and of the write once nothing suspects it.\<close>

fun release_gone ::
  "(nat \<times> 'e gone_write \<Rightarrow> bool) \<Rightarrow> (nat, 'e gone_write) table \<Rightarrow> string option \<times> window \<Rightarrow>
   string option \<times> window \<times> (nat, 'e gone_write) table" where
  "release_gone names [] (lost, w) = (lost, w, [])"
| "release_gone names (e # es) (lost, w) =
     (if names e
      then
        (case window_release (oi_seq (k_op (snd e))) BySuspect w of
           (err, w') \<Rightarrow>
             (case release_gone names es (first_error lost err, w') of
                (lost', w'', es') \<Rightarrow>
                  (lost', w'', if window_suspected (oi_seq (k_op (snd e))) w' then e # es' else es')))
      else (case release_gone names es (lost, w) of (lost', w', es') \<Rightarrow> (lost', w', e # es')))"

definition release_suspects :: "failure \<Rightarrow> 'e durability \<Rightarrow> 'e durability" where
  "release_suspects f d =
     (case release_gone (\<lambda>e. names_gone f (dlists d) (snd e)) (kept d)
             (release_each BySuspect
               (map (\<lambda>w. oi_seq (w_op w)) (filter (names_uncovered f (dlists d)) (vals (writes d))))
               (None, dwindow d)) of
        (lost, w, ks) \<Rightarrow> maybe_inconsistent lost (d\<lparr>dwindow := w, kept := ks\<rparr>))"

section \<open>Letting writes go\<close>

definition leave ::
  "key \<times> nat \<times> span \<Rightarrow> (key \<times> nat \<times> span, span_file) table \<Rightarrow> bool \<times> (key \<times> nat \<times> span, span_file) table" where
  "leave k t =
     (case map_of t k of
        None \<Rightarrow> (False, t)
      | Some e \<Rightarrow>
          (True, if sp_writes e - 1 = 0 then tdel k t else tmod k (\<lambda>e. e\<lparr>sp_writes := sp_writes e - 1\<rparr>) t))"

definition keep ::
  "nat \<Rightarrow> 'e gone_write \<Rightarrow> (nat, 'e gone_write) table \<Rightarrow> string option \<times> (nat, 'e gone_write) table" where
  "keep lim g ks =
     (if map_of ks (oi_seq (k_op g)) \<noteq> None then (Some ''a write was kept twice'', ks)
      else case tinsert lim (oi_seq (k_op g)) g ks of
             None \<Rightarrow> (Some ''more writes were kept than there are places'', ks)
           | Some ks' \<Rightarrow> (None, ks'))"

definition gone_of :: "nat \<Rightarrow> 'e write_rec \<Rightarrow> 'e gone_write" where
  "gone_of now w =
     \<lparr>k_op = w_op w, k_lineage = w_lineage w, k_epoch = w_epoch w, k_file = w_file w,
      k_domains = w_domains w, k_born = w_born w,
      k_until = (case w_until w of None \<Rightarrow> now | Some u \<Rightarrow> u)\<rparr>"

text \<open>A write is no longer uncovered: out of its span's entry, its hold released, and kept if suspected.\<close>

definition forget :: "'e write_rec \<Rightarrow> 'e durability \<Rightarrow> string option \<times> 'e durability" where
  "forget w d =
     (let (found, sp) = leave (w_lineage w, w_file w, span_of (w_stage w)) (spans d);
          (e, win) = window_release (oi_seq (w_op w)) ByUncovered (dwindow d);
          (e', ks) = (if window_suspected (oi_seq (w_op w)) win
                      then keep (ops_room d) (gone_of (next_failure d) w) (kept d) else (None, kept d))
      in (first_error (first_error (if found then None else Some ''an uncovered write was in no span'') e) e',
          d\<lparr>spans := sp, dwindow := win, kept := ks\<rparr>))"

fun forget_each :: "'e write_rec list \<Rightarrow> string option \<times> 'e durability \<Rightarrow> string option \<times> 'e durability" where
  "forget_each [] r = r"
| "forget_each (w # ws) (lost, d) = (case forget w d of (e, d') \<Rightarrow> forget_each ws (first_error lost e, d'))"

definition let_go :: "('e write_rec \<Rightarrow> bool) \<Rightarrow> 'e durability \<Rightarrow> 'e durability" where
  "let_go leaves d =
     (case forget_each (filter leaves (vals (writes d)))
             (None, d\<lparr>writes := filter (\<lambda>e. \<not> leaves (snd e)) (writes d)\<rparr>) of
        (lost, d') \<Rightarrow> maybe_inconsistent lost d')"

text \<open>A write whose lineage has ended stays while in flight, or while a flush of its file is out.\<close>

definition stays :: "key \<Rightarrow> 'e write_rec \<Rightarrow> 'e durability \<Rightarrow> bool" where
  "stays l w d =
     (w_lineage w \<noteq> l \<or> w_stage w = InFlight \<or>
      (case w_stage w of
         Named sq \<Rightarrow> is_some_and (\<lambda>e. sp_flushed e \<and> \<not> sp_answered e) (map_of (spans d) (l, w_file w, InSeal sq))
       | _ \<Rightarrow> False))"

fun ended_each ::
  "key \<Rightarrow> (nat, 'e write_rec) table \<Rightarrow> string option \<times> 'e durability \<Rightarrow> string option \<times> 'e durability" where
  "ended_each l [] r = r"
| "ended_each l (e # es) (lost, d) =
     (if stays l (snd e) d then ended_each l es (lost, d)
      else case forget (snd e) (d\<lparr>writes := tdel (fst e) (writes d)\<rparr>) of
             (err, d') \<Rightarrow> ended_each l es (first_error lost err, d'))"

definition let_go_ended :: "key \<Rightarrow> 'e durability \<Rightarrow> 'e durability" where
  "let_go_ended l d = (case ended_each l (writes d) (None, d) of (lost, d') \<Rightarrow> maybe_inconsistent lost d')"

definition let_go_one :: "nat \<Rightarrow> 'e durability \<Rightarrow> 'e durability" where
  "let_go_one sq d =
     (case map_of (writes d) sq of
        None \<Rightarrow> d
      | Some w \<Rightarrow>
          (case forget w (d\<lparr>writes := tdel sq (writes d)\<rparr>) of (lost, d') \<Rightarrow> maybe_inconsistent lost d'))"

section \<open>Failures observed, and markings\<close>

definition release_reach :: "reach \<Rightarrow> 'e durability \<Rightarrow> 'e durability" where
  "release_reach r d =
     (case r of ReachNamed l \<Rightarrow> d\<lparr>dlists := lists_release (dlists d) l\<rparr> | _ \<Rightarrow> d)"

definition tell_failed :: "nat \<Rightarrow> 'e durability \<Rightarrow> 'e durability" where
  "tell_failed at d =
     (if observer d
      then
        (let f = failures d ! at
         in fold (\<lambda>s. tell (ToldSuspected (f_id f) s)) (visit_suspects d f)
              (tell (ToldFailed (f_id f) (f_cause f) (f_observed f)) d))
      else d)"

definition observed_by :: "'e durability \<Rightarrow> bool \<times> 'e durability" where
  "observed_by d = (if observer d then (False, d) else (True, d\<lparr>observer := True\<rparr>))"

text \<open>Take a free token slot and mint the failure's first token in it.\<close>

definition mint_first :: "failure_id \<Rightarrow> 'e durability \<Rightarrow> (nat \<times> failure_token) option \<times> 'e durability" where
  "mint_first i d =
     (if free_tokens d = [] then (None, d)
      else
        (let slot = last (free_tokens d); d' = d\<lparr>free_tokens := butlast (free_tokens d)\<rparr>
         in case token_mint i slot True (tokens d') of
              (None, _) \<Rightarrow> (None, d')
            | (Some tok, ts) \<Rightarrow> (Some (slot, tok), d'\<lparr>tokens := ts\<rparr>)))"

definition record_failure ::
  "failure_cause \<Rightarrow> reach \<Rightarrow> key option \<Rightarrow> failure_id \<Rightarrow> nat \<Rightarrow> failure_token \<Rightarrow>
   'e due \<times> 'e durability \<Rightarrow> 'e due \<times> 'e durability" where
  "record_failure cause r only i slot tok s =
     (let (now, d) = clock_now (snd s);
          f = \<lparr>f_id = i, f_cause = cause, f_reach = r, f_only = only, f_observed = now,
               f_standing = Unresolved, f_token = slot\<rparr>
      in case within (rm_failures (rms d)) (failures d) f of
           None \<Rightarrow>
             (fst s,
              (let d1 = inconsistent ''more failures were unresolved than the flush parts and the imports allow''
                     (release_reach r (d\<lparr>free_tokens := free_tokens d @ [slot]\<rparr>))
               in d1\<lparr>tokens := token_drop tok (tokens d1)\<rparr>))
         | Some fs \<Rightarrow>
             (let at = length fs - 1
              in emit (EvFailed \<lparr>fd_id = i, fd_token = tok, fd_cause = cause, fd_observed = now\<rparr>)
                   (fst s, tell_failed at (hold_suspects at (d\<lparr>failures := fs\<rparr>)))))"

definition observe ::
  "failure_cause \<Rightarrow> reach \<Rightarrow> key option \<Rightarrow> 'e due \<times> 'e durability \<Rightarrow> failure_id \<times> 'e due \<times> 'e durability" where
  "observe cause r only s =
     (let d = snd s; i = \<lparr>fi_instance = inst_id d, fi_seq = next_failure d\<rparr>
      in case mint_first i (d\<lparr>next_failure := next_failure d + 1\<rparr>) of
           (minted, d1) \<Rightarrow>
             (case minted of
                None \<Rightarrow>
                  (i, fst s, inconsistent ''no token slot was free for a failure within the bound'' d1)
              | Some (slot, tok) \<Rightarrow> (i, record_failure cause r only i slot tok (fst s, d1))))"

text \<open>The marking a write gains as it stops being uncovered, told for each failure suspecting it.\<close>

definition mark :: "op_id \<Rightarrow> marking_kind \<Rightarrow> 'e durability \<Rightarrow> 'e durability" where
  "mark op kind d =
     (let suspecting = filter (\<lambda>f. f_standing f \<noteq> Resolved \<and> suspects_op d f op) (failures d)
      in if suspecting = [] then d
         else
           (let d1 = (if map_of (kept d) (oi_seq op) = None
                      then inconsistent ''a suspected write was marked that was not kept'' d else d)
            in if observer d
               then
                 (let (now, d2) = clock_now d1
                  in fold (\<lambda>f. tell (ToldMarked (f_id f) \<lparr>mk_write = op, mk_observed = now, mk_kind = kind\<rparr>)) suspecting d2)
               else d1))"

section \<open>Heals and abandoned epochs\<close>

definition release_heals :: "key \<Rightarrow> nat \<Rightarrow> 'e::linorder \<Rightarrow> 'e durability \<Rightarrow> 'e durability" where
  "release_heals l made through d =
     (let latest = list_max (filter (releases d l made through)
            (List.map_filter (\<lambda>f. case f_standing f of Healing at \<Rightarrow> Some at | _ \<Rightarrow> None) (failures d)))
      in d\<lparr>lineages := tmod l (\<lambda>st. st\<lparr>l_released := max (l_released st) latest\<rparr>) (lineages d)\<rparr>)"

definition healed_now :: "'e durability \<Rightarrow> failure \<Rightarrow> bool" where
  "healed_now d f =
     ((case f_standing f of Healing _ \<Rightarrow> True | _ \<Rightarrow> False) \<and>
      \<not> list_ex (\<lambda>s. pending_on d f (su_lineage s)) (suspects d f))"

definition release_healed_at :: "nat \<Rightarrow> 'e due \<times> 'e durability \<Rightarrow> 'e due \<times> 'e durability" where
  "release_healed_at at s =
     (let f = failures (snd s) ! at
      in if healed_now (snd s) f
         then (case emit (EvHealed (f_id f)) s of
                 (due, d) \<Rightarrow> (due, d\<lparr>failures := (failures d)[at := (failures d ! at)\<lparr>f_standing := Resolved\<rparr>]\<rparr>))
         else s)"

definition release_healed :: "'e due \<times> 'e durability \<Rightarrow> 'e due \<times> 'e durability" where
  "release_healed s = fold release_healed_at [0..<length (failures (snd s))] s"

text \<open>Whether an epoch of a live lineage is above its mark.\<close>

definition above_mark :: "'e::linorder durability \<Rightarrow> key \<Rightarrow> 'e \<Rightarrow> bool" where
  "above_mark d l e = is_some_and (\<lambda>st. is_none_or (\<lambda>m. m < e) (l_durable_through st)) (live d l)"

fun abandon_each ::
  "'e::linorder suspect list \<Rightarrow> string option \<times> 'e durability \<Rightarrow> string option \<times> 'e durability" where
  "abandon_each [] r = r"
| "abandon_each (s # ss) (lost, d) =
     (if \<not> above_mark d (su_lineage s) (su_epoch s) \<or> map_of (abandoned d) (su_lineage s, su_epoch s) \<noteq> None
      then abandon_each ss (lost, d)
      else
        (case window_hold (ops_room d) (oi_seq (su_op s)) ByAbandoned (dwindow d) of
           (Some e, w) \<Rightarrow> abandon_each ss (first_error lost (Some e), d\<lparr>dwindow := w\<rparr>)
         | (None, w) \<Rightarrow>
             (case tinsert (ops_room d) (su_lineage s, su_epoch s) (oi_seq (su_op s)) (abandoned d) of
                None \<Rightarrow> abandon_each ss
                          (first_error lost (Some ''more epochs were abandoned than there are places''), d\<lparr>dwindow := w\<rparr>)
              | Some ab \<Rightarrow> abandon_each ss (lost, d\<lparr>dwindow := w, abandoned := ab\<rparr>))))"

definition abandon_epochs :: "failure \<Rightarrow> 'e::linorder durability \<Rightarrow> 'e durability" where
  "abandon_epochs f d =
     (case abandon_each (suspects d f) (None, d) of (lost, d') \<Rightarrow> maybe_inconsistent lost d')"

definition forget_abandoned :: "key \<Rightarrow> 'e::linorder option \<Rightarrow> 'e durability \<Rightarrow> 'e durability" where
  "forget_abandoned l through d =
     (let goes = (\<lambda>e. fst (fst e) = l \<and> is_none_or (\<lambda>t. snd (fst e) \<le> t) through)
      in window_result (release_each ByAbandoned (vals (filter goes (abandoned d))) (None, dwindow d))
           (d\<lparr>abandoned := filter (\<lambda>e. \<not> goes e) (abandoned d)\<rparr>))"

section \<open>Held operations\<close>

fun release_held ::
  "key \<Rightarrow> 'e::linorder \<Rightarrow> nat \<Rightarrow> (nat, 'e held_op) table \<Rightarrow> bool \<times> op_id list \<times> 'e durability \<Rightarrow>
   bool \<times> op_id list \<times> 'e durability" where
  "release_held l through room [] r = r"
| "release_held l through room (e # es) (unlisted, released, d) =
     (let h = snd e
      in if ho_ready h \<or> g_lineage (ho_gate h) \<noteq> l \<or> through < g_epoch (ho_gate h)
         then release_held l through room es (unlisted, released, d)
         else
           (let d1 = d\<lparr>held := tmod (fst e) (\<lambda>h. h\<lparr>ho_ready := True\<rparr>) (held d)\<rparr>;
                d2 = (case ho_write h of
                        None \<Rightarrow> d1
                      | Some w \<Rightarrow> d1\<lparr>gated := tdel (a_lineage w, a_epoch w, oi_seq (ho_op h)) (gated d1)\<rparr>)
            in case within room released (ho_op h) of
                 None \<Rightarrow> release_held l through room es (True, released, d2)
               | Some rs \<Rightarrow> release_held l through room es (unlisted, rs, d2)))"

definition release_through :: "key \<Rightarrow> 'e::linorder \<Rightarrow> 'e due \<times> 'e durability \<Rightarrow> 'e due \<times> 'e durability" where
  "release_through l through s =
     (case release_held l through (ops_room (snd s)) (held (snd s)) (False, du_released (fst s), snd s) of
        (unlisted, rs, d) \<Rightarrow>
          ((fst s)\<lparr>du_released := rs\<rparr>,
           if unlisted then inconsistent ''a change released more operations than the operations declared'' d else d))"

text \<open>End as never issued every held operation \<open>stopped\<close> names an abandoned epoch for.\<close>

fun stop_each ::
  "(nat \<times> 'e::linorder held_op \<times> 'e gate) list \<Rightarrow> bool \<times> 'e due \<times> 'e durability \<Rightarrow> bool \<times> 'e due \<times> 'e durability" where
  "stop_each [] r = r"
| "stop_each ((sq, h, ab) # es) (past, due, d) =
     (let d' = (case ho_write h of
                  None \<Rightarrow> d
                | Some w \<Rightarrow>
                    d\<lparr>gated := tdel (a_lineage w, a_epoch w, sq) (gated d),
                      held_by_epoch := snd (count_down (a_lineage w) (a_epoch w) (held_by_epoch d))\<rparr>)
      in case within (rm_events (rms d)) (du_events due) (EvNeverIssued (ho_op h) ab) of
           None \<Rightarrow> stop_each es (True, due, d')
         | Some evs \<Rightarrow> stop_each es (past, due\<lparr>du_events := evs\<rparr>, d'))"

definition stop_held ::
  "('e held_op \<Rightarrow> 'e gate option) \<Rightarrow> 'e::linorder due \<times> 'e durability \<Rightarrow> 'e due \<times> 'e durability" where
  "stop_held stopped s =
     (let d = snd s;
          taken = List.map_filter (\<lambda>e. map_option (\<lambda>g. (fst e, snd e, g)) (stopped (snd e))) (held d)
      in case stop_each taken (False, fst s, d\<lparr>held := filter (\<lambda>e. stopped (snd e) = None) (held d)\<rparr>) of
           (past, due, d') \<Rightarrow>
             (due, if past then inconsistent ''a change made more entries due than the declaration bounds'' d' else d'))"

definition hit :: "'e suspect list \<Rightarrow> 'e gate \<Rightarrow> bool" where
  "hit ss g = list_ex (\<lambda>s. su_lineage s = g_lineage g \<and> su_epoch s = g_epoch g) ss"

definition own_gate :: "'e accepted \<Rightarrow> 'e gate" where
  "own_gate w = \<lparr>g_lineage = a_lineage w, g_epoch = a_epoch w\<rparr>"

definition stopped_by_abandon :: "'e suspect list \<Rightarrow> 'e held_op \<Rightarrow> 'e gate option" where
  "stopped_by_abandon ss h =
     (if \<not> ho_ready h \<and> hit ss (ho_gate h) then Some (ho_gate h)
      else opt_filter (hit ss) (map_option own_gate (ho_write h)))"

definition abandon_held :: "failure \<Rightarrow> 'e::linorder due \<times> 'e durability \<Rightarrow> 'e due \<times> 'e durability" where
  "abandon_held f s = stop_held (stopped_by_abandon (suspects (snd s) f)) s"

definition stopped_by_end :: "key \<Rightarrow> 'e held_op \<Rightarrow> 'e gate option" where
  "stopped_by_end l h =
     (if is_some_and (\<lambda>w. a_lineage w = l) (ho_write h)
      then map_option own_gate (ho_write h)
      else if \<not> ho_ready h \<and> g_lineage (ho_gate h) = l then Some (ho_gate h) else None)"

definition end_held :: "key \<Rightarrow> 'e::linorder due \<times> 'e durability \<Rightarrow> 'e due \<times> 'e durability" where
  "end_held l s = stop_held (stopped_by_end l) s"

section \<open>Pairs\<close>

definition part_answered ::
  "key \<Rightarrow> nat \<Rightarrow> part \<Rightarrow> flush_outcome \<Rightarrow> 'e durability \<Rightarrow> 'e durability" where
  "part_answered l sq pt outcome d =
     (let d1 = (case map_of (flush_pairs d) (l, sq, pt) of
                  None \<Rightarrow> d
                | Some pair \<Rightarrow>
                    (let d0 = d\<lparr>flush_pairs := tdel (l, sq, pt) (flush_pairs d)\<rparr>
                     in case flush_part_of pt (served_names d0) of
                          None \<Rightarrow> d0
                        | Some shown \<Rightarrow> end_flush l pair shown outcome d0))
      in if outcome = FlushSucceeded then d1
         else
           (case map_of (seals d1) (l, sq) of
              None \<Rightarrow> d1
            | Some s \<Rightarrow>
                end_seal l (s_through s) (s_pair s) SealFailed
                  (d1\<lparr>seals := tmod (l, sq) (\<lambda>s. s\<lparr>s_pair := None\<rparr>) (seals d1)\<rparr>)))"

text \<open>Take every open seal pair of a lineage, in the order the seals were made.\<close>

definition empty_pairs :: "'e empty_seal option \<Rightarrow> ('e \<times> nat) list" where
  "empty_pairs e = (case e of None \<Rightarrow> [] | Some x \<Rightarrow> map (Pair (em_through x)) (opt_list (em_pair x)))"

definition take_pairs :: "key \<Rightarrow> 'e durability \<Rightarrow> ('e \<times> nat) list \<times> 'e durability" where
  "take_pairs l d =
     (let clear = map_option (\<lambda>x. x\<lparr>em_pair := None\<rparr>);
          leading = (case map_of (lineages d) l of None \<Rightarrow> [] | Some st \<Rightarrow> empty_pairs (l_leading st));
          recorded = concat (map (\<lambda>(k, s). map (Pair (s_through s)) (opt_list (s_pair s)) @ empty_pairs (s_trailing s))
                       (seals_of (seals d) l))
      in (leading @ recorded,
          d\<lparr>lineages := tmod l (\<lambda>st. st\<lparr>l_leading := clear (l_leading st)\<rparr>) (lineages d),
            seals := map (\<lambda>(k, s). if fst k = l then (k, s\<lparr>s_pair := None, s_trailing := clear (s_trailing s)\<rparr>) else (k, s))
                       (seals d)\<rparr>))"

definition end_lineage_pairs :: "key \<Rightarrow> 'e durability \<Rightarrow> 'e durability" where
  "end_lineage_pairs l d =
     (case take_pairs l d of
        (ps, d') \<Rightarrow> fold (\<lambda>p. end_seal l (fst p) (Some (snd p)) SealEndedUnanswered) ps d')"

definition end_pairs :: "key option \<Rightarrow> 'e durability \<Rightarrow> 'e durability" where
  "end_pairs only d =
     (let mine = (\<lambda>l. is_none_or (\<lambda>x. x = l) only);
          open_pairs = filter (\<lambda>e. mine (fst (fst e))) (flush_pairs d);
          taken = take (rm_flush_pairs (rms d)) open_pairs;
          d1 = d\<lparr>flush_pairs := filter (\<lambda>e. \<not> (mine (fst (fst e)) \<and> fst e \<in> set (keys taken))) (flush_pairs d)\<rparr>;
          d2 = (if rm_flush_pairs (rms d) < length open_pairs
                then inconsistent ''more flush pairs were open than the flush parts declared'' d1 else d1);
          d3 = fold (\<lambda>((l, sq, pt), pair) d.
                  case flush_part_of pt (served_names d) of
                    None \<Rightarrow> d
                  | Some shown \<Rightarrow> end_flush l pair shown FlushAbandoned d)
                (sort_key (\<lambda>((l, sq, pt), pair). (l, sq, fp_id pair)) taken) d2
      in fold end_lineage_pairs (filter mine (keys (lineages d3))) d3)"

section \<open>What each leaves as it is\<close>

text \<open>
  Each operation changes the fields its frame names and no other: the states it goes between agree
  once those fields are set alike.
\<close>

lemma durability_eq:
  "d = d' \<longleftrightarrow>
     inst_id d = inst_id d' \<and> lineages d = lineages d' \<and> next_lineage d = next_lineage d' \<and>
     writes d = writes d' \<and> seals d = seals d' \<and> in_flight_by_epoch d = in_flight_by_epoch d' \<and>
     held_by_epoch d = held_by_epoch d' \<and> gated d = gated d' \<and> spans d = spans d' \<and>
     seal_domains d = seal_domains d' \<and> dwindow d = dwindow d' \<and> failures d = failures d' \<and>
     kept d = kept d' \<and> abandoned d = abandoned d' \<and> tokens d = tokens d' \<and>
     free_tokens d = free_tokens d' \<and> dlists d = dlists d' \<and> next_failure d = next_failure d' \<and>
     next_push d = next_push d' \<and> seals_made d = seals_made d' \<and> held d = held d' \<and>
     served d = served d' \<and> clock d = clock d' \<and> readings d = readings d' \<and>
     diags d = diags d' \<and> observer d = observer d' \<and> told d = told d' \<and>
     flush_pairs d = flush_pairs d' \<and> served_names d = served_names d' \<and> cap d = cap d' \<and>
     served_count d = served_count d' \<and> rms d = rms d'"
  for d d' :: "'e durability"
  by (cases d; cases d') simp

lemma inconsistent_upd:
  "(inconsistent what d)\<lparr>diags := x1\<rparr> =
   d\<lparr>diags := x1\<rparr>"
  by (simp add: durability_eq inconsistent_def)

lemmas inconsistent_frame [simp] = inconsistent_upd [unfolded durability_eq, simplified]

lemma maybe_inconsistent_upd:
  "(maybe_inconsistent what d)\<lparr>diags := x1\<rparr> =
   d\<lparr>diags := x1\<rparr>"
  by (cases "what"; simp add: durability_eq maybe_inconsistent_def)

lemmas maybe_inconsistent_frame [simp] = maybe_inconsistent_upd [unfolded durability_eq, simplified]

lemma report_upd:
  "(report e d)\<lparr>diags := x1\<rparr> =
   d\<lparr>diags := x1\<rparr>"
  by (simp add: durability_eq report_def)

lemmas report_frame [simp] = report_upd [unfolded durability_eq, simplified]

lemma end_seal_upd:
  "(end_seal l through pair outcome d)\<lparr>diags := x1\<rparr> =
   d\<lparr>diags := x1\<rparr>"
  by (cases "pair"; simp add: durability_eq end_seal_def)

lemmas end_seal_frame [simp] = end_seal_upd [unfolded durability_eq, simplified]

lemma end_flush_upd:
  "(end_flush l pair pt outcome d)\<lparr>diags := x1\<rparr> =
   d\<lparr>diags := x1\<rparr>"
  by (simp add: durability_eq end_flush_def)

lemmas end_flush_frame [simp] = end_flush_upd [unfolded durability_eq, simplified]

lemma for_pair_upd:
  "(snd (for_pair kind d))\<lparr>diags := x1\<rparr> =
   d\<lparr>diags := x1\<rparr>"
  by (simp add: durability_eq for_pair_def)

lemmas for_pair_frame [simp] = for_pair_upd [unfolded durability_eq, simplified]

lemma tell_upd:
  "(tell x d)\<lparr>told := x1\<rparr> =
   d\<lparr>told := x1\<rparr>"
  by (simp add: durability_eq tell_def)

lemmas tell_frame [simp] = tell_upd [unfolded durability_eq, simplified]

lemma clock_now_upd:
  "(snd (clock_now d))\<lparr>readings := x1\<rparr> =
   d\<lparr>readings := x1\<rparr>"
  by (simp add: durability_eq clock_now_def)

lemmas clock_now_frame [simp] = clock_now_upd [unfolded durability_eq, simplified]

lemma drop_event_upd:
  "(drop_event e d)\<lparr>tokens := x1\<rparr> =
   d\<lparr>tokens := x1\<rparr>"
  by (cases "e"; simp add: durability_eq drop_event_def)

lemmas drop_event_frame [simp] = drop_event_upd [unfolded durability_eq, simplified]

lemma emit_upd:
  "(snd (emit e s))\<lparr>tokens := x1, diags := x2\<rparr> =
   (snd s)\<lparr>tokens := x1, diags := x2\<rparr>"
  by (cases "within (rm_events (rms (snd s))) (du_events (fst s)) e"; simp add: durability_eq emit_def)

lemmas emit_frame [simp] = emit_upd [unfolded durability_eq, simplified]

lemma window_result_upd:
  "(window_result r d)\<lparr>dwindow := x1, diags := x2\<rparr> =
   d\<lparr>dwindow := x1, diags := x2\<rparr>"
  by (simp add: durability_eq window_result_def)

lemmas window_result_frame [simp] = window_result_upd [unfolded durability_eq, simplified]

lemma admit_upd:
  "(admit op d)\<lparr>dwindow := x1, diags := x2\<rparr> =
   d\<lparr>dwindow := x1, diags := x2\<rparr>"
  by (simp add: durability_eq admit_def)

lemmas admit_frame [simp] = admit_upd [unfolded durability_eq, simplified]

lemma popped_upd:
  "(popped op d)\<lparr>dwindow := x1, diags := x2\<rparr> =
   d\<lparr>dwindow := x1, diags := x2\<rparr>"
  by (simp add: durability_eq popped_def)

lemmas popped_frame [simp] = popped_upd [unfolded durability_eq, simplified]

lemma hold_uncovered_upd:
  "(hold_uncovered op d)\<lparr>dwindow := x1, diags := x2\<rparr> =
   d\<lparr>dwindow := x1, diags := x2\<rparr>"
  by (simp add: durability_eq hold_uncovered_def)

lemmas hold_uncovered_frame [simp] = hold_uncovered_upd [unfolded durability_eq, simplified]

lemma hold_for_seal_upd:
  "(hold_for_seal op d)\<lparr>dwindow := x1, diags := x2\<rparr> =
   d\<lparr>dwindow := x1, diags := x2\<rparr>"
  by (simp add: durability_eq hold_for_seal_def)

lemmas hold_for_seal_frame [simp] = hold_for_seal_upd [unfolded durability_eq, simplified]

lemma hold_suspects_upd:
  "(hold_suspects at d)\<lparr>dwindow := x1, diags := x2\<rparr> =
   d\<lparr>dwindow := x1, diags := x2\<rparr>"
  by (simp add: durability_eq hold_suspects_def)

lemmas hold_suspects_frame [simp] = hold_suspects_upd [unfolded durability_eq, simplified]

lemma release_suspects_upd:
  "(release_suspects f d)\<lparr>dwindow := x1, kept := x2, diags := x3\<rparr> =
   d\<lparr>dwindow := x1, kept := x2, diags := x3\<rparr>"
  by (simp add: durability_eq release_suspects_def case_prod_beta)

lemmas release_suspects_frame [simp] = release_suspects_upd [unfolded durability_eq, simplified]

lemma forget_upd:
  "(snd (forget w d))\<lparr>spans := x1, dwindow := x2, kept := x3\<rparr> =
   d\<lparr>spans := x1, dwindow := x2, kept := x3\<rparr>"
  by (simp add: durability_eq forget_def case_prod_beta Let_def)

lemmas forget_frame [simp] = forget_upd [unfolded durability_eq, simplified]

lemma forget_each_upd:
  "(snd (forget_each ws r))\<lparr>spans := x1, dwindow := x2, kept := x3\<rparr> =
   (snd r)\<lparr>spans := x1, dwindow := x2, kept := x3\<rparr>"
  by (induction ws arbitrary: r) (auto simp: case_prod_beta forget_upd)

lemmas forget_each_frame [simp] = forget_each_upd [unfolded durability_eq, simplified]

lemma let_go_upd:
  "(let_go p d)\<lparr>writes := x1, spans := x2, dwindow := x3, kept := x4, diags := x5\<rparr> =
   d\<lparr>writes := x1, spans := x2, dwindow := x3, kept := x4, diags := x5\<rparr>"
  by (simp add: durability_eq let_go_def case_prod_beta)

lemmas let_go_frame [simp] = let_go_upd [unfolded durability_eq, simplified]

lemma ended_each_upd:
  "(snd (ended_each l es r))\<lparr>spans := x1, dwindow := x2, kept := x3, writes := x4\<rparr> =
   (snd r)\<lparr>spans := x1, dwindow := x2, kept := x3, writes := x4\<rparr>"
  by (induction es arbitrary: r) (auto simp: case_prod_beta forget_upd)

lemmas ended_each_frame [simp] = ended_each_upd [unfolded durability_eq, simplified]

lemma let_go_ended_upd:
  "(let_go_ended l d)\<lparr>writes := x1, spans := x2, dwindow := x3, kept := x4, diags := x5\<rparr> =
   d\<lparr>writes := x1, spans := x2, dwindow := x3, kept := x4, diags := x5\<rparr>"
  by (simp add: durability_eq let_go_ended_def case_prod_beta)

lemmas let_go_ended_frame [simp] = let_go_ended_upd [unfolded durability_eq, simplified]

lemma let_go_one_upd:
  "(let_go_one sq d)\<lparr>writes := x1, spans := x2, dwindow := x3, kept := x4, diags := x5\<rparr> =
   d\<lparr>writes := x1, spans := x2, dwindow := x3, kept := x4, diags := x5\<rparr>"
  by (cases "map_of (writes d) sq"; simp add: durability_eq let_go_one_def case_prod_beta)

lemmas let_go_one_frame [simp] = let_go_one_upd [unfolded durability_eq, simplified]

lemma release_reach_upd:
  "(release_reach r d)\<lparr>dlists := x1\<rparr> =
   d\<lparr>dlists := x1\<rparr>"
  by (cases "r"; simp add: durability_eq release_reach_def)

lemmas release_reach_frame [simp] = release_reach_upd [unfolded durability_eq, simplified]

lemma fold_tell_upd:
  "(fold (\<lambda>x. tell (f x)) xs d)\<lparr>told := x1\<rparr> = d\<lparr>told := x1\<rparr>"
  by (induction xs arbitrary: d) (simp_all add: durability_eq)

lemmas fold_tell_frame [simp] = fold_tell_upd [unfolded durability_eq, simplified]

lemma tell_failed_upd:
  "(tell_failed at d)\<lparr>told := x1\<rparr> =
   d\<lparr>told := x1\<rparr>"
  by (simp add: durability_eq tell_failed_def Let_def)

lemmas tell_failed_frame [simp] = tell_failed_upd [unfolded durability_eq, simplified]

lemma mint_first_upd:
  "(snd (mint_first i d))\<lparr>tokens := x1, free_tokens := x2\<rparr> =
   d\<lparr>tokens := x1, free_tokens := x2\<rparr>"
  by (cases "fst (token_mint i (last (free_tokens d)) True (tokens d))"; simp add: durability_eq mint_first_def case_prod_beta Let_def)

lemmas mint_first_frame [simp] = mint_first_upd [unfolded durability_eq, simplified]

lemma record_failure_upd:
  "(snd (record_failure cause r only i slot tok s))\<lparr>dwindow := x1, failures := x2, tokens := x3, free_tokens := x4, dlists := x5, readings := x6, diags := x7, told := x8\<rparr> =
   (snd s)\<lparr>dwindow := x1, failures := x2, tokens := x3, free_tokens := x4, dlists := x5, readings := x6, diags := x7, told := x8\<rparr>"
  by (simp add: durability_eq record_failure_def case_prod_beta Let_def within_def)

lemmas record_failure_frame [simp] = record_failure_upd [unfolded durability_eq, simplified]

lemma observe_upd:
  "(snd (snd (observe cause r only s)))\<lparr>dwindow := x1, failures := x2, tokens := x3, free_tokens := x4,
     dlists := x5, next_failure := x6, readings := x7, diags := x8, told := x9\<rparr> =
   (snd s)\<lparr>dwindow := x1, failures := x2, tokens := x3, free_tokens := x4,
     dlists := x5, next_failure := x6, readings := x7, diags := x8, told := x9\<rparr>"
  by (cases "fst (mint_first \<lparr>fi_instance = inst_id (snd s), fi_seq = next_failure (snd s)\<rparr>
        ((snd s)\<lparr>next_failure := Suc (next_failure (snd s))\<rparr>))")
    (simp_all add: durability_eq observe_def case_prod_beta Let_def)

lemmas observe_frame [simp] = observe_upd [unfolded durability_eq, simplified]

lemma mark_upd:
  "(mark op kind d)\<lparr>readings := x1, diags := x2, told := x3\<rparr> =
   d\<lparr>readings := x1, diags := x2, told := x3\<rparr>"
  by (simp add: durability_eq mark_def case_prod_beta Let_def)

lemmas mark_frame [simp] = mark_upd [unfolded durability_eq, simplified]

lemma release_heals_upd:
  "(release_heals l made through d)\<lparr>lineages := x1\<rparr> =
   d\<lparr>lineages := x1\<rparr>"
  by (simp add: durability_eq release_heals_def Let_def)

lemmas release_heals_frame [simp] = release_heals_upd [unfolded durability_eq, simplified]

lemma release_healed_at_upd:
  "(snd (release_healed_at at s))\<lparr>failures := x1, tokens := x2, diags := x3\<rparr> =
   (snd s)\<lparr>failures := x1, tokens := x2, diags := x3\<rparr>"
  by (simp add: durability_eq release_healed_at_def case_prod_beta Let_def)

lemmas release_healed_at_frame [simp] = release_healed_at_upd [unfolded durability_eq, simplified]

lemma fold_release_healed_upd:
  "(snd (fold release_healed_at ats s))\<lparr>failures := x1, tokens := x2, diags := x3\<rparr> =
   (snd s)\<lparr>failures := x1, tokens := x2, diags := x3\<rparr>"
  by (induction ats arbitrary: s) (simp_all add: durability_eq)

lemmas fold_release_healed_frame [simp] = fold_release_healed_upd [unfolded durability_eq, simplified]

lemma release_healed_upd:
  "(snd (release_healed s))\<lparr>failures := x1, tokens := x2, diags := x3\<rparr> =
   (snd s)\<lparr>failures := x1, tokens := x2, diags := x3\<rparr>"
  by (simp add: durability_eq release_healed_def)

lemmas release_healed_frame [simp] = release_healed_upd [unfolded durability_eq, simplified]

lemma abandon_each_upd:
  "(snd (abandon_each ss r))\<lparr>dwindow := x1, abandoned := x2\<rparr> =
   (snd r)\<lparr>dwindow := x1, abandoned := x2\<rparr>"
  by (induction ss arbitrary: r) (auto simp: case_prod_beta split: option.split)

lemmas abandon_each_frame [simp] = abandon_each_upd [unfolded durability_eq, simplified]

lemma abandon_epochs_upd:
  "(abandon_epochs f d)\<lparr>dwindow := x1, abandoned := x2, diags := x3\<rparr> =
   d\<lparr>dwindow := x1, abandoned := x2, diags := x3\<rparr>"
  by (simp add: durability_eq abandon_epochs_def case_prod_beta)

lemmas abandon_epochs_frame [simp] = abandon_epochs_upd [unfolded durability_eq, simplified]

lemma forget_abandoned_upd:
  "(forget_abandoned l through d)\<lparr>dwindow := x1, abandoned := x2, diags := x3\<rparr> =
   d\<lparr>dwindow := x1, abandoned := x2, diags := x3\<rparr>"
  by (simp add: durability_eq forget_abandoned_def Let_def)

lemmas forget_abandoned_frame [simp] = forget_abandoned_upd [unfolded durability_eq, simplified]

lemma release_held_upd:
  "(snd (snd (release_held l through room es r)))\<lparr>held := x1, gated := x2\<rparr> =
   (snd (snd r))\<lparr>held := x1, gated := x2\<rparr>"
  by (induction es arbitrary: r) (auto simp: case_prod_beta Let_def split: option.split)

lemmas release_held_frame [simp] = release_held_upd [unfolded durability_eq, simplified]

lemma release_through_upd:
  "(snd (release_through l through s))\<lparr>held := x1, gated := x2, diags := x3\<rparr> =
   (snd s)\<lparr>held := x1, gated := x2, diags := x3\<rparr>"
  by (simp add: durability_eq release_through_def case_prod_beta)

lemmas release_through_frame [simp] = release_through_upd [unfolded durability_eq, simplified]

lemma stop_each_upd:
  "(snd (snd (stop_each es r)))\<lparr>gated := x1, held_by_epoch := x2\<rparr> =
   (snd (snd r))\<lparr>gated := x1, held_by_epoch := x2\<rparr>"
  by (induction es arbitrary: r) (auto simp: case_prod_beta Let_def split: option.split)

lemmas stop_each_frame [simp] = stop_each_upd [unfolded durability_eq, simplified]

lemma stop_held_upd:
  "(snd (stop_held stopped s))\<lparr>held := x1, gated := x2, held_by_epoch := x3, diags := x4\<rparr> =
   (snd s)\<lparr>held := x1, gated := x2, held_by_epoch := x3, diags := x4\<rparr>"
  by (simp add: durability_eq stop_held_def case_prod_beta Let_def)

lemmas stop_held_frame [simp] = stop_held_upd [unfolded durability_eq, simplified]

lemma abandon_held_upd:
  "(snd (abandon_held f s))\<lparr>held := x1, gated := x2, held_by_epoch := x3, diags := x4\<rparr> =
   (snd s)\<lparr>held := x1, gated := x2, held_by_epoch := x3, diags := x4\<rparr>"
  by (simp add: durability_eq abandon_held_def)

lemmas abandon_held_frame [simp] = abandon_held_upd [unfolded durability_eq, simplified]

lemma end_held_upd:
  "(snd (end_held l s))\<lparr>held := x1, gated := x2, held_by_epoch := x3, diags := x4\<rparr> =
   (snd s)\<lparr>held := x1, gated := x2, held_by_epoch := x3, diags := x4\<rparr>"
  by (simp add: durability_eq end_held_def)

lemmas end_held_frame [simp] = end_held_upd [unfolded durability_eq, simplified]

lemma part_answered_upd:
  "(part_answered l sq pt outcome d)\<lparr>seals := x1, flush_pairs := x2, diags := x3\<rparr> =
   d\<lparr>seals := x1, flush_pairs := x2, diags := x3\<rparr>"
  by (cases "map_of (flush_pairs d) (l, sq, pt)"; cases "flush_part_of pt (served_names d)"; cases "map_of (seals d) (l, sq)"; simp add: durability_eq part_answered_def Let_def)

lemmas part_answered_frame [simp] = part_answered_upd [unfolded durability_eq, simplified]

lemma take_pairs_upd:
  "(snd (take_pairs l d))\<lparr>lineages := x1, seals := x2\<rparr> =
   d\<lparr>lineages := x1, seals := x2\<rparr>"
  by (simp add: durability_eq take_pairs_def Let_def)

lemmas take_pairs_frame [simp] = take_pairs_upd [unfolded durability_eq, simplified]

lemma fold_end_seal_upd:
  "(fold (\<lambda>p. end_seal l (fst p) (Some (snd p)) outcome) ps d)\<lparr>diags := x1\<rparr> = d\<lparr>diags := x1\<rparr>"
  by (induction ps arbitrary: d) (simp_all add: durability_eq)

lemmas fold_end_seal_frame [simp] = fold_end_seal_upd [unfolded durability_eq, simplified]

lemma end_lineage_pairs_upd:
  "(end_lineage_pairs l d)\<lparr>lineages := x1, seals := x2, diags := x3\<rparr> =
   d\<lparr>lineages := x1, seals := x2, diags := x3\<rparr>"
  by (simp add: durability_eq end_lineage_pairs_def case_prod_beta)

lemmas end_lineage_pairs_frame [simp] = end_lineage_pairs_upd [unfolded durability_eq, simplified]

end
