(* ===== verification/Durability_Seals.thy ===== *)
theory Durability_Seals
  imports Durability_Parts
begin

text \<open>
  How the seals of a lineage advance, crates/durable-ioring/src/durability.rs (\<^verbatim>\<open>advance\<close>,
  \<^verbatim>\<open>start_seals\<close>, \<^verbatim>\<open>finish_seals\<close>), durability/empties.rs and durability/providers.rs (\<^verbatim>\<open>touch\<close>,
  \<^verbatim>\<open>cover\<close>): a seal whose writes have all completed names them and issues its flushes, one whose parts
  have all answered is done, and the high-water mark passes the finished seals no failure holds.
\<close>

section \<open>Starting seals\<close>

text \<open>The inconsistencies a lineage's starts met, reported once they are done.\<close>

record start_flags =
  sf_domains_full :: bool
  sf_lost :: bool
  sf_full :: bool
  sf_pairs_full :: bool
  sf_unlisted :: bool

definition no_flags :: start_flags where
  "no_flags = \<lparr>sf_domains_full = False, sf_lost = False, sf_full = False, sf_pairs_full = False, sf_unlisted = False\<rparr>"

definition insert_sorted :: "domain_id \<Rightarrow> domain_id list \<Rightarrow> domain_id list" where
  "insert_sorted x xs = takeWhile (\<lambda>y. y < x) xs @ x # dropWhile (\<lambda>y. y < x) xs"

text \<open>Note the served domains of a file, ascending and each once; \<open>False\<close> when one had no room.\<close>

fun touch_each :: "nat \<Rightarrow> domain_id list \<Rightarrow> domain_id list \<Rightarrow> bool \<times> domain_id list" where
  "touch_each room [] touched = (True, touched)"
| "touch_each room (x # xs) touched =
     (if x \<in> set touched then touch_each room xs touched
      else if length touched = room then (False, touched)
      else touch_each room xs (insert_sorted x touched))"

definition touch :: "nat \<Rightarrow> domain_id list \<Rightarrow> domain_id list \<Rightarrow> domain_id list \<Rightarrow> bool \<times> domain_id list" where
  "touch room touched srv doms = touch_each room (filter (\<lambda>x. x \<in> set srv) doms) touched"

text \<open>A seal being started, as its writes are named to it.\<close>

record 'e starting =
  st_unanswered :: nat
  st_touched :: "domain_id list"
  st_flags :: start_flags
  st_flushes :: "'e flush list"

text \<open>Whether a completed write of the lineage is at or below the seal.\<close>

definition sealable :: "key \<Rightarrow> 'e::linorder \<Rightarrow> 'e write_rec \<Rightarrow> bool" where
  "sealable l through w = (w_lineage w = l \<and> w_stage w = Completed \<and> w_epoch w \<le> through)"

text \<open>Put a write in its file's entry of the seal's span, issuing the file's flush with its first.\<close>

definition charge_seal ::
  "key \<Rightarrow> nat \<Rightarrow> 'e \<Rightarrow> 'e write_rec \<Rightarrow> 'e starting \<times> 'e durability \<Rightarrow> 'e starting \<times> 'e durability" where
  "charge_seal l sq through w s =
     (let (a, d) = s; k = (l, w_file w, InSeal sq)
      in case (case map_of (spans d) k of
                 Some e \<Rightarrow> Some (e, spans d)
               | None \<Rightarrow> map_option (Pair (span_file_new (w_domains w)))
                           (hinsert (ops_room d) k (span_file_new (w_domains w)) (spans d))) of
           None \<Rightarrow> (a\<lparr>st_flags := (st_flags a)\<lparr>sf_full := True\<rparr>\<rparr>, d)
         | Some (e, sp) \<Rightarrow>
             if r_default (w_routing w) \<and> \<not> sp_flushed e
             then
               (let a1 = a\<lparr>st_unanswered := st_unanswered a + 1\<rparr>
                in (case within (ops_room d) (st_flushes a)
                           \<lparr>fu_lineage = l, fu_through = through, fu_file = w_file w, fu_target = w_target w\<rparr> of
                      None \<Rightarrow> a1\<lparr>st_flags := (st_flags a)\<lparr>sf_unlisted := True\<rparr>\<rparr>
                    | Some fs \<Rightarrow> a1\<lparr>st_flushes := fs\<rparr>,
                    d\<lparr>spans := tmod k (\<lambda>e. e\<lparr>sp_writes := sp_writes e + 1, sp_flushed := True\<rparr>) sp\<rparr>))
             else (a, d\<lparr>spans := tmod k (\<lambda>e. e\<lparr>sp_writes := sp_writes e + 1\<rparr>) sp\<rparr>))"

definition name_write ::
  "key \<Rightarrow> nat \<Rightarrow> 'e::linorder \<Rightarrow> nat \<times> 'e write_rec \<Rightarrow> 'e starting \<times> 'e durability \<Rightarrow> 'e starting \<times> 'e durability" where
  "name_write l sq through e s =
     (let w = snd e
      in if \<not> sealable l through w then s
         else
           (let (a, d) = s;
                (found, sp) = leave (l, w_file w, Unsealed) (spans d);
                a1 = (if found then a else a\<lparr>st_flags := (st_flags a)\<lparr>sf_lost := True\<rparr>\<rparr>);
                d1 = d\<lparr>spans := sp, writes := tmod (fst e) (\<lambda>w. w\<lparr>w_stage := Named sq\<rparr>) (writes d)\<rparr>;
                a2 = (if r_provider (w_routing w)
                      then (case touch (served_count d) (st_touched a1) (served d) (lists_get (dlists d) (w_domains w)) of
                              (fits, ts) \<Rightarrow>
                                a1\<lparr>st_touched := ts,
                                   st_flags := (if fits then st_flags a1 else (st_flags a1)\<lparr>sf_domains_full := True\<rparr>)\<rparr>)
                      else a1)
            in charge_seal l sq through w (a2, d1)))"

fun ask_domains :: "key \<Rightarrow> nat \<Rightarrow> domain_id list \<Rightarrow> bool \<times> 'e durability \<Rightarrow> bool \<times> 'e durability" where
  "ask_domains l sq [] r = r"
| "ask_domains l sq (x # xs) (full, d) =
     (case tinsert (rm_seal_domains (rms d)) (l, sq, x) \<lparr>sd_answered = False, sd_ok = False\<rparr> (seal_domains d) of
        None \<Rightarrow> ask_domains l sq xs (True, d)
      | Some sd \<Rightarrow> ask_domains l sq xs (full, d\<lparr>seal_domains := sd\<rparr>))"

fun open_pairs :: "key \<Rightarrow> nat \<Rightarrow> 'e \<Rightarrow> part list \<Rightarrow> bool \<times> 'e durability \<Rightarrow> bool \<times> 'e durability" where
  "open_pairs l sq through [] r = r"
| "open_pairs l sq through (pt # pts) (full, d) =
     (case for_pair FlushKind d of
        (None, d') \<Rightarrow> (full, d')
      | (Some i, d') \<Rightarrow>
          (case flush_part_of pt (served_names d') of
             None \<Rightarrow> open_pairs l sq through pts (full, d')
           | Some shown \<Rightarrow>
               (let d2 = report (FlushBegan (inst_id d') l through shown i) d'
                in case hinsert (rm_flush_pairs (rms d2)) (l, sq, pt) \<lparr>fp_id = i, fp_through = through\<rparr> (flush_pairs d2) of
                     None \<Rightarrow> open_pairs l sq through pts (True, d2)
                   | Some fp \<Rightarrow> open_pairs l sq through pts (full, d2\<lparr>flush_pairs := fp\<rparr>))))"

text \<open>Start one seal: name its writes, ask the provider, and count the flushes to answer.\<close>

definition start_seal ::
  "key \<Rightarrow> 'e::linorder seal \<Rightarrow> start_flags \<times> 'e due \<times> 'e durability \<Rightarrow> start_flags \<times> 'e due \<times> 'e durability" where
  "start_seal l s r =
     (let (fl, due, d) = r; sq = s_seq s; through = s_through s;
          (a, d1) = fold (name_write l sq through) (writes d)
            (\<lparr>st_unanswered = 0, st_touched = [], st_flags = fl, st_flushes = du_flushes due\<rparr>, d);
          (dfull, d2) = ask_domains l sq (st_touched a) (sf_domains_full (st_flags a), d1);
          parts = map (\<lambda>f. FilePart (fu_file f)) (drop (length (du_flushes due)) (st_flushes a)) @
                  map DomainPart (st_touched a);
          (pfull, d3) = open_pairs l sq through parts (sf_pairs_full (st_flags a), d2);
          fl1 = (st_flags a)\<lparr>sf_domains_full := dfull, sf_pairs_full := pfull\<rparr>;
          due1 = due\<lparr>du_flushes := st_flushes a\<rparr>;
          (fl2, due2) =
            (if st_touched a = [] then (fl1, due1)
             else case within (ops_room d3) (du_calls due1) \<lparr>pc_lineage = l, pc_seal = sq\<rparr> of
                    None \<Rightarrow> (fl1\<lparr>sf_unlisted := True\<rparr>, due1)
                  | Some cs \<Rightarrow> (fl1, due1\<lparr>du_calls := cs\<rparr>))
      in (fl2, due2,
          d3\<lparr>seals := tmod (l, sq) (\<lambda>s. s\<lparr>s_stage := Flushing (st_unanswered a) False\<rparr>) (seals d3)\<rparr>))"

fun start_each ::
  "key \<Rightarrow> 'e::linorder option \<Rightarrow> (key \<times> nat, 'e seal) table \<Rightarrow> start_flags \<times> 'e due \<times> 'e durability \<Rightarrow>
   start_flags \<times> 'e due \<times> 'e durability" where
  "start_each l oldest [] r = r"
| "start_each l oldest (e # es) r =
     (if s_stage (snd e) \<noteq> Waiting then start_each l oldest es r
      else if is_some_and (\<lambda>o'. o' \<le> s_through (snd e)) oldest then r
      else start_each l oldest es (start_seal l (snd e) r))"

definition report_flags :: "start_flags \<Rightarrow> 'e durability \<Rightarrow> 'e durability" where
  "report_flags fl d =
     fold (\<lambda>p d. if fst p then inconsistent (snd p) d else d)
       [(sf_domains_full fl, ''a seal asked the provider about more domains than the table made for them holds''),
        (sf_lost fl, ''a write named to a seal was in no unsealed span''),
        (sf_full fl, ''a span entry was made past the operations declared''),
        (sf_pairs_full fl, ''a flush pair was opened past what the operations declared allow''),
        (sf_unlisted fl, ''a change made more flushes or provider requests due than the operations declared'')] d"

definition start_seals :: "key \<Rightarrow> 'e::linorder due \<times> 'e durability \<Rightarrow> 'e due \<times> 'e durability" where
  "start_seals l s =
     (case start_each l (oldest_outstanding (snd s) l) (seals_of (seals (snd s)) l) (no_flags, s) of
        (fl, due, d) \<Rightarrow> (due, report_flags fl d))"

section \<open>Finishing seals\<close>

definition finish_empty ::
  "'e::linorder option \<Rightarrow> 'e empty_seal option \<Rightarrow> (nat \<times> 'e) option \<Rightarrow> 'e empty_seal option \<times> (nat \<times> 'e) option" where
  "finish_empty oldest e lst =
     (case e of
        None \<Rightarrow> (None, lst)
      | Some x \<Rightarrow>
          if \<not> em_finished x \<and> is_none_or (\<lambda>o'. em_through x < o') oldest
          then (Some (x\<lparr>em_finished := True\<rparr>), Some (em_made x, em_through x))
          else (Some x, lst))"

text \<open>The trailing empty seals, up to the first recorded seal not started.\<close>

fun finish_trailing ::
  "'e::linorder option \<Rightarrow> (key \<times> nat, 'e seal) table \<Rightarrow> (key \<times> nat, 'e seal) table \<times> (nat \<times> 'e) option \<Rightarrow>
   (key \<times> nat, 'e seal) table \<times> (nat \<times> 'e) option" where
  "finish_trailing oldest [] r = r"
| "finish_trailing oldest (e # es) (sl, lst) =
     (if s_stage (snd e) = Waiting then (sl, lst)
      else
        finish_trailing oldest es
          (tmod (fst e) (\<lambda>s. s\<lparr>s_trailing := fst (finish_empty oldest (s_trailing s) None)\<rparr>) sl,
           snd (finish_empty oldest (s_trailing (snd e)) lst)))"

definition finish_empties :: "key \<Rightarrow> 'e::linorder durability \<Rightarrow> 'e durability" where
  "finish_empties l d =
     (case map_of (lineages d) l of
        None \<Rightarrow> d
      | Some st \<Rightarrow>
          (let oldest = oldest_outstanding d l;
               (sl, lst) = finish_trailing oldest (seals_of (seals d) l)
                 (seals d, snd (finish_empty oldest (l_leading st) None));
               d' = d\<lparr>lineages := tmod l (\<lambda>st. st\<lparr>l_leading := fst (finish_empty oldest (l_leading st) None)\<rparr>) (lineages d),
                      seals := sl\<rparr>
           in case lst of None \<Rightarrow> d' | Some (made, through) \<Rightarrow> release_heals l made through d'))"

definition finishable :: "'e durability \<Rightarrow> key \<Rightarrow> 'e seal \<Rightarrow> bool option" where
  "finishable d l s =
     (case s_stage s of
        Flushing unanswered bad \<Rightarrow>
          if 0 < unanswered \<or>
             list_ex (\<lambda>x. is_some_and (\<lambda>a. \<not> sd_answered a) (map_of (seal_domains d) (l, s_seq s, x))) (served d)
          then None else Some (\<not> bad)
      | _ \<Rightarrow> None)"

fun finish_each ::
  "key \<Rightarrow> (key \<times> nat, 'e seal) table \<Rightarrow> (nat \<times> 'e) option \<times> 'e durability \<Rightarrow> (nat \<times> 'e) option \<times> 'e durability" where
  "finish_each l [] r = r"
| "finish_each l (e # es) (lst, d) =
     (case finishable d l (snd e) of
        None \<Rightarrow> finish_each l es (lst, d)
      | Some ok \<Rightarrow>
          finish_each l es
            (if ok then Some (s_made (snd e), s_through (snd e)) else lst,
             d\<lparr>seals := tmod (fst e) (\<lambda>s. s\<lparr>s_stage := Done ok\<rparr>) (seals d)\<rparr>))"

definition finish_seals :: "key \<Rightarrow> 'e::linorder durability \<Rightarrow> 'e durability" where
  "finish_seals l d =
     (case finish_each l (seals_of (seals d) l) (None, d) of
        (None, d') \<Rightarrow> d'
      | (Some (made, through), d') \<Rightarrow> release_heals l made through d')"

section \<open>Covering\<close>

definition covered_by :: "'e durability \<Rightarrow> key \<Rightarrow> nat \<Rightarrow> 'e write_rec \<Rightarrow> bool" where
  "covered_by d l sq w =
     (w_lineage w = l \<and> w_stage w = Named sq \<and>
      (\<not> r_default (w_routing w) \<or> is_some_and sp_ok (map_of (spans d) (l, w_file w, InSeal sq))) \<and>
      list_all (\<lambda>x. is_some_and sd_ok (map_of (seal_domains d) (l, sq, x)))
        (filter (\<lambda>x. x \<in> set (served d)) (lists_get (dlists d) (w_domains w))))"

definition cover :: "key \<Rightarrow> nat \<Rightarrow> 'e durability \<Rightarrow> 'e durability" where
  "cover l sq d =
     (case map_of (seals d) (l, sq) of
        None \<Rightarrow> d
      | Some s \<Rightarrow>
          (case s_stage s of
             Flushing _ _ \<Rightarrow>
               (let all_covered = map (\<lambda>w. (w_op w, Covered (r_default (w_routing w)) (r_provider (w_routing w))))
                      (filter (covered_by d l sq) (vals (writes d)));
                    ops = take (ops_room d) all_covered;
                    d1 = (if ops_room d < length all_covered
                          then inconsistent ''a seal covered more writes than the operations declared'' d else d);
                    d2 = (if ops = [] then d1
                          else let_go (\<lambda>w. oi_seq (w_op w) \<in> set (map (\<lambda>p. oi_seq (fst p)) ops)) d1)
                in fold (\<lambda>p. mark (fst p) (snd p)) ops d2)
           | _ \<Rightarrow> d))"

section \<open>The mark\<close>

definition forget_domains ::
  "domain_id list \<Rightarrow> key \<Rightarrow> nat \<Rightarrow> (key \<times> nat \<times> domain_id, seal_domain) table \<Rightarrow>
   (key \<times> nat \<times> domain_id, seal_domain) table" where
  "forget_domains srv l sq t = fold (\<lambda>x. tdel (l, sq, x)) srv t"

text \<open>The first seal the mark has not passed, if it is finished: how far it goes, and its number if it is
  a recorded one.\<close>

definition next_finished :: "'e durability \<Rightarrow> key \<Rightarrow> 'e lineage_state \<Rightarrow> ('e \<times> nat option) option" where
  "next_finished d l st =
     (case l_leading st of
        Some e \<Rightarrow> if em_finished e then Some (em_through e, None) else None
      | None \<Rightarrow>
          (case first_of (seals_of (seals d) l) of
             Some (_, s) \<Rightarrow> if is_done (s_stage s) then Some (s_through s, Some (s_seq s)) else None
           | None \<Rightarrow> None))"

text \<open>The record of the seal to pass, which was found above: \<^const>\<open>None\<close> is the code's failed \<^verbatim>\<open>expect\<close>.\<close>

definition recorded_seal :: "'e durability \<Rightarrow> key \<Rightarrow> nat option \<Rightarrow> 'e seal option option" where
  "recorded_seal d l recorded =
     (case recorded of None \<Rightarrow> Some None | Some sq \<Rightarrow> map_option Some (map_of (seals d) (l, sq)))"

text \<open>The mark passes one finished seal: a recorded one leaves the queue, and what trailed it is first.\<close>

definition pass_seal :: "key \<Rightarrow> 'e::linorder \<Rightarrow> nat option \<Rightarrow> 'e seal option \<Rightarrow> 'e durability \<Rightarrow> 'e durability" where
  "pass_seal l through recorded found d =
     (case (recorded, found) of
        (Some sq, Some s) \<Rightarrow>
          (let (e, w) = unpin (s_pin s) (dwindow d);
               d1 = d\<lparr>seals := tdel (l, sq) (seals d),
                      seal_domains := forget_domains (served d) l sq (seal_domains d),
                      lineages := tmod l (\<lambda>st. st\<lparr>l_leading := s_trailing s, l_durable_through := Some through\<rparr>) (lineages d),
                      dwindow := w\<rparr>
           in end_seal l through (s_pair s) SealDurable (maybe_inconsistent e d1))
      | _ \<Rightarrow>
          end_seal l through
            (Option.bind (map_of (lineages d) l) (\<lambda>st. Option.bind (l_leading st) em_pair)) SealDurable
            (d\<lparr>lineages := tmod l (\<lambda>st. st\<lparr>l_leading := None, l_durable_through := Some through\<rparr>) (lineages d)\<rparr>))"

text \<open>What a lineage's mark passing \<open>through\<close> does besides: the writes and the abandoned epochs it passed
  are let go, its \<^verbatim>\<open>Durable\<close> is due, and what waited for it is released.\<close>

definition passed_through :: "key \<Rightarrow> 'e::linorder \<Rightarrow> 'e due \<times> 'e durability \<Rightarrow> 'e due \<times> 'e durability" where
  "passed_through l through s =
     release_through l through
       (emit (EvDurable l through)
         (fst s,
          forget_abandoned l (Some through) (let_go (\<lambda>w. w_lineage w = l \<and> w_epoch w \<le> through) (snd s))))"

definition mark_step :: "key \<Rightarrow> 'e::linorder due \<times> 'e durability \<Rightarrow> ('e due \<times> 'e durability) option" where
  "mark_step l s =
     (let d = snd s
      in case map_of (lineages d) l of
           None \<Rightarrow> None
         | Some st \<Rightarrow>
             (case next_finished d l st of
                None \<Rightarrow> None
              | Some (through, recorded) \<Rightarrow>
                  if blocking d l through \<noteq> None then None
                  else
                    (case recorded_seal d l recorded of
                       None \<Rightarrow> None
                     | Some found \<Rightarrow> Some (passed_through l through (fst s, pass_seal l through recorded found d)))))"

section \<open>What each leaves as it is\<close>

lemma charge_seal_upd:
  "(snd (charge_seal l sq through w s))\<lparr>spans := x1\<rparr> =
   (snd s)\<lparr>spans := x1\<rparr>"
  by (simp add: durability_eq charge_seal_def case_prod_beta Let_def split: option.split)

lemmas charge_seal_frame [simp] = charge_seal_upd [unfolded durability_eq, simplified]

lemma name_write_upd:
  "(snd (name_write l sq through e s))\<lparr>writes := x1, spans := x2\<rparr> =
   (snd s)\<lparr>writes := x1, spans := x2\<rparr>"
  by (simp add: durability_eq name_write_def case_prod_beta Let_def)

lemmas name_write_frame [simp] = name_write_upd [unfolded durability_eq, simplified]

lemma fold_name_write_upd:
  "(snd (fold (name_write l sq through) es s))\<lparr>writes := x1, spans := x2\<rparr> =
   (snd s)\<lparr>writes := x1, spans := x2\<rparr>"
  by (induction es arbitrary: s) (simp_all add: durability_eq case_prod_beta)

lemmas fold_name_write_frame [simp] = fold_name_write_upd [unfolded durability_eq, simplified]

lemma ask_domains_upd:
  "(snd (ask_domains l sq xs r))\<lparr>seal_domains := x1\<rparr> =
   (snd r)\<lparr>seal_domains := x1\<rparr>"
  by (induction xs arbitrary: r) (auto simp: case_prod_beta split: option.split)

lemmas ask_domains_frame [simp] = ask_domains_upd [unfolded durability_eq, simplified]

lemma open_pairs_upd:
  "(snd (open_pairs l sq through pts r))\<lparr>diags := x1, flush_pairs := x2\<rparr> =
   (snd r)\<lparr>diags := x1, flush_pairs := x2\<rparr>"
  proof (induction pts arbitrary: r)
  case (Cons pt pts)
  then show ?case
    by (cases r; cases "fst (for_pair FlushKind (snd r))")
      (auto simp: durability_eq case_prod_beta Let_def prod.case_eq_if split: option.split)
qed simp

lemmas open_pairs_frame [simp] = open_pairs_upd [unfolded durability_eq, simplified]

lemma start_seal_upd:
  "(snd (snd (start_seal l s r)))\<lparr>writes := x1, seals := x2, spans := x3, seal_domains := x4, diags := x5, flush_pairs := x6\<rparr> =
   (snd (snd r))\<lparr>writes := x1, seals := x2, spans := x3, seal_domains := x4, diags := x5, flush_pairs := x6\<rparr>"
  by (simp add: durability_eq start_seal_def case_prod_beta Let_def)

lemmas start_seal_frame [simp] = start_seal_upd [unfolded durability_eq, simplified]

lemma start_each_upd:
  "(snd (snd (start_each l oldest es r)))\<lparr>writes := x1, seals := x2, spans := x3, seal_domains := x4, diags := x5, flush_pairs := x6\<rparr> =
   (snd (snd r))\<lparr>writes := x1, seals := x2, spans := x3, seal_domains := x4, diags := x5, flush_pairs := x6\<rparr>"
  by (induction es arbitrary: r) (auto simp: case_prod_beta start_seal_upd)

lemmas start_each_frame [simp] = start_each_upd [unfolded durability_eq, simplified]

lemma report_flags_upd: "(report_flags fl d)\<lparr>diags := x1\<rparr> = d\<lparr>diags := x1\<rparr>"
  by (simp add: durability_eq report_flags_def)

lemmas report_flags_frame [simp] = report_flags_upd [unfolded durability_eq, simplified]

lemma start_seals_upd:
  "(snd (start_seals l s))\<lparr>writes := x1, seals := x2, spans := x3, seal_domains := x4, diags := x5, flush_pairs := x6\<rparr> =
   (snd s)\<lparr>writes := x1, seals := x2, spans := x3, seal_domains := x4, diags := x5, flush_pairs := x6\<rparr>"
  by (simp add: durability_eq start_seals_def case_prod_beta)

lemmas start_seals_frame [simp] = start_seals_upd [unfolded durability_eq, simplified]

lemma finish_empties_upd:
  "(finish_empties l d)\<lparr>lineages := x1, seals := x2\<rparr> =
   d\<lparr>lineages := x1, seals := x2\<rparr>"
  by (cases "map_of (lineages d) l"; simp add: durability_eq finish_empties_def case_prod_beta Let_def split: option.split)

lemmas finish_empties_frame [simp] = finish_empties_upd [unfolded durability_eq, simplified]

lemma finish_each_upd:
  "(snd (finish_each l es r))\<lparr>seals := x1\<rparr> =
   (snd r)\<lparr>seals := x1\<rparr>"
  by (induction es arbitrary: r) (auto simp: case_prod_beta split: option.split)

lemmas finish_each_frame [simp] = finish_each_upd [unfolded durability_eq, simplified]

lemma finish_seals_upd:
  "(finish_seals l d)\<lparr>lineages := x1, seals := x2\<rparr> =
   d\<lparr>lineages := x1, seals := x2\<rparr>"
  by (simp add: durability_eq finish_seals_def case_prod_beta split: option.split)

lemmas finish_seals_frame [simp] = finish_seals_upd [unfolded durability_eq, simplified]

lemma fold_mark_upd:
  "(fold (\<lambda>p. mark (fst p) (snd p)) ops d)\<lparr>readings := x1, diags := x2, told := x3\<rparr> =
   d\<lparr>readings := x1, diags := x2, told := x3\<rparr>"
  by (induction ops arbitrary: d) (simp_all add: durability_eq case_prod_beta)

lemmas fold_mark_frame [simp] = fold_mark_upd [unfolded durability_eq, simplified]

lemma cover_upd:
  "(cover l sq d)\<lparr>writes := x1, spans := x2, dwindow := x3, kept := x4, readings := x5, diags := x6, told := x7\<rparr> =
   d\<lparr>writes := x1, spans := x2, dwindow := x3, kept := x4, readings := x5, diags := x6, told := x7\<rparr>"
  by (cases "map_of (seals d) (l, sq)"; simp add: cover_def)
    (auto simp: durability_eq Let_def split: seal_stage.split)

lemmas cover_frame [simp] = cover_upd [unfolded durability_eq, simplified]

lemma pass_seal_upd:
  "(pass_seal l through recorded found d)\<lparr>lineages := x1, seals := x2, seal_domains := x3, dwindow := x4, diags := x5\<rparr> =
   d\<lparr>lineages := x1, seals := x2, seal_domains := x3, dwindow := x4, diags := x5\<rparr>"
  by (cases recorded; cases found; simp add: durability_eq pass_seal_def case_prod_beta Let_def)

lemmas pass_seal_frame [simp] = pass_seal_upd [unfolded durability_eq, simplified]

section \<open>The mark passes the finished seals\<close>

lemma passed_through_upd:
  "(snd (passed_through l through s))\<lparr>writes := x1, spans := x2, dwindow := x3, kept := x4, abandoned := x5,
     held := x6, gated := x7, tokens := x8, diags := x9\<rparr> =
   (snd s)\<lparr>writes := x1, spans := x2, dwindow := x3, kept := x4, abandoned := x5,
     held := x6, gated := x7, tokens := x8, diags := x9\<rparr>"
  by (simp add: durability_eq passed_through_def)

lemmas passed_through_frame [simp] = passed_through_upd [unfolded durability_eq, simplified]

lemma mark_step_cases:
  assumes "mark_step l s = Some s'"
  obtains st through recorded found where "map_of (lineages (snd s)) l = Some st"
    and "next_finished (snd s) l st = Some (through, recorded)" and "blocking (snd s) l through = None"
    and "recorded_seal (snd s) l recorded = Some found"
    and "s' = passed_through l through (fst s, pass_seal l through recorded found (snd s))"
  using assms by (auto simp: mark_step_def Let_def split: option.splits prod.splits if_splits)

lemma lineages_pass_seal:
  "map_of (lineages (pass_seal l through recorded found d)) l =
   map_option (\<lambda>st. st\<lparr>l_leading := (if recorded = None then None else Option.bind found s_trailing),
                       l_durable_through := Some through\<rparr>) (map_of (lineages d) l)"
  by (cases recorded; cases found) (simp_all add: pass_seal_def case_prod_beta Let_def map_of_tmod)

lemma seals_pass_seal:
  "seals (pass_seal l through recorded found d) =
   (case (recorded, found) of (Some sq, Some s) \<Rightarrow> tdel (l, sq) (seals d) | _ \<Rightarrow> seals d)"
  by (cases recorded; cases found) (simp_all add: pass_seal_def case_prod_beta Let_def)

lemma seals_of_tdel: "seals_of (tdel (l, sq) t) l = tdel (l, sq) (seals_of t l)"
  unfolding seals_of_def tbetween_def tdel_def filter_filter by (rule filter_cong) auto

text \<open>Each step of the mark takes a seal away, or moves the empty seal that trailed it to the front.\<close>

definition seals_ahead :: "key \<Rightarrow> 'e durability \<Rightarrow> nat" where
  "seals_ahead l d =
     2 * length (seals_of (seals d) l) +
     (case map_of (lineages d) l of None \<Rightarrow> 0 | Some st \<Rightarrow> if l_leading st = None then 0 else 1)"

lemma seals_of_tdel_shorter:
  assumes "map_of t (l, sq) = Some s"
  shows "length (seals_of (tdel (l, sq) t) l) < length (seals_of t l)"
proof -
  have "((l, sq), s) \<in> set (seals_of t l)"
    using map_of_SomeD [OF assms] by (simp add: seals_of_def tbetween_def)
  then have "length (tdel (l, sq) (seals_of t l)) < length (seals_of t l)"
    unfolding tdel_def by (auto intro!: length_filter_less)
  then show ?thesis by (simp only: seals_of_tdel)
qed

lemma mark_step_decreases:
  assumes "mark_step l s = Some s'"
  shows "seals_ahead l (snd s') < seals_ahead l (snd s)"
proof -
  obtain st through recorded found where st: "map_of (lineages (snd s)) l = Some st"
    and nx: "next_finished (snd s) l st = Some (through, recorded)"
    and rec: "recorded_seal (snd s) l recorded = Some found"
    and s': "s' = passed_through l through (fst s, pass_seal l through recorded found (snd s))"
    using mark_step_cases [OF assms] by metis
  show ?thesis
  proof (cases recorded)
    case None
    then have "l_leading st \<noteq> None" using nx by (auto simp: next_finished_def split: option.splits if_splits)
    then show ?thesis using None st by (simp add: s' seals_ahead_def seals_pass_seal lineages_pass_seal)
  next
    case (Some sq)
    then obtain sl where sl: "map_of (seals (snd s)) (l, sq) = Some sl" and found: "found = Some sl"
      using rec by (auto simp: recorded_seal_def)
    show ?thesis using seals_of_tdel_shorter [OF sl] Some found st
      by (simp add: s' seals_ahead_def seals_pass_seal lineages_pass_seal)
  qed
qed

function mark_loop :: "key \<Rightarrow> 'e::linorder due \<times> 'e durability \<Rightarrow> 'e due \<times> 'e durability" where
  "mark_loop l s = (case mark_step l s of None \<Rightarrow> s | Some s' \<Rightarrow> mark_loop l s')"
  by pat_completeness auto
termination
  by (relation "measure (\<lambda>(l, s). seals_ahead l (snd s))") (auto intro: mark_step_decreases)

declare mark_loop.simps [simp del]

section \<open>Seals a failure holds\<close>

datatype place = Leading | Recorded nat | Trailing nat

text \<open>The places of a lineage's seals, in the order the seals were made.\<close>

definition places :: "(key \<times> nat, 'e seal) table \<Rightarrow> key \<Rightarrow> place list" where
  "places sl l = Leading # concat (map (\<lambda>(k, _). [Recorded (snd k), Trailing (snd k)]) (seals_of sl l))"

definition empty_answerable :: "'e empty_seal \<Rightarrow> 'e option" where
  "empty_answerable e = (if em_finished e \<and> \<not> em_answered e then Some (em_through e) else None)"

definition answerable :: "'e durability \<Rightarrow> key \<Rightarrow> place \<Rightarrow> 'e option" where
  "answerable d l p =
     (case p of
        Leading \<Rightarrow> Option.bind (map_of (lineages d) l) (\<lambda>st. Option.bind (l_leading st) empty_answerable)
      | Recorded sq \<Rightarrow>
          Option.bind (map_of (seals d) (l, sq))
            (\<lambda>s. if \<not> s_answered s \<and> s_stage s = Done True then Some (s_through s) else None)
      | Trailing sq \<Rightarrow> Option.bind (map_of (seals d) (l, sq)) (\<lambda>s. Option.bind (s_trailing s) empty_answerable))"

definition answer_empty :: "'e empty_seal option \<Rightarrow> 'e empty_seal option" where
  "answer_empty e = map_option (\<lambda>x. x\<lparr>em_answered := True, em_pair := None\<rparr>) e"

text \<open>Mark the seal at a place answered, taking its pair.\<close>

definition answer_at :: "key \<Rightarrow> place \<Rightarrow> 'e durability \<Rightarrow> nat option \<times> 'e durability" where
  "answer_at l p d =
     (case p of
        Leading \<Rightarrow>
          (Option.bind (map_of (lineages d) l) (\<lambda>st. Option.bind (l_leading st) em_pair),
           d\<lparr>lineages := tmod l (\<lambda>st. st\<lparr>l_leading := answer_empty (l_leading st)\<rparr>) (lineages d)\<rparr>)
      | Recorded sq \<Rightarrow>
          (Option.bind (map_of (seals d) (l, sq)) s_pair,
           d\<lparr>seals := tmod (l, sq) (\<lambda>s. s\<lparr>s_answered := True, s_pair := None\<rparr>) (seals d)\<rparr>)
      | Trailing sq \<Rightarrow>
          (Option.bind (map_of (seals d) (l, sq)) (\<lambda>s. Option.bind (s_trailing s) em_pair),
           d\<lparr>seals := tmod (l, sq) (\<lambda>s. s\<lparr>s_trailing := answer_empty (s_trailing s)\<rparr>) (seals d)\<rparr>))"

definition answer_blocked :: "key \<Rightarrow> place \<Rightarrow> 'e::linorder due \<times> 'e durability \<Rightarrow> 'e due \<times> 'e durability" where
  "answer_blocked l p s =
     (case answerable (snd s) l p of
        None \<Rightarrow> s
      | Some through \<Rightarrow>
          (case blocking (snd s) l through of
             None \<Rightarrow> s
           | Some f \<Rightarrow>
               (case answer_at l p (snd s) of
                  (pair, d) \<Rightarrow> emit (EvBlocked l through f) (fst s, end_seal l through pair SealBlocked d))))"

definition advance_mark :: "key \<Rightarrow> 'e::linorder due \<times> 'e durability \<Rightarrow> 'e due \<times> 'e durability" where
  "advance_mark l s =
     (let s' = mark_loop l s in fold (answer_blocked l) (places (seals (snd s')) l) s')"

section \<open>Every live lineage advances\<close>

definition live_keys :: "'e durability \<Rightarrow> key list" where
  "live_keys d = keys (filter (\<lambda>e. \<not> l_ended (snd e)) (lineages d))"

definition advance_seals :: "key \<Rightarrow> 'e::linorder due \<times> 'e durability \<Rightarrow> 'e due \<times> 'e durability" where
  "advance_seals l s = (case start_seals l s of (due, d) \<Rightarrow> (due, finish_seals l (finish_empties l d)))"

definition advance :: "'e::linorder due \<times> 'e durability \<Rightarrow> 'e due \<times> 'e durability" where
  "advance s =
     (let ls = live_keys (snd s);
          lv = take (c_lineages (cap (snd s))) ls;
          s1 = (if c_lineages (cap (snd s)) < length ls
                then (fst s, inconsistent ''more live lineages than the lineages declared'' (snd s)) else s)
      in fold advance_mark lv (release_healed (fold advance_seals lv s1)))"

end
