(* ===== verification/Durability_Ops.thy ===== *)
theory Durability_Ops
  imports Durability_Seals Gate_Search
begin

text \<open>
  The operations of the durability core, crates/durable-ioring/src/durability.rs and
  durability/failures.rs, gates.rs, lineages.rs, providers.rs and empties.rs, each whole: a write pushed
  and completed, a seal, a flush and a provider's part answered, a failure imported, resolved and
  forgotten, an operation held and issued, and a lineage minted, ended and retired. An operation that
  makes something due gives it beside the state it leaves; what it answers comes first.
\<close>

section \<open>Writes\<close>

text \<open>The span entry of a write just pushed gains one, and is made with the first.\<close>

definition charge_unsealed ::
  "nat \<Rightarrow> key \<Rightarrow> nat \<Rightarrow> domain_list \<Rightarrow> (key \<times> nat \<times> span, span_file) table \<Rightarrow>
   (key \<times> nat \<times> span, span_file) table option" where
  "charge_unsealed lim l file doms t =
     (let k = (l, file, Unsealed)
      in map_option (tmod k (\<lambda>e. e\<lparr>sp_writes := sp_writes e + 1\<rparr>))
           (case map_of t k of Some _ \<Rightarrow> Some t | None \<Rightarrow> hinsert lim k (span_file_new doms) t))"

definition write_of :: "nat \<Rightarrow> 'e accepted \<Rightarrow> 'e write_rec" where
  "write_of now a =
     \<lparr>w_op = a_op a, w_lineage = a_lineage a, w_epoch = a_epoch a, w_file = a_file a,
      w_target = a_target a, w_routing = a_routing a, w_domains = a_domains a, w_stage = InFlight,
      w_born = now, w_until = None\<rparr>"

text \<open>Record a write as in flight. The debug build's assertion that one not held is above the seal point
  is a check of the caller, and changes nothing.\<close>

definition in_flight :: "'e::linorder accepted \<Rightarrow> bool \<Rightarrow> 'e durability \<Rightarrow> 'e durability" where
  "in_flight a was_held d =
     (if live d (a_lineage a) = None
      then inconsistent ''a write was pushed to a lineage that is not live'' d
      else
        (let d1 = (if was_held then d else d\<lparr>next_push := max (next_push d) (oi_seq (a_op a) + 1)\<rparr>)
         in case count_up (ops_room d1) (a_lineage a) (a_epoch a) (in_flight_by_epoch d1) of
              None \<Rightarrow> inconsistent ''an epoch in flight was counted past the operations declared'' d1
            | Some counts \<Rightarrow>
                (let d2 = d1\<lparr>in_flight_by_epoch := counts\<rparr>
                 in case charge_unsealed (ops_room d2) (a_lineage a) (a_file a) (a_domains a) (spans d2) of
                      None \<Rightarrow> inconsistent ''a span entry was made past the operations declared'' d2
                    | Some sp \<Rightarrow>
                        (let d3 = hold_uncovered (a_op a) (d2\<lparr>spans := sp\<rparr>)
                         in case tinsert (ops_room d3) (oi_seq (a_op a)) (write_of (next_failure d3) a) (writes d3) of
                              None \<Rightarrow> inconsistent ''an uncovered write was recorded past the operations declared'' d3
                            | Some ws \<Rightarrow> d3\<lparr>writes := ws\<rparr>))))"

definition pushed :: "'e::linorder accepted \<Rightarrow> 'e durability \<Rightarrow> 'e durability" where
  "pushed a d = in_flight a False d"

definition retire_if_drained :: "key \<Rightarrow> 'e::linorder durability \<Rightarrow> 'e durability" where
  "retire_if_drained l d =
     (if is_some_and (\<lambda>st. l_ended st \<and> \<not> l_end_unpopped st \<and> lowest (in_flight_by_epoch d) l = None \<and>
                           seals_of (seals d) l = []) (map_of (lineages d) l)
      then d\<lparr>lineages := tdel l (lineages d)\<rparr> else d)"

definition completed :: "op_id \<Rightarrow> write_end \<Rightarrow> 'e::linorder durability \<Rightarrow> 'e due \<times> 'e durability" where
  "completed op fin d =
     (case map_of (writes d) (oi_seq op) of
        None \<Rightarrow> (fresh_due, inconsistent ''a write completed that was never recorded as pushed'' d)
      | Some w \<Rightarrow>
          if w_stage w \<noteq> InFlight
          then (fresh_due, inconsistent ''a write completed twice'' d)
          else
            (let ended = is_none_or l_ended (map_of (lineages d) (w_lineage w));
                 d1 = (case fin of
                         Succeeded \<Rightarrow>
                           (let d0 = d\<lparr>writes := tmod (oi_seq op) (\<lambda>w. w\<lparr>w_stage := Completed\<rparr>) (writes d)\<rparr>
                            in if ended then let_go_one (oi_seq op) d0 else d0)
                       | WriteFailed fault \<Rightarrow> mark op (Nullified fault) (let_go_one (oi_seq op) d));
                 d2 = d1\<lparr>in_flight_by_epoch := snd (count_down (w_lineage w) (w_epoch w) (in_flight_by_epoch d1))\<rparr>;
                 d3 = (if ended then retire_if_drained (w_lineage w) d2 else d2)
             in advance (fresh_due, d3)))"

section \<open>Seals\<close>

datatype 'e sealing = Submitted "'e due" | AlreadySealed epoch_state | SealCycle

definition empty_new :: "nat \<Rightarrow> 'e \<Rightarrow> nat option \<Rightarrow> 'e empty_seal" where
  "empty_new made through pair =
     \<lparr>em_made = made, em_through = through, em_finished = False, em_answered = False, em_pair = pair\<rparr>"

text \<open>Put an empty seal in its slot: trailing the last recorded seal, or leading with none.\<close>

definition place_empty :: "key \<Rightarrow> 'e empty_seal \<Rightarrow> 'e durability \<Rightarrow> 'e empty_seal option \<times> 'e durability" where
  "place_empty l e d =
     (case last_of (seals_of (seals d) l) of
        Some (k, s) \<Rightarrow> (s_trailing s, d\<lparr>seals := tmod k (\<lambda>s. s\<lparr>s_trailing := Some e\<rparr>) (seals d)\<rparr>)
      | None \<Rightarrow>
          (Option.bind (map_of (lineages d) l) l_leading,
           d\<lparr>lineages := tmod l (\<lambda>st. st\<lparr>l_leading := Some e\<rparr>) (lineages d)\<rparr>))"

definition record_empty :: "key \<Rightarrow> 'e empty_seal \<Rightarrow> 'e due \<times> 'e durability \<Rightarrow> 'e due \<times> 'e durability" where
  "record_empty l e s =
     (if map_of (lineages (snd s)) l = None then s
      else
        (case place_empty l e (snd s) of
           (old, d) \<Rightarrow>
             (case old of
                None \<Rightarrow> (fst s, d)
              | Some x \<Rightarrow>
                  (let d1 = end_seal l (em_through x) (em_pair x) SealSuperseded d
                   in if em_answered x then emit (EvSuperseded l (em_through x)) (fst s, d1) else (fst s, d1)))))"

definition begin_seal_pair :: "key \<Rightarrow> 'e \<Rightarrow> 'e durability \<Rightarrow> nat option \<times> 'e durability" where
  "begin_seal_pair l through d =
     (case for_pair SealKind d of
        (pair, d1) \<Rightarrow>
          (pair, case pair of None \<Rightarrow> d1 | Some i \<Rightarrow> report (SealBegan (inst_id d1) l through i) d1))"

definition record_seal :: "key \<Rightarrow> 'e seal \<Rightarrow> nat \<Rightarrow> 'e durability \<Rightarrow> 'e durability" where
  "record_seal l s op d =
     (case tinsert (ops_room d) (l, s_seq s) s (seals d) of
        None \<Rightarrow> inconsistent ''a seal was recorded past the operations declared'' d
      | Some sl \<Rightarrow> hold_for_seal op (d\<lparr>seals := sl\<rparr>))"

text \<open>Make a seal of a live lineage, above its seal point and closing no cycle.\<close>

definition make_seal :: "key \<Rightarrow> 'e::linorder \<Rightarrow> 'e lineage_state \<Rightarrow> 'e durability \<Rightarrow> 'e due \<times> 'e durability" where
  "make_seal l through st d =
     (let pin = pinned_by d l through; sq = l_next_seal st; made = seals_made d;
          d1 = d\<lparr>lineages := tmod l (\<lambda>st. st\<lparr>l_sealed_through := Some through, l_next_seal := l_next_seal st + 1\<rparr>) (lineages d),
                 seals_made := seals_made d + 1\<rparr>;
          (pair, d2) = begin_seal_pair l through d1
      in case pin of
           None \<Rightarrow> advance (record_empty l (empty_new made through pair) (fresh_due, d2))
         | Some op \<Rightarrow>
             advance (fresh_due,
               record_seal l \<lparr>s_seq = sq, s_made = made, s_through = through, s_stage = Waiting, s_answered = False,
                              s_pair = pair, s_trailing = None, s_pin = Some op\<rparr> op d2))"

definition seal_op :: "key \<Rightarrow> 'e::linorder \<Rightarrow> 'e durability \<Rightarrow> 'e sealing \<times> 'e durability" where
  "seal_op l through d =
     (case live d l of
        None \<Rightarrow> (Submitted fresh_due, inconsistent ''a seal of a lineage that is not live'' d)
      | Some st \<Rightarrow>
          if is_some_and (\<lambda>sealed. through \<le> sealed) (l_sealed_through st)
          then (AlreadySealed (case epoch_state_of d l through of None \<Rightarrow> Pending | Some x \<Rightarrow> x), d)
          else
            (case seal_cycle d l through of
               (said, found) \<Rightarrow>
                 (let d1 = fold inconsistent said d
                  in if found then (SealCycle, d1)
                     else case make_seal l through st d1 of (due, d2) \<Rightarrow> (Submitted due, d2))))"

section \<open>Answers\<close>

text \<open>A flush of a file answered: the seal's number, the file's domains, and the tables it leaves.\<close>

definition answer ::
  "key \<Rightarrow> 'e \<Rightarrow> nat \<Rightarrow> bool \<Rightarrow> 'e durability \<Rightarrow> string + (nat \<times> domain_list \<times> 'e durability)" where
  "answer l through file failed_now d =
     (case find (\<lambda>e. s_through (snd e) = through) (seals_of (seals d) l) of
        None \<Rightarrow> Inl ''a flush completed for a seal that does not exist''
      | Some (k, s) \<Rightarrow>
          (case s_stage s of
             Flushing unanswered bad \<Rightarrow>
               (case opt_filter (\<lambda>e. sp_flushed e \<and> \<not> sp_answered e) (map_of (spans d) (l, file, InSeal (s_seq s))) of
                  None \<Rightarrow> Inl ''a flush completed that the seal did not issue''
                | Some e \<Rightarrow>
                    Inr (s_seq s, sp_domains e,
                         d\<lparr>spans := tmod (l, file, InSeal (s_seq s))
                                      (\<lambda>e. e\<lparr>sp_answered := True, sp_ok := \<not> failed_now\<rparr>) (spans d),
                           seals := tmod k (\<lambda>s. s\<lparr>s_stage := Flushing (unanswered - 1) (bad \<or> failed_now),
                                                 s_answered := s_answered s \<or> failed_now\<rparr>) (seals d)\<rparr>))
           | _ \<Rightarrow> Inl ''a flush completed for a seal not flushing''))"

text \<open>Of an ended lineage's seals, only those with a flush out stay.\<close>

definition flush_out :: "'e seal \<Rightarrow> bool" where
  "flush_out s = (case s_stage s of Flushing unanswered _ \<Rightarrow> 0 < unanswered | _ \<Rightarrow> False)"

fun drop_each ::
  "((key \<times> nat) \<times> 'e seal) list \<Rightarrow> string option \<times> 'e durability \<Rightarrow> string option \<times> 'e durability" where
  "drop_each [] r = r"
| "drop_each ((k, s) # es) (lost, d) =
     (case unpin (s_pin s) (dwindow d) of
        (e, w) \<Rightarrow>
          drop_each es
            (first_error lost e,
             d\<lparr>dwindow := w, seal_domains := forget_domains (served d) (fst k) (snd k) (seal_domains d)\<rparr>))"

definition drop_seals :: "key \<Rightarrow> 'e durability \<Rightarrow> 'e durability" where
  "drop_seals l d =
     (let goes = (\<lambda>e. fst (fst e) = l \<and> \<not> flush_out (snd e))
      in case drop_each (filter goes (seals d)) (None, d\<lparr>seals := filter (\<lambda>e. \<not> goes e) (seals d)\<rparr>) of
           (lost, d') \<Rightarrow> maybe_inconsistent lost d')"

definition flushed ::
  "key \<Rightarrow> 'e::linorder \<Rightarrow> nat \<Rightarrow> io_fault option \<Rightarrow> 'e durability \<Rightarrow> 'e due \<times> 'e durability" where
  "flushed l through file fault d =
     (case map_of (lineages d) l of
        None \<Rightarrow> (fresh_due, d)
      | Some st \<Rightarrow>
          if l_ended st
          then
            (case answer l through file (fault \<noteq> None) d of
               Inl _ \<Rightarrow> advance (fresh_due, d)
             | Inr (sq, _, d1) \<Rightarrow>
                 advance (fresh_due,
                   retire_if_drained l
                     (drop_seals l (let_go (\<lambda>w. w_lineage w = l \<and> w_file w = file \<and> w_stage w = Named sq) d1))))
          else
            (case answer l through file (fault \<noteq> None) d of
               Inl what \<Rightarrow> (fresh_due, inconsistent what d)
             | Inr (sq, doms, d1) \<Rightarrow>
                 (case fault of
                    None \<Rightarrow> advance (fresh_due, cover l sq (part_answered l sq (FilePart file) FlushSucceeded d1))
                  | Some flt \<Rightarrow>
                      advance (snd (observe (CommitFailed file flt) (reach_of_file doms) None
                        (fresh_due, part_answered l sq (FilePart file) FlushFailed d1))))))"

text \<open>A provider's answer for one domain of a seal, recorded.\<close>

definition provider_answer :: "key \<Rightarrow> nat \<Rightarrow> domain_id \<Rightarrow> bool \<Rightarrow> 'e durability \<Rightarrow> string + 'e durability" where
  "provider_answer l sq x ok d =
     (case map_of (seals d) (l, sq) of
        None \<Rightarrow> Inl ''a provider answered for a seal that does not exist''
      | Some s \<Rightarrow>
          (case s_stage s of
             Flushing unanswered bad \<Rightarrow>
               (case map_of (seal_domains d) (l, sq, x) of
                  None \<Rightarrow> Inl ''a provider answered a domain the seal did not ask about''
                | Some pt \<Rightarrow>
                    if sd_answered pt then Inl ''a provider answered a domain twice''
                    else Inr (d\<lparr>seal_domains := tmod (l, sq, x) (\<lambda>_. \<lparr>sd_answered = True, sd_ok = ok\<rparr>) (seal_domains d),
                                seals := (if ok then seals d
                                          else tmod (l, sq) (\<lambda>s. s\<lparr>s_stage := Flushing unanswered True, s_answered := True\<rparr>)
                                                 (seals d))\<rparr>))
           | _ \<Rightarrow> Inl ''a provider answered for a seal not flushing''))"

definition part_outcome :: "failure_cause option \<Rightarrow> flush_outcome" where
  "part_outcome c =
     (case c of None \<Rightarrow> FlushSucceeded | Some (ProviderAbandoned _) \<Rightarrow> FlushAbandoned | Some _ \<Rightarrow> FlushFailed)"

definition provided ::
  "key \<Rightarrow> nat \<Rightarrow> domain_id \<Rightarrow> failure_cause option \<Rightarrow> 'e::linorder durability \<Rightarrow> 'e due \<times> 'e durability" where
  "provided l sq x cause d =
     (if live d l = None then (fresh_due, d)
      else
        (case provider_answer l sq x (cause = None) d of
           Inl what \<Rightarrow> (fresh_due, inconsistent what d)
         | Inr d1 \<Rightarrow>
             (let d2 = part_answered l sq (DomainPart x) (part_outcome cause) d1
              in case cause of
                   None \<Rightarrow> advance (fresh_due, cover l sq d2)
                 | Some c \<Rightarrow> advance (snd (observe c (ReachDomain x) None (fresh_due, d2))))))"

definition serve :: "domain_id list \<Rightarrow> string list \<Rightarrow> 'e durability \<Rightarrow> 'e durability" where
  "serve doms nms d =
     (case fold (\<lambda>(x, n) r. case r of (ok, t) \<Rightarrow>
                   if ok then (case hinsert (served_count d) x n t of None \<Rightarrow> (False, t) | Some t' \<Rightarrow> (True, t')) else (ok, t))
             (zip doms nms) (True, served_names d) of
        (ok, t) \<Rightarrow>
          (let d1 = d\<lparr>served := doms, served_names := t\<rparr>
           in if ok then d1 else inconsistent ''the provider's domains outnumber the table made for them'' d1))"

section \<open>Failures\<close>

definition import_failure ::
  "failure_cause \<Rightarrow> reach \<Rightarrow> key option \<Rightarrow> 'e::linorder durability \<Rightarrow> failure_id \<times> 'e due \<times> 'e durability" where
  "import_failure cause r only d =
     (case observe cause r only (fresh_due, d) of (i, s) \<Rightarrow> (i, advance s))"

datatype resolution = Heal | Abandon

definition position :: "('a \<Rightarrow> bool) \<Rightarrow> 'a list \<Rightarrow> nat option" where
  "position p xs = (if list_ex p xs then Some (length (takeWhile (\<lambda>x. \<not> p x) xs)) else None)"

definition remove_at :: "nat \<Rightarrow> 'a list \<Rightarrow> 'a list" where
  "remove_at i xs = take i xs @ drop (i + 1) xs"

definition insert_at :: "nat \<Rightarrow> 'a \<Rightarrow> 'a list \<Rightarrow> 'a list" where
  "insert_at i x xs = take i xs @ x # drop i xs"

text \<open>Abandon the failure at a position: it is out of the table while its holds are acted on.\<close>

definition abandon_failure :: "nat \<Rightarrow> 'e::linorder due \<times> 'e durability \<Rightarrow> 'e due \<times> 'e durability" where
  "abandon_failure i s =
     (let f = failures (snd s) ! i;
          d1 = abandon_epochs f ((snd s)\<lparr>failures := remove_at i (failures (snd s))\<rparr>)
      in case abandon_held f (emit (EvAbandoned (f_id f)) (fst s, d1)) of
           (due, d2) \<Rightarrow> (due, d2\<lparr>failures := insert_at i (f\<lparr>f_standing := Resolved\<rparr>) (failures d2)\<rparr>))"

text \<open>One item of a resolution; its token is dropped as the item is done with.\<close>

definition resolve_item ::
  "failure_token \<times> resolution \<Rightarrow> 'e::linorder due \<times> 'e durability \<Rightarrow> 'e due \<times> 'e durability" where
  "resolve_item it s =
     (let (tok, res) = it;
          (due, d) =
            (case position (\<lambda>f. f_id f = tk_id tok) (failures (snd s)) of
               None \<Rightarrow> (fst s, inconsistent ''a live token for a failure not in the inventory'' (snd s))
             | Some i \<Rightarrow>
                 (case res of
                    Abandon \<Rightarrow> abandon_failure i s
                  | Heal \<Rightarrow>
                      (fst s, (snd s)\<lparr>failures := (failures (snd s))[i := (failures (snd s) ! i)\<lparr>f_standing := Healing (heal_now (snd s))\<rparr>]\<rparr>)))
      in (due, d\<lparr>tokens := token_drop tok (tokens d)\<rparr>))"

record resolve_error =
  re_foreign :: failure_id
  re_returned :: "(failure_token \<times> resolution) list"

definition resolve ::
  "(failure_token \<times> resolution) list \<Rightarrow> 'e::linorder durability \<Rightarrow> (resolve_error + 'e due) \<times> 'e durability" where
  "resolve items d =
     (case find (\<lambda>i. fi_instance i \<noteq> inst_id d) (map (\<lambda>it. tk_id (fst it)) items) of
        Some foreign \<Rightarrow> (Inl \<lparr>re_foreign = foreign, re_returned = items\<rparr>, d)
      | None \<Rightarrow>
          (case advance (release_healed (fold resolve_item items (fresh_due, d))) of
             (due, d') \<Rightarrow> (Inr due, d')))"

definition take_token :: "failure_id \<Rightarrow> 'e durability \<Rightarrow> failure_token option \<times> 'e durability" where
  "take_token i d =
     (case find (\<lambda>f. f_id f = i) (failures d) of
        None \<Rightarrow> (None, d)
      | Some f \<Rightarrow>
          if f_standing f = Unresolved
          then (case token_mint i (f_token f) False (tokens d) of (t, ts) \<Rightarrow> (t, d\<lparr>tokens := ts\<rparr>))
          else (None, d))"

definition forget_failure :: "failure_id \<Rightarrow> 'e durability \<Rightarrow> 'e durability" where
  "forget_failure i d =
     (case position (\<lambda>f. f_id f = i \<and> f_standing f = Resolved) (failures d) of
        None \<Rightarrow> inconsistent ''a resolution entry was popped for a failure not resolved'' d
      | Some at \<Rightarrow>
          (let f = failures d ! at
           in release_reach (f_reach f)
                (release_suspects f
                  (d\<lparr>failures := remove_at at (failures d), free_tokens := free_tokens d @ [f_token f]\<rparr>))))"

section \<open>Held operations\<close>

text \<open>Record a held write's gate and count it, as the code does, both before either is checked.\<close>

definition hold_write :: "op_id \<Rightarrow> 'e::linorder accepted \<Rightarrow> 'e gate \<Rightarrow> 'e durability \<Rightarrow> bool \<times> 'e durability" where
  "hold_write op a g d =
     (let d1 = d\<lparr>next_push := max (next_push d) (oi_seq op + 1)\<rparr>;
          gt = tinsert (ops_room d) (a_lineage a, a_epoch a, oi_seq op) g (gated d1);
          cnt = count_up (ops_room d) (a_lineage a) (a_epoch a) (held_by_epoch d1)
      in (gt \<noteq> None \<and> cnt \<noteq> None,
          d1\<lparr>gated := (case gt of None \<Rightarrow> gated d1 | Some t \<Rightarrow> t),
             held_by_epoch := (case cnt of None \<Rightarrow> held_by_epoch d1 | Some t \<Rightarrow> t)\<rparr>))"

definition hold :: "op_id \<Rightarrow> 'e::linorder accepted option \<Rightarrow> 'e gate \<Rightarrow> 'e durability \<Rightarrow> 'e durability" where
  "hold op wr g d =
     (if is_some_and (\<lambda>a. live d (a_lineage a) = None) wr \<or> live d (g_lineage g) = None
      then inconsistent ''an operation was held on a lineage that is not live'' d
      else
        (case (case wr of None \<Rightarrow> (True, d) | Some a \<Rightarrow> hold_write op a g d) of
           (ok, d1) \<Rightarrow>
             if \<not> ok then inconsistent ''a held write was recorded past the operations declared'' d1
             else
               (case tinsert (ops_room d1) (oi_seq op) \<lparr>ho_op = op, ho_write = wr, ho_gate = g, ho_ready = False\<rparr> (held d1) of
                  None \<Rightarrow> inconsistent ''an operation was held past the operations declared'' d1
                | Some t \<Rightarrow> d1\<lparr>held := t\<rparr>)))"

definition unhold :: "key \<Rightarrow> 'e::linorder \<Rightarrow> 'e durability \<Rightarrow> 'e durability" where
  "unhold l e d = d\<lparr>held_by_epoch := snd (count_down l e (held_by_epoch d))\<rparr>"

definition issued :: "op_id \<Rightarrow> 'e::linorder durability \<Rightarrow> 'e durability" where
  "issued op d =
     (case map_of (held d) (oi_seq op) of
        None \<Rightarrow> inconsistent ''an operation was issued that was never held'' d
      | Some h \<Rightarrow>
          if ho_ready h
          then
            (let d1 = d\<lparr>held := tdel (oi_seq op) (held d)\<rparr>
             in case ho_write h of
                  None \<Rightarrow> d1
                | Some a \<Rightarrow> in_flight a True (unhold (a_lineage a) (a_epoch a) d1))
          else inconsistent ''an operation was issued before its gate was durable'' d)"

section \<open>Lineages\<close>

definition mint :: "string option \<Rightarrow> 'e durability \<Rightarrow> key \<times> 'e durability" where
  "mint description d =
     (let k = next_lineage d; d1 = d\<lparr>next_lineage := next_lineage d + 1\<rparr>
      in (k, case tinsert (c_lineages (cap d)) k (lineage_state_new description) (lineages d1) of
               None \<Rightarrow> inconsistent ''a lineage was minted past the lineages declared'' d1
             | Some t \<Rightarrow> d1\<lparr>lineages := t\<rparr>))"

text \<open>How far the epochs of a lineage that ends are abandoned: the furthest sealed, written or held above
  its mark.\<close>

definition abandoned_through :: "key \<Rightarrow> 'e lineage_state \<Rightarrow> 'e::linorder durability \<Rightarrow> 'e option" where
  "abandoned_through l st d =
     (let above = (\<lambda>e. is_none_or (\<lambda>m. m < e) (l_durable_through st))
      in max (opt_filter above (l_sealed_through st))
           (list_max (filter above
             (map w_epoch (filter (\<lambda>w. w_lineage w = l) (vals (writes d))) @
              map (\<lambda>e. snd (fst e)) (table_of id (held_by_epoch d) l Unbounded Unbounded)))))"

text \<open>Stop answering for a lineage: its pairs end, and no failure observed from now on names its writes.\<close>

definition stop_answering :: "key \<Rightarrow> 'e::linorder durability \<Rightarrow> 'e durability" where
  "stop_answering l d =
     (let d1 = end_pairs (Some l) d;
          d2 = d1\<lparr>lineages := tmod l (\<lambda>st. st\<lparr>l_ended := True, l_end_unpopped := True, l_leading := None\<rparr>) (lineages d1)\<rparr>;
          d3 = forget_abandoned l None d2
      in d3\<lparr>writes := tmap (\<lambda>w. if w_lineage w = l
                                 then w\<lparr>w_until := Some (case w_until w of None \<Rightarrow> next_failure d3 | Some u \<Rightarrow> u)\<rparr>
                                 else w) (writes d3)\<rparr>)"

definition clear_trailing :: "key \<Rightarrow> 'e durability \<Rightarrow> 'e durability" where
  "clear_trailing l d =
     d\<lparr>seals := map (\<lambda>e. if fst (fst e) = l then (fst e, (snd e)\<lparr>s_trailing := None\<rparr>) else e) (seals d)\<rparr>"

definition end_lineage :: "key \<Rightarrow> 'e::linorder durability \<Rightarrow> 'e due \<times> 'e durability" where
  "end_lineage l d =
     (case opt_filter (\<lambda>_. l \<noteq> DEFAULT_LINEAGE) (live d l) of
        None \<Rightarrow> (fresh_due, inconsistent ''an end of a lineage that is not live, or of the default'' d)
      | Some st \<Rightarrow>
          (let d1 = drop_seals l (clear_trailing l (let_go_ended l (stop_answering l d)));
               (due, d2) = end_held l (emit (EvLineageEnded l (abandoned_through l st d)) (fresh_due, d1))
           in advance (due, retire_if_drained l d2)))"

definition end_popped :: "key \<Rightarrow> 'e::linorder durability \<Rightarrow> 'e durability" where
  "end_popped l d =
     (if is_some_and (\<lambda>st. l_ended st \<and> l_end_unpopped st) (map_of (lineages d) l)
      then retire_if_drained l (d\<lparr>lineages := tmod l (\<lambda>st. st\<lparr>l_end_unpopped := False\<rparr>) (lineages d)\<rparr>)
      else inconsistent ''a LineageEnded was popped for a lineage not ended or already popped'' d)"

record lineage_busy =
  lb_lineage :: lineage_id
  lb_in_flight :: nat
  lb_held_for_gate :: nat
  lb_uncovered :: nat
  lb_failures :: nat

definition lineage_busy_of :: "key \<Rightarrow> 'e::linorder durability \<Rightarrow> lineage_busy" where
  "lineage_busy_of l d =
     \<lparr>lb_lineage = name_of d l,
      lb_in_flight = sum_list (vals (table_of id (in_flight_by_epoch d) l Unbounded Unbounded)),
      lb_held_for_gate = held_for_gate d l,
      lb_uncovered = length (filter (\<lambda>w. w_lineage w = l \<and> w_stage w \<noteq> InFlight) (vals (writes d))),
      lb_failures = length (lineage_failures d l)\<rparr>"

definition retire :: "key \<Rightarrow> 'e::linorder durability \<Rightarrow> lineage_busy option \<times> 'e durability" where
  "retire l d =
     (if live d l = None \<or> l = DEFAULT_LINEAGE
      then (None, inconsistent ''a retire of a lineage that is not live, or of the default'' d)
      else
        (let b = lineage_busy_of l d
         in if 0 < lb_in_flight b \<or> 0 < lb_held_for_gate b \<or> 0 < lb_uncovered b \<or> 0 < lb_failures b
            then (Some b, d)
            else (None, (let d1 = forget_abandoned l None d in d1\<lparr>lineages := tdel l (lineages d1)\<rparr>))))"

text \<open>The instance's state is dropped: every pair still open ends.\<close>

definition drop_instance :: "'e durability \<Rightarrow> 'e durability" where
  "drop_instance d = end_pairs None d"

end
