(* ===== verification/Durability_Marks.thy ===== *)
theory Durability_Marks
  imports Durability_Ops
begin

text \<open>
  The order of a lineage's seals and its high-water mark. Every seal the mark has not passed, recorded or
  empty, is above the mark and at or below the seal point, and they are kept in the order they were made,
  each further than the last. The mark and the seal point only ever rise. What this depends on is the
  shape of the lineages and their seals: how far each goes and when it was made, whatever its stage.
\<close>

section \<open>The shape of the seals\<close>

type_synonym 'e empty_shape = "(nat \<times> 'e) option"

record 'e sshape =
  ss_seq :: nat
  ss_made :: nat
  ss_through :: 'e
  ss_trailing :: "'e empty_shape"

record 'e lshape =
  lh_sealed :: "'e option"
  lh_durable :: "'e option"
  lh_next :: nat
  lh_ended :: bool
  lh_leading :: "'e empty_shape"

definition empty_shape :: "'e empty_seal option \<Rightarrow> 'e empty_shape" where
  "empty_shape e = map_option (\<lambda>x. (em_made x, em_through x)) e"

definition seal_shape :: "'e seal \<Rightarrow> 'e sshape" where
  "seal_shape s = \<lparr>ss_seq = s_seq s, ss_made = s_made s, ss_through = s_through s,
     ss_trailing = empty_shape (s_trailing s)\<rparr>"

definition lineage_shape :: "'e lineage_state \<Rightarrow> 'e lshape" where
  "lineage_shape st = \<lparr>lh_sealed = l_sealed_through st, lh_durable = l_durable_through st, lh_next = l_next_seal st,
     lh_ended = l_ended st, lh_leading = empty_shape (l_leading st)\<rparr>"

definition lshapes :: "(key, 'e lineage_state) table \<Rightarrow> (key, 'e lshape) table" where
  "lshapes t = map (\<lambda>e. (fst e, lineage_shape (snd e))) t"

definition sshapes :: "(key \<times> nat, 'e seal) table \<Rightarrow> (key \<times> nat, 'e sshape) table" where
  "sshapes t = map (\<lambda>e. (fst e, seal_shape (snd e))) t"

text \<open>When each seal ahead of a lineage's mark was made and how far it goes, in order.\<close>

definition points :: "'e empty_shape \<Rightarrow> (key \<times> nat, 'e sshape) table \<Rightarrow> key \<Rightarrow> (nat \<times> 'e) list" where
  "points lead sl l =
     opt_list lead @
     concat (map (\<lambda>e. (ss_made (snd e), ss_through (snd e)) # opt_list (ss_trailing (snd e)))
       (filter (\<lambda>e. fst (fst e) = l) sl))"

definition points_inv :: "nat \<Rightarrow> 'e::linorder lshape \<Rightarrow> (nat \<times> 'e) list \<Rightarrow> bool" where
  "points_inv made h ps \<longleftrightarrow>
     lh_durable h \<le> lh_sealed h \<and>
     sorted_wrt (\<lambda>p q. fst p < fst q \<and> snd p < snd q) ps \<and>
     (\<forall>p \<in> set ps. fst p < made \<and> lh_durable h < Some (snd p) \<and> Some (snd p) \<le> lh_sealed h)"

definition shapes_inv ::
  "(key, 'e::linorder lshape) table \<Rightarrow> (key \<times> nat, 'e sshape) table \<Rightarrow> nat \<Rightarrow> nat \<Rightarrow> bool" where
  "shapes_inv ls sl made nxt \<longleftrightarrow>
     tsorted ls \<and> (\<forall>k \<in> set (keys ls). k < nxt) \<and> tsorted sl \<and>
     (\<forall>e \<in> set sl. ss_seq (snd e) = snd (fst e) \<and> fst (fst e) < nxt \<and>
        (\<forall>h. map_of ls (fst (fst e)) = Some h \<longrightarrow> snd (fst e) < lh_next h)) \<and>
     (\<forall>e \<in> set ls. \<not> lh_ended (snd e) \<longrightarrow> points_inv made (snd e) (points (lh_leading (snd e)) sl (fst e)))"

definition marks_inv :: "'e::linorder durability \<Rightarrow> bool" where
  "marks_inv d \<longleftrightarrow> shapes_inv (lshapes (lineages d)) (sshapes (seals d)) (seals_made d) (next_lineage d)"

section \<open>Operations that keep the shape\<close>

definition same_shape :: "'e durability \<Rightarrow> 'e durability \<Rightarrow> bool" where
  "same_shape d d' \<longleftrightarrow> lshapes (lineages d') = lshapes (lineages d) \<and> sshapes (seals d') = sshapes (seals d) \<and>
     seals_made d' = seals_made d \<and> next_lineage d' = next_lineage d"

lemma same_shape_refl [simp]: "same_shape d d"
  by (simp add: same_shape_def)

lemma same_shape_trans: "same_shape a b \<Longrightarrow> same_shape b c \<Longrightarrow> same_shape a c"
  by (simp add: same_shape_def)

lemma same_shape_inv: "same_shape d d' \<Longrightarrow> marks_inv d' = marks_inv d"
  by (simp add: same_shape_def marks_inv_def)

lemma same_shape_fields:
  "lineages d' = lineages d \<Longrightarrow> seals d' = seals d \<Longrightarrow> seals_made d' = seals_made d \<Longrightarrow>
   next_lineage d' = next_lineage d \<Longrightarrow> same_shape d d'"
  by (simp add: same_shape_def)

lemma fold_same_shape:
  assumes "\<And>x s. same_shape (p s) (p (f x s))"
  shows "same_shape (p s) (p (fold f xs s))"
proof (induction xs arbitrary: s)
  case (Cons x xs)
  show ?case using assms [of s x] Cons [of "f x s"] by (auto intro: same_shape_trans)
qed simp

lemma lshapes_tmod:
  "(\<And>st. lineage_shape (f st) = lineage_shape st) \<Longrightarrow> lshapes (tmod k f t) = lshapes t"
  by (auto simp: lshapes_def tmod_def)

lemma sshapes_tmod: "(\<And>s. seal_shape (f s) = seal_shape s) \<Longrightarrow> sshapes (tmod k f t) = sshapes t"
  by (auto simp: sshapes_def tmod_def)

lemma release_heals_shape [simp]: "lshapes (lineages (release_heals l made through d)) = lshapes (lineages d)"
  by (simp add: release_heals_def Let_def lshapes_tmod lineage_shape_def)

lemma start_seal_shape: "same_shape (snd (snd r)) (snd (snd (start_seal l s r)))"
proof -
  have "seals (snd (snd (start_seal l s r))) = tmod (l, s_seq s)
      (\<lambda>s'. s'\<lparr>s_stage := Flushing (st_unanswered (fst (fold (name_write l (s_seq s) (s_through s)) (writes (snd (snd r)))
        (\<lparr>st_unanswered = 0, st_touched = [], st_flags = fst r, st_flushes = du_flushes (fst (snd r))\<rparr>, snd (snd r))))) False\<rparr>)
      (seals (snd (snd r)))"
    by (simp add: start_seal_def case_prod_beta Let_def)
  then show ?thesis by (simp add: same_shape_def sshapes_tmod seal_shape_def)
qed

lemma start_each_shape: "same_shape (snd (snd r)) (snd (snd (start_each l oldest es r)))"
proof (induction es arbitrary: r)
  case (Cons e es)
  show ?case
    using Cons [of r] Cons [of "start_seal l (snd e) r"] start_seal_shape [of r l "snd e"]
    by (auto intro: same_shape_trans)
qed simp

lemma start_seals_shape: "same_shape (snd s) (snd (start_seals l s))"
  using start_each_shape [of "(no_flags, s)" l]
  by (simp add: start_seals_def case_prod_beta) (simp add: same_shape_def)

lemma finish_empty_shape [simp]: "empty_shape (fst (finish_empty oldest e lst)) = empty_shape e"
  by (simp add: finish_empty_def empty_shape_def split: option.split)

lemma finish_trailing_shape [simp]: "sshapes (fst (finish_trailing oldest es r)) = sshapes (fst r)"
  by (induction oldest es r rule: finish_trailing.induct) (simp_all add: sshapes_tmod seal_shape_def)

lemma finish_empties_shape: "same_shape d (finish_empties l d)"
  by (cases "map_of (lineages d) l")
    (simp_all add: finish_empties_def case_prod_beta Let_def same_shape_def lshapes_tmod lineage_shape_def
      split: option.split)

lemma finish_each_shape: "same_shape (snd r) (snd (finish_each l es r))"
proof (induction es arbitrary: r)
  case (Cons e es)
  show ?case
    by (cases r; cases "finishable (snd r) l (snd e)")
      (use Cons in \<open>auto simp: same_shape_def sshapes_tmod seal_shape_def\<close>)
qed simp

lemma finish_seals_shape: "same_shape d (finish_seals l d)"
  using finish_each_shape [of "(None, d)" l "seals_of (seals d) l"]
  by (auto simp: finish_seals_def case_prod_beta same_shape_def split: option.split)

lemma advance_seals_shape: "same_shape (snd s) (snd (advance_seals l s))"
  unfolding advance_seals_def case_prod_beta snd_conv
  by (rule same_shape_trans [OF start_seals_shape same_shape_trans [OF finish_empties_shape finish_seals_shape]])

lemma answer_blocked_shape: "same_shape (snd s) (snd (answer_blocked l p s))"
  by (cases p)
    (auto simp: answer_blocked_def answer_at_def same_shape_def sshapes_tmod lshapes_tmod seal_shape_def
      lineage_shape_def answer_empty_def empty_shape_def option.map_comp comp_def split: option.split)

lemma part_answered_shape: "same_shape d (part_answered l sq pt outcome d)"
  by (cases "map_of (flush_pairs d) (l, sq, pt)"; cases "flush_part_of pt (served_names d)";
      cases "map_of (seals d) (l, sq)")
    (simp_all add: part_answered_def Let_def same_shape_def sshapes_tmod seal_shape_def)

lemma answer_shape: "answer l through file bad d = Inr (sq, doms, d') \<Longrightarrow> same_shape d d'"
  by (auto simp: answer_def same_shape_def sshapes_tmod seal_shape_def split: option.splits seal_stage.splits)

lemma provider_answer_shape: "provider_answer l sq x ok d = Inr d' \<Longrightarrow> same_shape d d'"
  by (auto simp: provider_answer_def same_shape_def sshapes_tmod seal_shape_def
      split: option.splits seal_stage.splits if_splits)

lemma end_lineage_pairs_shape: "same_shape d (end_lineage_pairs l d)"
  by (auto simp: end_lineage_pairs_def take_pairs_def Let_def same_shape_def lshapes_tmod lineage_shape_def
      sshapes_def seal_shape_def empty_shape_def option.map_comp comp_def split: prod.splits)

lemma fold_end_flush_upd:
  "(fold (\<lambda>((l, sq, pt), pair) d. case flush_part_of pt (served_names d) of
      None \<Rightarrow> d | Some shown \<Rightarrow> end_flush l pair shown outcome d) ps d)\<lparr>diags := x1\<rparr> = d\<lparr>diags := x1\<rparr>"
proof (induction ps arbitrary: d)
  case (Cons p ps)
  obtain l sq pt pair where p: "p = ((l, sq, pt), pair)" by (metis prod_cases3 surj_pair)
  show ?case
    by (cases "flush_part_of pt (served_names d)") (simp_all add: p Cons end_flush_upd)
qed simp

lemmas fold_end_flush_frame [simp] = fold_end_flush_upd [unfolded durability_eq, simplified]

lemma fold_end_lineage_pairs_upd:
  "(fold end_lineage_pairs ls d)\<lparr>lineages := x1, seals := x2, diags := x3\<rparr> = d\<lparr>lineages := x1, seals := x2, diags := x3\<rparr>"
  by (induction ls arbitrary: d) (simp_all add: durability_eq)

lemmas fold_end_lineage_pairs_frame [simp] = fold_end_lineage_pairs_upd [unfolded durability_eq, simplified]

lemma end_pairs_upd:
  "(end_pairs only d)\<lparr>lineages := x1, seals := x2, flush_pairs := x3, diags := x4\<rparr> =
   d\<lparr>lineages := x1, seals := x2, flush_pairs := x3, diags := x4\<rparr>"
  by (simp add: durability_eq end_pairs_def Let_def)

lemmas end_pairs_frame [simp] = end_pairs_upd [unfolded durability_eq, simplified]

lemma end_pairs_shape: "same_shape d (end_pairs only d)"
  unfolding end_pairs_def Let_def
  by (rule same_shape_trans [OF _ fold_same_shape [where p = "\<lambda>d. d", OF end_lineage_pairs_shape]])
    (simp add: same_shape_def)

section \<open>Operations on one lineage\<close>

lemma keys_lshapes [simp]: "keys (lshapes t) = keys t"
  by (simp add: lshapes_def)

lemma keys_sshapes [simp]: "keys (sshapes t) = keys t"
  by (simp add: sshapes_def)

lemma map_of_lshapes: "map_of (lshapes t) k = map_option lineage_shape (map_of t k)"
  unfolding lshapes_def by (induction t) auto

lemma map_of_sshapes: "map_of (sshapes t) k = map_option seal_shape (map_of t k)"
  unfolding sshapes_def by (induction t) auto

lemma tsorted_map_of: "tsorted t \<Longrightarrow> (k, v) \<in> set t \<longleftrightarrow> map_of t k = Some v"
  by (rule map_of_eq_Some_iff [symmetric]) (simp add: tsorted_def strict_sorted_iff)

lemma points_inv_made: "points_inv made h ps \<Longrightarrow> made \<le> made' \<Longrightarrow> points_inv made' h ps"
  by (auto simp: points_inv_def)

lemma points_filter:
  "filter (\<lambda>e. fst (fst e) = k) sl' = filter (\<lambda>e. fst (fst e) = k) sl \<Longrightarrow> points lead sl' k = points lead sl k"
  by (simp add: points_def)

text \<open>What must hold after a change to one lineage and its seals alone.\<close>

lemma shapes_inv_change:
  assumes inv: "shapes_inv ls sl made nxt" and h: "map_of ls l = Some h" and made: "made \<le> made'"
    and sl': "tsorted sl'" "\<forall>k. k \<noteq> l \<longrightarrow> filter (\<lambda>e. fst (fst e) = k) sl' = filter (\<lambda>e. fst (fst e) = k) sl"
      "\<forall>e \<in> set sl'. fst (fst e) = l \<longrightarrow> ss_seq (snd e) = snd (fst e) \<and> snd (fst e) < lh_next (f h)"
    and pts: "\<not> lh_ended (f h) \<longrightarrow> points_inv made' (f h) (points (lh_leading (f h)) sl' l)"
  shows "shapes_inv (tmod l f ls) sl' made' nxt"
proof -
  have others: "e \<in> set sl" if "e \<in> set sl'" "fst (fst e) \<noteq> l" for e
  proof -
    have "e \<in> set (filter (\<lambda>x. fst (fst x) = fst (fst e)) sl')" using that(1) by simp
    then show ?thesis using sl'(2) that(2) by simp
  qed
  have "l < nxt" using inv h unfolding shapes_inv_def by (metis fst_conv image_eqI list.set_map map_of_SomeD)
  then have "fst (fst e) < nxt \<and> (\<forall>h. map_of (tmod l f ls) (fst (fst e)) = Some h \<longrightarrow> snd (fst e) < lh_next h)"
    if "e \<in> set sl'" for e
    using that inv others [OF that] sl'(3) h by (cases "fst (fst e) = l") (auto simp: shapes_inv_def map_of_tmod)
  moreover have "ss_seq (snd e) = snd (fst e)" if "e \<in> set sl'" for e
    using that inv others [OF that] sl'(3) by (cases "fst (fst e) = l") (auto simp: shapes_inv_def)
  moreover have "points_inv made' (snd e) (points (lh_leading (snd e)) sl' (fst e))"
    if e: "e \<in> set (tmod l f ls)" "\<not> lh_ended (snd e)" for e
  proof (cases "fst e = l")
    case True
    have "map_of (tmod l f ls) (fst e) = Some (snd e)"
      using e(1) inv by (metis prod.collapse shapes_inv_def tsorted_map_of tsorted_tmod)
    then have "snd e = f h" using True h by (simp add: map_of_tmod)
    then show ?thesis using pts e(2) True by simp
  next
    case False
    then have "e \<in> set ls" using e(1) by (auto simp: tmod_def split: if_splits)
    then show ?thesis
      using inv e(2) points_filter [of "fst e" sl' sl] sl'(2) False made
      by (auto simp: shapes_inv_def intro: points_inv_made)
  qed
  ultimately show ?thesis using inv sl'(1) unfolding shapes_inv_def by auto
qed

lemma sshapes_seals_of: "sshapes (seals_of t l) = filter (\<lambda>e. fst (fst e) = l) (sshapes t)"
  unfolding seals_of_def tbetween_def sshapes_def filter_map comp_def fst_conv
  by (rule arg_cong [where f = "map _"], rule filter_cong) auto

lemma points_seal_points:
  "points (empty_shape (l_leading st)) (sshapes t) l = map (\<lambda>p. (pt_made p, pt_through p)) (seal_points st t l)"
proof -
  have lead: "opt_list (empty_shape e) = map (\<lambda>p. (pt_made p, pt_through p)) (map empty_point (opt_list e))" for e
    by (cases e) (simp_all add: empty_shape_def opt_list_def empty_point_def)
  show ?thesis
    unfolding points_def seal_points_def sshapes_seals_of [symmetric] map_append lead
    by (simp add: sshapes_def map_concat comp_def seal_shape_def lead case_prod_beta empty_point_def)
qed

lemma filter_tdel: "filter p (tdel k t) = tdel k (filter p t)"
  by (simp add: tdel_def conj_commute)

text \<open>A seal passed: the first of the seals ahead of the mark.\<close>

lemma shapes_pass_leading:
  assumes "shapes_inv ls sl made nxt" and "map_of ls l = Some h" and "\<not> lh_ended h" and "lh_leading h = Some (m, t)"
  shows "shapes_inv (tmod l (\<lambda>h. h\<lparr>lh_leading := None, lh_durable := Some t\<rparr>) ls) sl made nxt"
proof (rule shapes_inv_change [OF assms(1,2)])
  have "(l, h) \<in> set ls" using assms(1,2) by (simp add: shapes_inv_def tsorted_map_of)
  then have *: "points_inv made h (points (lh_leading h) sl l)" using assms(1,3) by (fastforce simp: shapes_inv_def)
  show "\<not> lh_ended (h\<lparr>lh_leading := None, lh_durable := Some t\<rparr>) \<longrightarrow>
    points_inv made (h\<lparr>lh_leading := None, lh_durable := Some t\<rparr>)
      (points (lh_leading (h\<lparr>lh_leading := None, lh_durable := Some t\<rparr>)) sl l)"
    using * by (auto simp: assms(4) points_inv_def points_def opt_list_def)
  show "\<forall>e \<in> set sl. fst (fst e) = l \<longrightarrow> ss_seq (snd e) = snd (fst e) \<and>
    snd (fst e) < lh_next (h\<lparr>lh_leading := None, lh_durable := Some t\<rparr>)"
    using assms(1,2) by (fastforce simp: shapes_inv_def)
qed (use assms(1) in \<open>auto simp: shapes_inv_def\<close>)

lemma shapes_pass_recorded:
  assumes "shapes_inv ls sl made nxt" and "map_of ls l = Some h" and "\<not> lh_ended h" and "lh_leading h = None"
    and "filter (\<lambda>e. fst (fst e) = l) sl = ((l, sq), s) # rest"
  shows "shapes_inv (tmod l (\<lambda>h. h\<lparr>lh_leading := ss_trailing s, lh_durable := Some (ss_through s)\<rparr>) ls)
    (tdel (l, sq) sl) made nxt"
proof (rule shapes_inv_change [OF assms(1,2)])
  have "(l, h) \<in> set ls" using assms(1,2) by (simp add: shapes_inv_def tsorted_map_of)
  then have *: "points_inv made h (points (lh_leading h) sl l)" using assms(1,3) by (fastforce simp: shapes_inv_def)
  have "distinct (keys (filter (\<lambda>e. fst (fst e) = l) sl))"
    using assms(1) tsorted_distinct tsorted_filter unfolding shapes_inv_def by blast
  then have "(l, sq) \<notin> fst ` set rest" by (simp add: assms(5))
  then have rest: "filter (\<lambda>e. fst (fst e) = l) (tdel (l, sq) sl) = rest"
    unfolding filter_tdel assms(5) using tdel_not_in [of "(l, sq)" rest] by (simp add: tdel_def)
  show "\<not> lh_ended (h\<lparr>lh_leading := ss_trailing s, lh_durable := Some (ss_through s)\<rparr>) \<longrightarrow>
    points_inv made (h\<lparr>lh_leading := ss_trailing s, lh_durable := Some (ss_through s)\<rparr>)
      (points (lh_leading (h\<lparr>lh_leading := ss_trailing s, lh_durable := Some (ss_through s)\<rparr>)) (tdel (l, sq) sl) l)"
    using * by (auto simp: assms(4,5) rest points_inv_def points_def opt_list_def)
  show "\<forall>k. k \<noteq> l \<longrightarrow> filter (\<lambda>e. fst (fst e) = k) (tdel (l, sq) sl) = filter (\<lambda>e. fst (fst e) = k) sl"
    by (auto simp: tdel_def intro!: filter_cong)
  show "\<forall>e \<in> set (tdel (l, sq) sl). fst (fst e) = l \<longrightarrow> ss_seq (snd e) = snd (fst e) \<and>
    snd (fst e) < lh_next (h\<lparr>lh_leading := ss_trailing s, lh_durable := Some (ss_through s)\<rparr>)"
    using assms(1,2) by (fastforce simp: shapes_inv_def tdel_def)
qed (use assms(1) in \<open>auto simp: shapes_inv_def\<close>)

text \<open>A seal made: the furthest of them, and the last.\<close>

lemma points_inv_snoc:
  assumes "points_inv made h ps" and "lh_sealed h < Some t" and "h' = h\<lparr>lh_sealed := Some t, lh_next := n, lh_leading := x\<rparr>"
    and "qs = xs @ [(made, t)]" and "ps = xs @ ys"
  shows "points_inv (Suc made) h' qs"
proof -
  have set: "set xs \<subseteq> set ps" using assms(5) by simp
  have "sorted_wrt (\<lambda>p q. fst p < fst q \<and> snd p < snd q) xs"
    using assms(1) by (simp add: points_inv_def assms(5) sorted_wrt_append)
  moreover have "fst p < made \<and> snd p < t" if "p \<in> set xs" for p
  proof -
    have "Some (snd p) \<le> lh_sealed h" "fst p < made" using that set assms(1) by (auto simp: points_inv_def)
    then have "Some (snd p) < Some t" using assms(2) by (blast intro: order.strict_trans1)
    then show ?thesis using \<open>fst p < made\<close> by simp
  qed
  ultimately show ?thesis
    using assms(1,2) set unfolding assms(3,4) points_inv_def
    by (auto simp: sorted_wrt_append less_Suc_eq intro: order_trans less_imp_le)
qed

lemma points_of_inv:
  assumes "shapes_inv ls sl made nxt" and "map_of ls l = Some h" and "\<not> lh_ended h"
  shows "points_inv made h (points (lh_leading h) sl l)"
proof -
  have "(l, h) \<in> set ls" using assms(1,2) by (simp add: shapes_inv_def tsorted_map_of)
  then show ?thesis using assms(1,3) by (fastforce simp: shapes_inv_def)
qed

lemma shapes_make_leading:
  assumes "shapes_inv ls sl made nxt" and "map_of ls l = Some h" and "\<not> lh_ended h" and "lh_sealed h < Some t"
    and "filter (\<lambda>e. fst (fst e) = l) sl = []"
  shows "shapes_inv (tmod l (\<lambda>h. h\<lparr>lh_sealed := Some t, lh_next := lh_next h + 1, lh_leading := Some (made, t)\<rparr>) ls)
    sl (Suc made) nxt"
proof (rule shapes_inv_change [OF assms(1,2)])
  let ?h = "h\<lparr>lh_sealed := Some t, lh_next := lh_next h + 1, lh_leading := Some (made, t)\<rparr>"
  have "points_inv (Suc made) ?h (points (lh_leading ?h) sl l)"
    by (rule points_inv_snoc [OF points_of_inv [OF assms(1-3)] assms(4) refl, where xs = "[]"])
      (simp_all add: points_def assms(5) opt_list_def)
  then show "\<not> lh_ended ?h \<longrightarrow> points_inv (Suc made) ?h (points (lh_leading ?h) sl l)" by blast
  show "\<forall>e \<in> set sl. fst (fst e) = l \<longrightarrow> ss_seq (snd e) = snd (fst e) \<and> snd (fst e) < lh_next ?h"
    using assms(5) by (auto simp: filter_empty_conv)
qed (use assms(1) in \<open>auto simp: shapes_inv_def\<close>)

lemma filter_tmod:
  "filter (\<lambda>e. p (fst e)) (tmod k f t) = tmod k f (filter (\<lambda>e. p (fst e)) t)"
  by (induction t) (auto simp: tmod_def)

lemma shapes_make_trailing:
  assumes "shapes_inv ls sl made nxt" and "map_of ls l = Some h" and "\<not> lh_ended h" and "lh_sealed h < Some t"
    and "filter (\<lambda>e. fst (fst e) = l) sl = xs @ [((l, sq), s)]"
  shows "shapes_inv (tmod l (\<lambda>h. h\<lparr>lh_sealed := Some t, lh_next := lh_next h + 1\<rparr>) ls)
    (tmod (l, sq) (\<lambda>s. s\<lparr>ss_trailing := Some (made, t)\<rparr>) sl) (Suc made) nxt"
proof (rule shapes_inv_change [OF assms(1,2)])
  let ?h = "h\<lparr>lh_sealed := Some t, lh_next := lh_next h + 1\<rparr>"
  let ?sl = "tmod (l, sq) (\<lambda>s. s\<lparr>ss_trailing := Some (made, t)\<rparr>) sl"
  have "distinct (keys (filter (\<lambda>e. fst (fst e) = l) sl))"
    using assms(1) tsorted_distinct tsorted_filter unfolding shapes_inv_def by blast
  then have "(l, sq) \<notin> fst ` set xs" by (auto simp: assms(5))
  then have fl: "filter (\<lambda>e. fst (fst e) = l) ?sl = xs @ [((l, sq), s\<lparr>ss_trailing := Some (made, t)\<rparr>)]"
    using tmod_not_in [of "(l, sq)" xs] by (simp add: filter_tmod [of "\<lambda>k. fst k = l"] assms(5)) (simp add: tmod_def)
  have "points_inv (Suc made) ?h (points (lh_leading ?h) ?sl l)"
    by (rule points_inv_snoc [OF points_of_inv [OF assms(1-3)] assms(4), where x = "lh_leading h" and
          xs = "opt_list (lh_leading h) @ concat (map (\<lambda>e. (ss_made (snd e), ss_through (snd e)) # opt_list (ss_trailing (snd e))) xs) @
             [(ss_made s, ss_through s)]" and ys = "opt_list (ss_trailing s)"])
      (simp_all add: points_def fl assms(5) opt_list_def)
  then show "\<not> lh_ended ?h \<longrightarrow> points_inv (Suc made) ?h (points (lh_leading ?h) ?sl l)" by blast
  show "\<forall>e \<in> set ?sl. fst (fst e) = l \<longrightarrow> ss_seq (snd e) = snd (fst e) \<and> snd (fst e) < lh_next ?h"
    using assms(1,2) by (fastforce simp: shapes_inv_def tmod_def)
  show "\<forall>k. k \<noteq> l \<longrightarrow> filter (\<lambda>e. fst (fst e) = k) ?sl = filter (\<lambda>e. fst (fst e) = k) sl"
    by (auto simp: filter_tmod [of "\<lambda>k. fst k = _"] intro!: tmod_not_in)
qed (use assms(1) in \<open>auto simp: shapes_inv_def\<close>)

lemma tput_other: "fst k \<noteq> l \<Longrightarrow> filter (\<lambda>e. fst (fst e) = l) (tput k v t) = filter (\<lambda>e. fst (fst e) = l) t"
  by (induction k v t rule: tput.induct) auto

lemma tput_last:
  assumes "tsorted t" and "\<forall>e \<in> set t. fst (fst e) = l \<longrightarrow> snd (fst e) < sq"
  shows "filter (\<lambda>e. fst (fst e) = l) (tput (l, sq) v t) = filter (\<lambda>e. fst (fst e) = l) t @ [((l, sq), v)]"
  using assms
proof (induction t)
  case (Cons x t)
  obtain a b where x: "x = (a, b)" by fastforce
  have above: "fst (fst e) \<noteq> l" if "(l, sq) < a" "e \<in> set (x # t)" for e
  proof
    assume l: "fst (fst e) = l"
    have "a \<le> fst e" using Cons(2) that(2) by (auto simp: x tsorted_Cons)
    then have "(l, sq) < fst e" using that(1) by simp
    then have "sq < snd (fst e)" using l by (auto simp: less_prod_def)
    then show False using Cons(3) that(2) l by fastforce
  qed
  show ?case
  proof (cases "(l, sq) < a")
    case True
    then have "filter (\<lambda>e. fst (fst e) = l) (x # t) = []" using above by (simp add: filter_empty_conv)
    then show ?thesis using True by (auto simp: x split: if_splits)
  next
    case False
    have "(l, sq) \<noteq> a" using Cons(3) by (auto simp: x)
    then show ?thesis using False Cons by (auto simp: x tsorted_Cons)
  qed
qed simp

lemma shapes_make_recorded:
  assumes "shapes_inv ls sl made nxt" and "map_of ls l = Some h" and "\<not> lh_ended h" and "lh_sealed h < Some t"
  shows "shapes_inv (tmod l (\<lambda>h. h\<lparr>lh_sealed := Some t, lh_next := lh_next h + 1\<rparr>) ls)
    (tput (l, lh_next h) \<lparr>ss_seq = lh_next h, ss_made = made, ss_through = t, ss_trailing = None\<rparr> sl) (Suc made) nxt"
proof (rule shapes_inv_change [OF assms(1,2)])
  let ?h = "h\<lparr>lh_sealed := Some t, lh_next := lh_next h + 1\<rparr>"
  let ?s = "\<lparr>ss_seq = lh_next h, ss_made = made, ss_through = t, ss_trailing = None\<rparr>"
  let ?sl = "tput (l, lh_next h) ?s sl"
  have own: "\<forall>e \<in> set sl. fst (fst e) = l \<longrightarrow> ss_seq (snd e) = snd (fst e) \<and> snd (fst e) < lh_next h"
    and sorted: "tsorted sl" using assms(1,2) by (fastforce simp: shapes_inv_def)+
  have fl: "filter (\<lambda>e. fst (fst e) = l) ?sl = filter (\<lambda>e. fst (fst e) = l) sl @ [((l, lh_next h), ?s)]"
    by (rule tput_last [OF sorted]) (use own in blast)
  have "points_inv (Suc made) ?h (points (lh_leading ?h) ?sl l)"
    by (rule points_inv_snoc [OF points_of_inv [OF assms(1-3)] assms(4), where x = "lh_leading h" and
          xs = "points (lh_leading h) sl l" and ys = "[]"])
      (simp_all add: points_def fl opt_list_def)
  then show "\<not> lh_ended ?h \<longrightarrow> points_inv (Suc made) ?h (points (lh_leading ?h) ?sl l)" by blast
  show "\<forall>e \<in> set ?sl. fst (fst e) = l \<longrightarrow> ss_seq (snd e) = snd (fst e) \<and> snd (fst e) < lh_next ?h"
  proof (intro ballI impI)
    fix e assume "e \<in> set ?sl" and "fst (fst e) = l"
    then have "e \<in> set (filter (\<lambda>e. fst (fst e) = l) ?sl)" by simp
    then show "ss_seq (snd e) = snd (fst e) \<and> snd (fst e) < lh_next ?h"
      unfolding fl using own by (auto intro: less_SucI)
  qed
  show "\<forall>k. k \<noteq> l \<longrightarrow> filter (\<lambda>e. fst (fst e) = k) ?sl = filter (\<lambda>e. fst (fst e) = k) sl"
    by (auto simp: tput_other)
qed (use assms(1) in \<open>auto simp: shapes_inv_def\<close>)

section \<open>The marks and the seal points only rise\<close>

definition rises :: "'e::linorder durability \<Rightarrow> 'e durability \<Rightarrow> bool" where
  "rises d d' \<longleftrightarrow> next_lineage d \<le> next_lineage d' \<and> seals_made d \<le> seals_made d' \<and>
     (\<forall>l st'. map_of (lineages d') l = Some st' \<longrightarrow>
        (case map_of (lineages d) l of
           None \<Rightarrow> next_lineage d \<le> l
         | Some st \<Rightarrow> l_durable_through st \<le> l_durable_through st' \<and> l_sealed_through st \<le> l_sealed_through st' \<and>
                     l_next_seal st \<le> l_next_seal st' \<and> (l_ended st \<longrightarrow> l_ended st')))"

text \<open>A change keeps the seals in order, and raises the marks and the seal points or leaves them.\<close>

definition advances :: "'e::linorder durability \<Rightarrow> 'e durability \<Rightarrow> bool" where
  "advances d d' \<longleftrightarrow> (marks_inv d \<longrightarrow> marks_inv d' \<and> rises d d')"

lemma marks_inv_next: "marks_inv d \<Longrightarrow> map_of (lineages d) l = Some st \<Longrightarrow> l < next_lineage d"
  unfolding marks_inv_def shapes_inv_def keys_lshapes by (metis fst_conv image_eqI list.set_map map_of_SomeD)

lemma rises_trans:
  assumes "marks_inv a" and ab: "rises a b" and bc: "rises b c"
  shows "rises a c"
  unfolding rises_def
proof (intro conjI allI impI)
  fix l st'' assume c: "map_of (lineages c) l = Some st''"
  show "case map_of (lineages a) l of
      None \<Rightarrow> next_lineage a \<le> l
    | Some st \<Rightarrow> l_durable_through st \<le> l_durable_through st'' \<and> l_sealed_through st \<le> l_sealed_through st'' \<and>
                l_next_seal st \<le> l_next_seal st'' \<and> (l_ended st \<longrightarrow> l_ended st'')"
  proof (cases "map_of (lineages b) l")
    case None
    then have "next_lineage b \<le> l" using bc c unfolding rises_def by fastforce
    then have "next_lineage a \<le> l" using ab by (simp add: rises_def)
    moreover have "map_of (lineages a) l = None"
      using marks_inv_next [OF assms(1), of l] \<open>next_lineage a \<le> l\<close> by (cases "map_of (lineages a) l") auto
    ultimately show ?thesis by simp
  next
    case (Some st')
    then have "l_durable_through st' \<le> l_durable_through st'' \<and> l_sealed_through st' \<le> l_sealed_through st'' \<and>
        l_next_seal st' \<le> l_next_seal st'' \<and> (l_ended st' \<longrightarrow> l_ended st'')"
      using bc c unfolding rises_def by fastforce
    then show ?thesis
      using ab Some unfolding rises_def by (fastforce split: option.splits intro: order_trans)
  qed
qed (use ab bc in \<open>auto simp: rises_def\<close>)

lemma advances_refl [simp]: "advances d d"
  by (simp add: advances_def rises_def split: option.split)

lemma advances_trans: "advances a b \<Longrightarrow> advances b c \<Longrightarrow> advances a c"
  unfolding advances_def using rises_trans by blast

lemma fold_advances: "(\<And>x s. advances (p s) (p (f x s))) \<Longrightarrow> advances (p s) (p (fold f xs s))"
proof (induction xs arbitrary: s)
  case (Cons x xs)
  show ?case using Cons(1) [of "f x s"] Cons(2) advances_trans [OF Cons(2) [of s x]] by simp
qed simp

lemma lshapes_same:
  assumes "lshapes t' = lshapes t" and "map_of t' l = Some st'"
  shows "\<exists>st. map_of t l = Some st \<and> lineage_shape st = lineage_shape st'"
  using map_of_lshapes [of t l] map_of_lshapes [of t' l] assms by (cases "map_of t l") auto

lemma advances_same_shape: "same_shape d d' \<Longrightarrow> advances d d'"
  unfolding advances_def rises_def
  using same_shape_inv [of d d'] lshapes_same [of "lineages d'" "lineages d"]
  by (fastforce simp: same_shape_def lineage_shape_def)

lemma advances_fields:
  "lineages d' = lineages d \<Longrightarrow> seals d' = seals d \<Longrightarrow> seals_made d' = seals_made d \<Longrightarrow>
   next_lineage d' = next_lineage d \<Longrightarrow> advances d d'"
  by (intro advances_same_shape same_shape_fields)

text \<open>A change to one lineage that raises what it has raises.\<close>

lemma rises_tmod:
  assumes "lineages d' = tmod l f (lineages d)" and "seals_made d \<le> seals_made d'" and "next_lineage d' = next_lineage d"
    and "\<And>st. map_of (lineages d) l = Some st \<Longrightarrow> l_durable_through st \<le> l_durable_through (f st) \<and>
       l_sealed_through st \<le> l_sealed_through (f st) \<and> l_next_seal st \<le> l_next_seal (f st) \<and> (l_ended st \<longrightarrow> l_ended (f st))"
  shows "rises d d'"
  using assms unfolding rises_def by (auto simp: map_of_tmod split: option.splits if_splits)

section \<open>Advancing\<close>

definition live_in :: "'e durability \<Rightarrow> key \<Rightarrow> bool" where
  "live_in d l \<longleftrightarrow> is_some_and (\<lambda>st. \<not> l_ended st) (map_of (lineages d) l)"

lemma lshapes_tmod_gen:
  "(\<And>st. lineage_shape (f st) = g (lineage_shape st)) \<Longrightarrow> lshapes (tmod k f t) = tmod k g (lshapes t)"
  by (simp add: lshapes_def tmod_def)

lemma sshapes_tmod_gen: "(\<And>s. seal_shape (f s) = g (seal_shape s)) \<Longrightarrow> sshapes (tmod k f t) = tmod k g (sshapes t)"
  by (simp add: sshapes_def tmod_def)

lemma sshapes_tdel: "sshapes (tdel k t) = tdel k (sshapes t)"
  by (simp add: sshapes_def tdel_def filter_map comp_def)

lemma first_seals_of:
  assumes "first_of (seals_of t l) = Some (k, s)"
  shows "\<exists>rest. filter (\<lambda>e. fst (fst e) = l) (sshapes t) = (k, seal_shape s) # rest" and "fst k = l"
proof -
  obtain rest where *: "seals_of t l = (k, s) # rest"
    using assms by (auto simp: first_of_def split: list.splits)
  then show "\<exists>rest. filter (\<lambda>e. fst (fst e) = l) (sshapes t) = (k, seal_shape s) # rest"
    unfolding sshapes_seals_of [symmetric] by (simp add: sshapes_def)
  have "(k, s) \<in> set (seals_of t l)" by (simp add: *)
  then show "fst k = l" by (auto simp: seals_of_def tbetween_def)
qed

lemma pass_seal_marks:
  assumes inv: "marks_inv d" and st: "map_of (lineages d) l = Some st" "\<not> l_ended st"
    and nx: "next_finished d l st = Some (through, recorded)" and rec: "recorded_seal d l recorded = Some found"
  shows "marks_inv (pass_seal l through recorded found d)" and "l_durable_through st < Some through"
proof -
  let ?ls = "lshapes (lineages d)" and ?sl = "sshapes (seals d)"
  have h: "map_of ?ls l = Some (lineage_shape st)" "\<not> lh_ended (lineage_shape st)"
    using st by (simp_all add: map_of_lshapes lineage_shape_def)
  have sh: "shapes_inv ?ls ?sl (seals_made d) (next_lineage d)" using inv by (simp add: marks_inv_def)
  have pts: "points_inv (seals_made d) (lineage_shape st) (points (lh_leading (lineage_shape st)) ?sl l)"
    by (rule points_of_inv [OF sh h])
  have "marks_inv (pass_seal l through recorded found d) \<and> l_durable_through st < Some through"
  proof (cases recorded)
    case None
    then obtain e where e: "l_leading st = Some e" "em_through e = through"
      using nx by (auto simp: next_finished_def split: option.splits if_splits prod.splits)
    then have lead: "lh_leading (lineage_shape st) = Some (em_made e, through)"
      by (simp add: lineage_shape_def empty_shape_def)
    have "lshapes (tmod l (\<lambda>st. st\<lparr>l_leading := None, l_durable_through := Some through\<rparr>) (lineages d)) =
        tmod l (\<lambda>h. h\<lparr>lh_leading := None, lh_durable := Some through\<rparr>) ?ls"
      by (rule lshapes_tmod_gen) (simp add: lineage_shape_def empty_shape_def)
    then have "marks_inv (pass_seal l through recorded found d)"
      using shapes_pass_leading [OF sh h lead] None by (simp add: marks_inv_def pass_seal_def)
    moreover have "l_durable_through st < Some through"
      using pts lead by (auto simp: points_inv_def points_def opt_list_def lineage_shape_def)
    ultimately show ?thesis ..
  next
    case (Some sq)
    obtain k s where none: "l_leading st = None" and first: "first_of (seals_of (seals d) l) = Some (k, s)"
      and s: "s_through s = through" "s_seq s = sq"
      using nx Some by (auto simp: next_finished_def split: option.splits if_splits prod.splits)
    obtain rest where rest: "filter (\<lambda>e. fst (fst e) = l) ?sl = (k, seal_shape s) # rest" and kl: "fst k = l"
      using first_seals_of [OF first] by blast
    have "(k, seal_shape s) \<in> set (filter (\<lambda>e. fst (fst e) = l) ?sl)" by (simp add: rest)
    then have mem: "(k, seal_shape s) \<in> set ?sl" by simp
    then have "snd k = sq" using sh s(2) by (fastforce simp: shapes_inv_def seal_shape_def)
    then have k: "k = (l, sq)" using kl by (simp add: prod_eq_iff)
    have "map_of ?sl k = Some (seal_shape s)" using mem sh by (simp add: shapes_inv_def tsorted_map_of)
    then obtain s' where found: "found = Some s'" and s': "seal_shape s' = seal_shape s"
      using rec Some k by (auto simp: recorded_seal_def map_of_sshapes)
    have lead: "lh_leading (lineage_shape st) = None" using none by (simp add: lineage_shape_def empty_shape_def)
    have tr: "empty_shape (s_trailing s') = ss_trailing (seal_shape s)" using s' by (simp add: seal_shape_def)
    have "lshapes (tmod l (\<lambda>st. st\<lparr>l_leading := s_trailing s', l_durable_through := Some through\<rparr>) (lineages d)) =
        tmod l (\<lambda>h. h\<lparr>lh_leading := ss_trailing (seal_shape s), lh_durable := Some (ss_through (seal_shape s))\<rparr>) ?ls"
      by (rule lshapes_tmod_gen) (simp add: lineage_shape_def tr s(1) seal_shape_def)
    then have "marks_inv (pass_seal l through recorded found d)"
      using shapes_pass_recorded [OF sh h lead rest [unfolded k]] Some found
      by (simp add: marks_inv_def pass_seal_def case_prod_beta Let_def sshapes_tdel)
    moreover have "l_durable_through st < Some through"
      using pts rest lead s(1) by (auto simp: points_inv_def points_def opt_list_def lineage_shape_def seal_shape_def)
    ultimately show ?thesis ..
  qed
  then show "marks_inv (pass_seal l through recorded found d)" "l_durable_through st < Some through" by blast+
qed

lemma pass_seal_lineages:
  "\<exists>x. lineages (pass_seal l through recorded found d) =
     tmod l (\<lambda>st. st\<lparr>l_leading := x, l_durable_through := Some through\<rparr>) (lineages d)"
  by (cases recorded; cases found) (auto simp: pass_seal_def case_prod_beta Let_def)

lemma mark_step_advances:
  assumes step: "mark_step l s = Some s'" and live: "live_in (snd s) l"
  shows "advances (snd s) (snd s')" and "live_in (snd s') k = live_in (snd s) k"
proof -
  obtain st through recorded found where st: "map_of (lineages (snd s)) l = Some st"
    and nx: "next_finished (snd s) l st = Some (through, recorded)"
    and rec: "recorded_seal (snd s) l recorded = Some found"
    and s': "s' = passed_through l through (fst s, pass_seal l through recorded found (snd s))"
    using mark_step_cases [OF step] by metis
  have ne: "\<not> l_ended st" using live st by (simp add: live_in_def)
  let ?d = "pass_seal l through recorded found (snd s)"
  obtain x where ls: "lineages ?d = tmod l (\<lambda>st. st\<lparr>l_leading := x, l_durable_through := Some through\<rparr>) (lineages (snd s))"
    using pass_seal_lineages by blast
  have "advances (snd s) ?d"
    unfolding advances_def
  proof (intro impI conjI)
    assume inv: "marks_inv (snd s)"
    show "marks_inv ?d" by (rule pass_seal_marks(1) [OF inv st ne nx rec])
    show "rises (snd s) ?d"
      by (rule rises_tmod [OF ls]) (use st pass_seal_marks(2) [OF inv st ne nx rec] in \<open>auto intro: less_imp_le\<close>)
  qed
  then show "advances (snd s) (snd s')"
    unfolding s' by (rule advances_trans) (rule advances_fields; simp)
  show "live_in (snd s') k = live_in (snd s) k"
    by (simp add: live_in_def s' ls map_of_tmod is_some_and_def split: option.split)
qed

definition advances_live :: "'e::linorder durability \<Rightarrow> 'e durability \<Rightarrow> bool" where
  "advances_live d d' \<longleftrightarrow> advances d d' \<and> (\<forall>k. live_in d' k = live_in d k)"

lemma advances_live_refl [simp]: "advances_live d d"
  by (simp add: advances_live_def)

lemma advances_live_trans: "advances_live a b \<Longrightarrow> advances_live b c \<Longrightarrow> advances_live a c"
  by (auto simp: advances_live_def intro: advances_trans)

lemma same_shape_live: "same_shape d d' \<Longrightarrow> live_in d' k = live_in d k"
proof -
  assume "same_shape d d'"
  then have "map_option lineage_shape (map_of (lineages d') k) = map_option lineage_shape (map_of (lineages d) k)"
    by (simp add: same_shape_def flip: map_of_lshapes)
  then show ?thesis
    by (cases "map_of (lineages d') k"; cases "map_of (lineages d) k") (auto simp: live_in_def lineage_shape_def)
qed

lemma same_shape_advances_live: "same_shape d d' \<Longrightarrow> advances_live d d'"
  by (simp add: advances_live_def advances_same_shape same_shape_live)

lemma mark_loop_advances: "live_in (snd s) l \<Longrightarrow> advances_live (snd s) (snd (mark_loop l s))"
proof (induction l s rule: mark_loop.induct)
  case (1 l s)
  show ?case
  proof (cases "mark_step l s")
    case (Some s')
    have "advances_live (snd s) (snd s')"
      using mark_step_advances [OF Some 1(2)] by (simp add: advances_live_def)
    then show ?thesis
      using 1(1) [OF Some] 1(2) Some mark_step_advances(2) [OF Some 1(2)]
      by (auto simp: mark_loop.simps [of l s] intro: advances_live_trans)
  qed (simp add: mark_loop.simps [of l s])
qed

lemma advance_mark_advances: "live_in (snd s) l \<Longrightarrow> advances_live (snd s) (snd (advance_mark l s))"
  unfolding advance_mark_def Let_def
  by (rule advances_live_trans [OF mark_loop_advances same_shape_advances_live])
    (auto intro: fold_same_shape [where p = snd, OF answer_blocked_shape])

lemma fold_advance_mark:
  "\<forall>l \<in> set ls. live_in (snd s) l \<Longrightarrow> advances_live (snd s) (snd (fold advance_mark ls s))"
proof (induction ls arbitrary: s)
  case (Cons l ls)
  have "advances_live (snd s) (snd (advance_mark l s))" using Cons(2) by (simp add: advance_mark_advances)
  then show ?case using Cons(1) [of "advance_mark l s"] Cons(2)
    by (auto simp: advances_live_def intro: advances_trans)
qed simp

lemma live_keys_live: "distinct (keys (lineages d)) \<Longrightarrow> l \<in> set (live_keys d) \<longleftrightarrow> live_in d l"
  by (auto simp: live_keys_def live_in_def is_some_and_iff map_of_eq_Some_iff image_iff)

lemma advance_advances_live:
  assumes "marks_inv (snd s)"
  shows "advances_live (snd s) (snd (advance s))"
proof -
  define lv where "lv = take (c_lineages (cap (snd s))) (live_keys (snd s))"
  define s1 where "s1 = (if c_lineages (cap (snd s)) < length (live_keys (snd s))
    then (fst s, inconsistent ''more live lineages than the lineages declared'' (snd s)) else s)"
  define s2 where "s2 = release_healed (fold advance_seals lv s1)"
  have "same_shape (snd s) (snd s1)" by (simp add: s1_def same_shape_def)
  moreover have "same_shape (snd s1) (snd (fold advance_seals lv s1))"
    by (rule fold_same_shape [where p = snd]) (rule advance_seals_shape)
  moreover have "same_shape (snd (fold advance_seals lv s1)) (snd s2)" by (simp add: s2_def same_shape_def)
  ultimately have s2: "same_shape (snd s) (snd s2)" by (blast intro: same_shape_trans)
  have "distinct (keys (lineages (snd s)))"
    using assms by (auto simp: marks_inv_def shapes_inv_def dest: tsorted_distinct)
  then have "\<forall>l \<in> set lv. live_in (snd s) l" using live_keys_live by (auto simp: lv_def dest: in_set_takeD)
  then have "\<forall>l \<in> set lv. live_in (snd s2) l" using same_shape_live [OF s2] by blast
  then have "advances_live (snd s2) (snd (fold advance_mark lv s2))" by (rule fold_advance_mark)
  moreover have "advance s = fold advance_mark lv s2"
    unfolding advance_def Let_def lv_def s1_def s2_def by (rule refl)
  ultimately show ?thesis
    using advances_live_trans [OF same_shape_advances_live [OF s2]] by metis
qed

lemma advance_advances: "advances (snd s) (snd (advance s))"
  using advance_advances_live [of s] by (auto simp: advances_live_def advances_def)

section \<open>Each operation\<close>

lemma in_flight_advances: "advances d (in_flight a was_held d)"
  by (rule advances_fields)
    (simp_all add: in_flight_def Let_def split: option.split)

end
