(* ===== verification/Durability_Steps.thy ===== *)
theory Durability_Steps
  imports Durability_Marks
begin

text \<open>
  The durability core as a transition system: one transition for each operation the I/O core calls, from
  the state a new core has. Every operation keeps the seals of every lineage in order and moves its mark
  and its seal point up or not at all, so along every run the marks only rise.
\<close>

section \<open>Lineages that end or go\<close>

lemma map_of_tdel_iff: "map_of (tdel k t) j = (if j = k then None else map_of t j)"
  by (induction t) (auto simp: tdel_def)

lemma shapes_tdel:
  assumes "shapes_inv ls sl made nxt"
  shows "shapes_inv (tdel l ls) sl made nxt"
  using assms unfolding shapes_inv_def
  by (auto simp: map_of_tdel_iff tsorted_tdel) (auto simp: tdel_def)

text \<open>The seals of a lineage that has ended may go, and lose what trails them.\<close>

lemma shapes_ended_seals:
  assumes inv: "shapes_inv ls sl made nxt" and ended: "\<And>h. map_of ls l = Some h \<Longrightarrow> lh_ended h"
    and sl': "tsorted sl'" "\<And>k. k \<noteq> l \<Longrightarrow> filter (\<lambda>e. fst (fst e) = k) sl' = filter (\<lambda>e. fst (fst e) = k) sl"
      "\<And>e. e \<in> set sl' \<Longrightarrow> \<exists>x \<in> set sl. fst x = fst e \<and> ss_seq (snd x) = ss_seq (snd e)"
  shows "shapes_inv ls sl' made nxt"
  unfolding shapes_inv_def
proof (intro conjI ballI impI)
  fix e assume e: "e \<in> set ls" "\<not> lh_ended (snd e)"
  have "map_of ls (fst e) = Some (snd e)" using inv e(1) by (metis prod.collapse shapes_inv_def tsorted_map_of)
  then have "fst e \<noteq> l" using ended e(2) by blast
  then show "points_inv made (snd e) (points (lh_leading (snd e)) sl' (fst e))"
    using inv e points_filter [OF sl'(2), of "fst e"] by (auto simp: shapes_inv_def)
next
  fix e assume e: "e \<in> set sl'"
  then obtain x where x: "x \<in> set sl" "fst x = fst e" "ss_seq (snd x) = ss_seq (snd e)" using sl'(3) by blast
  then show "ss_seq (snd e) = snd (fst e)" "fst (fst e) < nxt"
    "\<forall>h. map_of ls (fst (fst e)) = Some h \<longrightarrow> snd (fst e) < lh_next h"
    using inv unfolding shapes_inv_def by metis+
qed (use inv sl'(1) in \<open>auto simp: shapes_inv_def\<close>)

lemma lshapes_tdel: "lshapes (tdel k t) = tdel k (lshapes t)"
  by (simp add: lshapes_def tdel_def filter_map comp_def)

lemma rises_subset:
  assumes "next_lineage d' = next_lineage d" and "seals_made d' = seals_made d"
    and "\<And>l st. map_of (lineages d') l = Some st \<Longrightarrow> map_of (lineages d) l = Some st"
  shows "rises d d'"
  using assms unfolding rises_def by fastforce

lemma tdel_advances:
  assumes "lineages d' = tdel l (lineages d)" and "seals d' = seals d" and "seals_made d' = seals_made d"
    and "next_lineage d' = next_lineage d"
  shows "advances d d'"
  unfolding advances_def
proof (intro impI conjI)
  assume "marks_inv d"
  then show "marks_inv d'" using assms by (simp add: marks_inv_def lshapes_tdel shapes_tdel)
  show "rises d d'"
    by (rule rises_subset) (use assms in \<open>auto simp: map_of_tdel_iff split: if_splits\<close>)
qed

lemma retire_if_drained_advances: "advances d (retire_if_drained l d)"
  unfolding retire_if_drained_def by (auto intro: tdel_advances)

section \<open>Writes and answers\<close>

lemma then_advances: "advances d d' \<Longrightarrow> advances d (snd (advance (due, d')))"
  using advance_advances [of "(due, d')"] by (auto intro: advances_trans)

lemma mark_advances: "advances d (mark op m d)"
  by (rule advances_fields) simp_all

lemma let_go_one_advances: "advances d (let_go_one k d)"
  by (rule advances_fields) simp_all

lemma completed_advances: "advances d (snd (completed op fin d))"
proof (cases "map_of (writes d) (oi_seq op)")
  case (Some w)
  show ?thesis
  proof (cases "w_stage w = InFlight")
    case True
    define ended where "ended = is_none_or l_ended (map_of (lineages d) (w_lineage w))"
    define d1 where "d1 = (case fin of
         Succeeded \<Rightarrow>
           (let d0 = d\<lparr>writes := tmod (oi_seq op) (\<lambda>w. w\<lparr>w_stage := Completed\<rparr>) (writes d)\<rparr>
            in if ended then let_go_one (oi_seq op) d0 else d0)
       | WriteFailed fault \<Rightarrow> mark op (Nullified fault) (let_go_one (oi_seq op) d))"
    define d2 where "d2 = d1\<lparr>in_flight_by_epoch := snd (count_down (w_lineage w) (w_epoch w) (in_flight_by_epoch d1))\<rparr>"
    have "advances d d2"
      by (rule advances_fields; cases fin) (simp_all add: d2_def d1_def Let_def)
    then have "advances d (if ended then retire_if_drained (w_lineage w) d2 else d2)"
      using retire_if_drained_advances by (auto intro: advances_trans)
    then have "advances d (snd (advance (fresh_due, if ended then retire_if_drained (w_lineage w) d2 else d2)))"
      by (rule then_advances)
    moreover have "completed op fin d =
        advance (fresh_due, if ended then retire_if_drained (w_lineage w) d2 else d2)"
      unfolding completed_def Some option.case Let_def d2_def d1_def ended_def by (simp only: True simp_thms if_False)
    ultimately show ?thesis by simp
  qed (auto simp: completed_def Some intro: advances_fields)
qed (auto simp: completed_def intro: advances_fields)

lemma drop_each_upd:
  "(snd (drop_each es r))\<lparr>dwindow := x1, seal_domains := x2\<rparr> = (snd r)\<lparr>dwindow := x1, seal_domains := x2\<rparr>"
  by (induction es r rule: drop_each.induct) (simp_all add: case_prod_beta)

lemmas drop_each_frame [simp] = drop_each_upd [unfolded durability_eq, simplified]

lemma drop_seals_upd:
  "(drop_seals l d)\<lparr>seals := x1, dwindow := x2, seal_domains := x3, diags := x4\<rparr> =
   d\<lparr>seals := x1, dwindow := x2, seal_domains := x3, diags := x4\<rparr>"
  by (simp add: durability_eq drop_seals_def Let_def case_prod_beta)

lemmas drop_seals_frame [simp] = drop_seals_upd [unfolded durability_eq, simplified]

lemma drop_seals_seals: "seals (drop_seals l d) = filter (\<lambda>e. \<not> (fst (fst e) = l \<and> \<not> flush_out (snd e))) (seals d)"
  by (simp add: drop_seals_def Let_def case_prod_beta)

lemma tsorted_filter_sshapes: "tsorted (sshapes t) \<Longrightarrow> tsorted (sshapes (filter p t))"
proof -
  assume "tsorted (sshapes t)"
  then have "tsorted t" by (simp add: tsorted_def)
  then have "tsorted (filter p t)" by (rule tsorted_filter)
  then show ?thesis by (simp add: tsorted_def)
qed

lemma drop_seals_advances:
  assumes "\<not> live_in d l"
  shows "advances d (drop_seals l d)"
  unfolding advances_def
proof (intro impI conjI)
  assume inv: "marks_inv d"
  have "shapes_inv (lshapes (lineages d)) (sshapes (seals (drop_seals l d))) (seals_made d) (next_lineage d)"
  proof (rule shapes_ended_seals [where l = l])
    show "shapes_inv (lshapes (lineages d)) (sshapes (seals d)) (seals_made d) (next_lineage d)"
      using inv by (simp add: marks_inv_def)
    then show "tsorted (sshapes (seals (drop_seals l d)))"
      unfolding drop_seals_seals by (auto simp: shapes_inv_def intro: tsorted_filter_sshapes)
    show "lh_ended h" if "map_of (lshapes (lineages d)) l = Some h" for h
      using that assms by (auto simp: map_of_lshapes live_in_def lineage_shape_def)
    show "filter (\<lambda>e. fst (fst e) = k) (sshapes (seals (drop_seals l d))) = filter (\<lambda>e. fst (fst e) = k) (sshapes (seals d))"
      if "k \<noteq> l" for k
      unfolding drop_seals_seals sshapes_def filter_map comp_def
      using that by (auto intro!: arg_cong [where f = "map _"] filter_cong)
    show "\<exists>x \<in> set (sshapes (seals d)). fst x = fst e \<and> ss_seq (snd x) = ss_seq (snd e)"
      if "e \<in> set (sshapes (seals (drop_seals l d)))" for e
      using that by (force simp: drop_seals_seals sshapes_def)
  qed
  then show "marks_inv (drop_seals l d)" by (simp add: marks_inv_def)
  show "rises d (drop_seals l d)" by (rule rises_subset) simp_all
qed

lemma cover_advances: "advances d (cover l sq d)"
  by (rule advances_fields) simp_all

lemma observe_advances: "advances d d' \<Longrightarrow> advances d (snd (advance (snd (observe cause r only (due, d')))))"
proof -
  assume "advances d d'"
  moreover have "advances d' (snd (snd (observe cause r only (due, d'))))" by (rule advances_fields) simp_all
  ultimately have "advances d (snd (snd (observe cause r only (due, d'))))" by (rule advances_trans)
  then show ?thesis by (metis prod.collapse then_advances)
qed

lemma flushed_advances: "advances d (snd (flushed l through file fault d))"
proof (cases "map_of (lineages d) l")
  case st: (Some st)
  show ?thesis
  proof (cases "answer l through file (fault \<noteq> None) d")
    case (Inl what)
    then show ?thesis
      by (auto simp: flushed_def st intro: advances_fields then_advances [OF advances_refl])
  next
    case (Inr r)
    obtain sq doms d1 where r: "r = (sq, doms, d1)" by (cases r)
    note sh = answer_shape [OF Inr [unfolded r]]
    show ?thesis
    proof (cases "l_ended st")
      case True
      let ?d2 = "let_go (\<lambda>w. w_lineage w = l \<and> w_file w = file \<and> w_stage w = Named sq) d1"
      have "advances d ?d2"
        by (rule advances_trans [OF advances_same_shape [OF sh] advances_fields]) simp_all
      moreover have "\<not> live_in ?d2 l"
        using same_shape_live [OF sh, of l] True st by (simp add: live_in_def)
      ultimately have "advances d (drop_seals l ?d2)" by (blast intro: advances_trans drop_seals_advances)
      then show ?thesis
        using st True Inr r
        by (auto simp: flushed_def intro: then_advances advances_trans [OF _ retire_if_drained_advances])
    next
      case False
      have p: "advances d (part_answered l sq pt oc d1)" for pt oc
        by (rule advances_trans [OF advances_same_shape [OF sh] advances_same_shape [OF part_answered_shape]])
      show ?thesis
        using st False Inr r
        by (cases fault) (auto simp: flushed_def intro: then_advances observe_advances p advances_trans [OF p cover_advances])
    qed
  qed
qed (simp add: flushed_def)

lemma provided_advances: "advances d (snd (provided l sq x cause d))"
proof (cases "provider_answer l sq x (cause = None) d")
  case (Inr d1)
  have p: "advances d (part_answered l sq (DomainPart x) oc d1)" for oc
    by (rule advances_trans [OF advances_same_shape [OF provider_answer_shape [OF Inr]]
          advances_same_shape [OF part_answered_shape]])
  show ?thesis
    using Inr
    by (cases cause) (auto simp: provided_def Let_def intro: then_advances observe_advances p advances_trans [OF p cover_advances])
qed (auto simp: provided_def intro: advances_fields)

lemma serve_upd:
  "(serve doms nms d)\<lparr>served := x1, served_names := x2, diags := x3\<rparr> = d\<lparr>served := x1, served_names := x2, diags := x3\<rparr>"
  by (simp add: durability_eq serve_def case_prod_beta Let_def)

lemmas serve_frame [simp] = serve_upd [unfolded durability_eq, simplified]

lemma import_failure_advances: "advances d (snd (snd (import_failure cause r only d)))"
  by (auto simp: import_failure_def case_prod_beta intro: observe_advances)

section \<open>Failures\<close>

lemma abandon_failure_upd:
  "(snd (abandon_failure i s))\<lparr>held := x1, gated := x2, held_by_epoch := x3, diags := x4, failures := x5, abandoned := x6, tokens := x7, dwindow := x8\<rparr> =
   (snd s)\<lparr>held := x1, gated := x2, held_by_epoch := x3, diags := x4, failures := x5, abandoned := x6, tokens := x7, dwindow := x8\<rparr>"
  by (simp add: durability_eq abandon_failure_def case_prod_beta Let_def)

lemmas abandon_failure_frame [simp] = abandon_failure_upd [unfolded durability_eq, simplified]

lemma resolve_item_upd:
  "(snd (resolve_item it s))\<lparr>held := x1, gated := x2, held_by_epoch := x3, diags := x4, failures := x5, abandoned := x6, tokens := x7, dwindow := x8\<rparr> =
   (snd s)\<lparr>held := x1, gated := x2, held_by_epoch := x3, diags := x4, failures := x5, abandoned := x6, tokens := x7, dwindow := x8\<rparr>"
  by (cases it; cases "position (\<lambda>f. f_id f = tk_id (fst it)) (failures (snd s))"; cases "snd it")
    (simp_all add: durability_eq resolve_item_def case_prod_beta Let_def)

lemmas resolve_item_frame [simp] = resolve_item_upd [unfolded durability_eq, simplified]

lemma resolve_advances: "advances d (snd (resolve items d))"
proof (cases "find (\<lambda>i. fi_instance i \<noteq> inst_id d) (map (\<lambda>it. tk_id (fst it)) items)")
  case None
  have "advances d (snd (fold resolve_item items (fresh_due, d)))"
    using fold_advances [of snd resolve_item "(fresh_due, d)" items, OF advances_fields] by simp
  then have "advances d (snd (release_healed (fold resolve_item items (fresh_due, d))))"
    by (rule advances_trans) (rule advances_fields; simp)
  then have "advances d (snd (advance (release_healed (fold resolve_item items (fresh_due, d)))))"
    by (metis prod.collapse then_advances)
  then show ?thesis using None by (simp add: resolve_def case_prod_beta)
qed (simp add: resolve_def)

lemma take_token_upd: "(snd (take_token i d))\<lparr>tokens := x1\<rparr> = d\<lparr>tokens := x1\<rparr>"
  by (cases "find (\<lambda>f. f_id f = i) (failures d)") (simp_all add: durability_eq take_token_def case_prod_beta)

lemmas take_token_frame [simp] = take_token_upd [unfolded durability_eq, simplified]

lemma forget_failure_upd:
  "(forget_failure i d)\<lparr>failures := x1, free_tokens := x2, dlists := x3, dwindow := x4, kept := x5, diags := x6\<rparr> =
   d\<lparr>failures := x1, free_tokens := x2, dlists := x3, dwindow := x4, kept := x5, diags := x6\<rparr>"
  by (cases "position (\<lambda>f. f_id f = i \<and> f_standing f = Resolved) (failures d)")
    (simp_all add: durability_eq forget_failure_def Let_def)

lemmas forget_failure_frame [simp] = forget_failure_upd [unfolded durability_eq, simplified]

section \<open>Held operations\<close>

lemma hold_write_upd:
  "(snd (hold_write op a g d))\<lparr>next_push := x1, gated := x2, held_by_epoch := x3\<rparr> =
   d\<lparr>next_push := x1, gated := x2, held_by_epoch := x3\<rparr>"
  by (simp add: durability_eq hold_write_def Let_def)

lemmas hold_write_frame [simp] = hold_write_upd [unfolded durability_eq, simplified]

lemma hold_upd:
  "(hold op wr g d)\<lparr>next_push := x1, gated := x2, held_by_epoch := x3, held := x4, diags := x5\<rparr> =
   d\<lparr>next_push := x1, gated := x2, held_by_epoch := x3, held := x4, diags := x5\<rparr>"
proof -
  define r where "r = (case wr of None \<Rightarrow> (True, d) | Some a \<Rightarrow> hold_write op a g d)"
  have r: "(snd r)\<lparr>next_push := x1, gated := x2, held_by_epoch := x3\<rparr> = d\<lparr>next_push := x1, gated := x2, held_by_epoch := x3\<rparr>" for x1 x2 x3
    by (cases wr) (simp_all add: r_def hold_write_upd)
  show ?thesis
    unfolding hold_def r_def [symmetric] using r [unfolded durability_eq, simplified]
    by (cases "tinsert (ops_room (snd r)) (oi_seq op) \<lparr>ho_op = op, ho_write = wr, ho_gate = g, ho_ready = False\<rparr> (held (snd r))")
      (simp_all add: durability_eq case_prod_beta)
qed

lemmas hold_frame [simp] = hold_upd [unfolded durability_eq, simplified]

lemma issued_advances: "advances d (issued op d)"
proof (cases "map_of (held d) (oi_seq op)")
  case (Some h)
  have "advances d (in_flight a True (unhold l e (d\<lparr>held := t\<rparr>)))" for a l e t
    by (rule advances_trans [OF advances_fields in_flight_advances]) (simp_all add: unhold_def)
  then show ?thesis
    by (cases "ho_write h") (auto simp: issued_def Some Let_def intro: advances_fields)
qed (auto simp: issued_def intro: advances_fields)

section \<open>Lineages\<close>

lemma in_set_tput: "e \<in> set (tput k v t) \<Longrightarrow> e = (k, v) \<or> e \<in> set t"
  by (induction k v t rule: tput.induct) (auto split: if_splits)

lemma lshapes_tput: "lshapes (tput k v t) = tput k (lineage_shape v) (lshapes t)"
  by (induction k v t rule: tput.induct) (simp_all add: lshapes_def)

lemma sshapes_tput: "sshapes (tput k v t) = tput k (seal_shape v) (sshapes t)"
  by (induction k v t rule: tput.induct) (simp_all add: sshapes_def)

lemma shapes_next: "shapes_inv ls sl made nxt \<Longrightarrow> nxt \<le> nxt' \<Longrightarrow> shapes_inv ls sl made nxt'"
  unfolding shapes_inv_def by (meson order_less_le_trans)

lemma shapes_mint:
  assumes inv: "shapes_inv ls sl made nxt" and h: "lh_sealed h = None" "lh_durable h = None" "lh_leading h = None"
  shows "shapes_inv (tput nxt h ls) sl made (Suc nxt)"
  unfolding shapes_inv_def
proof (intro conjI ballI impI)
  have none: "filter (\<lambda>e. fst (fst e) = nxt) sl = []"
    using inv by (auto simp: shapes_inv_def filter_empty_conv)
  show "tsorted (tput nxt h ls)" using inv by (simp add: shapes_inv_def tsorted_tput)
  show "points_inv made (snd e) (points (lh_leading (snd e)) sl (fst e))"
    if "e \<in> set (tput nxt h ls)" "\<not> lh_ended (snd e)" for e
  proof (cases "e = (nxt, h)")
    case True
    then show ?thesis by (simp add: none h points_inv_def points_def opt_list_def)
  next
    case False
    then have "e \<in> set ls" using in_set_tput [OF that(1)] by blast
    then show ?thesis using inv that(2) by (simp add: shapes_inv_def)
  qed
  fix e assume e: "e \<in> set sl"
  then have "fst (fst e) < nxt" using inv by (simp add: shapes_inv_def)
  then show "fst (fst e) < Suc nxt" "ss_seq (snd e) = snd (fst e)"
    "\<forall>h'. map_of (tput nxt h ls) (fst (fst e)) = Some h' \<longrightarrow> snd (fst e) < lh_next h'"
    using inv e by (auto simp: shapes_inv_def map_of_tput)
qed (use inv in \<open>auto simp: shapes_inv_def intro: less_SucI\<close>)

lemma mint_advances: "advances d (snd (mint description d))"
  unfolding advances_def
proof (intro impI conjI)
  assume inv: "marks_inv d"
  let ?t = "tput (next_lineage d) (lineage_state_new description) (lineages d)"
  have sh: "shapes_inv (lshapes ?t) (sshapes (seals d)) (seals_made d) (Suc (next_lineage d))"
    unfolding lshapes_tput using inv
    by (auto simp: marks_inv_def lineage_shape_def lineage_state_new_def empty_shape_def intro!: shapes_mint)
  then show "marks_inv (snd (mint description d))"
    using shapes_next [OF inv [unfolded marks_inv_def], of "Suc (next_lineage d)"]
    by (simp add: mint_def Let_def marks_inv_def tinsert_def)
  have "map_of (lineages d) (next_lineage d) = None"
    using marks_inv_next [OF inv, of "next_lineage d"] by (cases "map_of (lineages d) (next_lineage d)") auto
  then show "rises d (snd (mint description d))"
    by (auto simp: rises_def mint_def Let_def tinsert_def map_of_tput split: option.split)
qed

section \<open>Seals\<close>

lemma tmod_twice: "tmod k f (tmod k g t) = tmod k (\<lambda>x. f (g x)) t"
  by (simp add: tmod_def)

lemma begin_seal_pair_upd: "(snd (begin_seal_pair l through d))\<lparr>diags := x1\<rparr> = d\<lparr>diags := x1\<rparr>"
  by (cases "fst (for_pair SealKind d)") (simp_all add: durability_eq begin_seal_pair_def case_prod_beta)

lemmas begin_seal_pair_frame [simp] = begin_seal_pair_upd [unfolded durability_eq, simplified]

lemma place_empty_upd: "(snd (place_empty l e d))\<lparr>lineages := x1, seals := x2\<rparr> = d\<lparr>lineages := x1, seals := x2\<rparr>"
  by (cases "last_of (seals_of (seals d) l)") (auto simp: durability_eq place_empty_def)

lemmas place_empty_frame [simp] = place_empty_upd [unfolded durability_eq, simplified]

lemma record_empty_upd:
  "(snd (record_empty l e s))\<lparr>tokens := x1, diags := x2, told := x3\<rparr> =
   (if map_of (lineages (snd s)) l = None then snd s else snd (place_empty l e (snd s)))\<lparr>tokens := x1, diags := x2, told := x3\<rparr>"
  by (cases "fst (place_empty l e (snd s))") (simp_all add: durability_eq record_empty_def case_prod_beta Let_def)

lemmas record_empty_frame = record_empty_upd [unfolded durability_eq, simplified]

text \<open>How the shapes stand after a seal was made of a lineage.\<close>

lemma place_empty_shapes:
  assumes sh: "shapes_inv (lshapes ls) (sshapes (seals d)) made nxt"
    and st: "map_of ls l = Some st" "\<not> l_ended st" "l_sealed_through st < Some through"
    and d: "lineages d = tmod l (\<lambda>st. st\<lparr>l_sealed_through := Some through, l_next_seal := l_next_seal st + 1\<rparr>) ls"
  shows "shapes_inv (lshapes (lineages (snd (place_empty l (empty_new made through pair) d))))
    (sshapes (seals (snd (place_empty l (empty_new made through pair) d)))) (Suc made) nxt"
proof -
  have h: "map_of (lshapes ls) l = Some (lineage_shape st)" "\<not> lh_ended (lineage_shape st)"
    "lh_sealed (lineage_shape st) < Some through"
    using st by (simp_all add: map_of_lshapes lineage_shape_def)
  show ?thesis
  proof (cases "seals_of (seals d) l" rule: rev_cases)
    case Nil
    then have "filter (\<lambda>e. fst (fst e) = l) (sshapes (seals d)) = []"
      unfolding sshapes_seals_of [symmetric] by (simp add: sshapes_def)
    from shapes_make_leading [OF sh h this]
    show ?thesis
      using Nil by (simp add: place_empty_def last_of_def d tmod_twice)
        (subst lshapes_tmod_gen; simp add: lineage_shape_def empty_new_def empty_shape_def)
  next
    case (snoc es e)
    obtain k s where e: "e = (k, s)" by fastforce
    have "(k, s) \<in> set (seals_of (seals d) l)" by (simp add: snoc e)
    then obtain sq where k: "k = (l, sq)" by (cases k) (auto simp: seals_of_def tbetween_def)
    have "filter (\<lambda>e. fst (fst e) = l) (sshapes (seals d)) = sshapes es @ [((l, sq), seal_shape s)]"
      unfolding sshapes_seals_of [symmetric] snoc e k by (simp add: sshapes_def)
    note made = shapes_make_trailing [OF sh h this]
    have "lshapes (lineages d) = tmod l (\<lambda>h. h\<lparr>lh_sealed := Some through, lh_next := lh_next h + 1\<rparr>) (lshapes ls)"
      unfolding d by (rule lshapes_tmod_gen) (simp add: lineage_shape_def)
    moreover have "sshapes (tmod (l, sq) (\<lambda>s. s\<lparr>s_trailing := Some (empty_new made through pair)\<rparr>) (seals d)) =
        tmod (l, sq) (\<lambda>s. s\<lparr>ss_trailing := Some (made, through)\<rparr>) (sshapes (seals d))"
      by (rule sshapes_tmod_gen) (simp add: seal_shape_def empty_new_def empty_shape_def)
    ultimately show ?thesis
      using snoc made by (simp add: place_empty_def last_of_def e k)
  qed
qed

lemma points_inv_raise:
  assumes "points_inv made h ps" and "lh_sealed h < Some t"
  shows "points_inv (Suc made) (h\<lparr>lh_sealed := Some t, lh_next := n\<rparr>) ps"
proof -
  have "Some (snd p) \<le> Some t" if "p \<in> set ps" for p
    using assms that by (meson less_imp_le order_trans points_inv_def)
  then show ?thesis
    using assms unfolding points_inv_def by (auto intro: less_SucI order_trans [OF _ less_imp_le])
qed

lemma place_empty_lineages: "\<exists>x. lineages (snd (place_empty l e d)) = tmod l (\<lambda>st. st\<lparr>l_leading := x st\<rparr>) (lineages d)"
proof (cases "last_of (seals_of (seals d) l)")
  case (Some a)
  have "tmod l (\<lambda>st. st\<lparr>l_leading := l_leading st\<rparr>) (lineages d) = lineages d"
    by (simp add: tmod_def prod_eq_iff map_idI)
  then show ?thesis using Some by (intro exI [of _ l_leading]) (simp add: place_empty_def case_prod_beta)
qed (auto simp: place_empty_def intro: exI [of _ "\<lambda>_. Some e"])

lemma record_seal_upd: "(record_seal l s op d)\<lparr>seals := x1, dwindow := x2, diags := x3\<rparr> = d\<lparr>seals := x1, dwindow := x2, diags := x3\<rparr>"
  by (cases "tinsert (ops_room d) (l, s_seq s) s (seals d)") (simp_all add: durability_eq record_seal_def)

lemmas record_seal_frame [simp] = record_seal_upd [unfolded durability_eq, simplified]

lemma record_seal_shapes:
  assumes sh: "shapes_inv (lshapes ls) (sshapes (seals d)) made nxt"
    and st: "map_of ls l = Some st" "\<not> l_ended st" "l_sealed_through st < Some through"
    and d: "lineages d = tmod l (\<lambda>st. st\<lparr>l_sealed_through := Some through, l_next_seal := l_next_seal st + 1\<rparr>) ls"
    and s: "s_seq s = l_next_seal st" "s_made s = made" "s_through s = through" "s_trailing s = None"
  shows "shapes_inv (lshapes (lineages (record_seal l s op d))) (sshapes (seals (record_seal l s op d))) (Suc made) nxt"
proof -
  have h: "map_of (lshapes ls) l = Some (lineage_shape st)" "\<not> lh_ended (lineage_shape st)"
    "lh_sealed (lineage_shape st) < Some through"
    using st by (simp_all add: map_of_lshapes lineage_shape_def)
  have ls: "lshapes (lineages d) = tmod l (\<lambda>h. h\<lparr>lh_sealed := Some through, lh_next := lh_next h + 1\<rparr>) (lshapes ls)"
    unfolding d by (rule lshapes_tmod_gen) (simp add: lineage_shape_def)
  have "seal_shape s = \<lparr>ss_seq = lh_next (lineage_shape st), ss_made = made, ss_through = through, ss_trailing = None\<rparr>"
    using s by (simp add: seal_shape_def lineage_shape_def empty_shape_def)
  then have "shapes_inv (lshapes (lineages d)) (sshapes (tput (l, s_seq s) s (seals d))) (Suc made) nxt"
    using shapes_make_recorded [OF sh h] s(1) by (simp add: ls sshapes_tput lineage_shape_def)
  moreover have "shapes_inv (lshapes (lineages d)) (sshapes (seals d)) (Suc made) nxt"
    unfolding ls
  proof (rule shapes_inv_change [OF sh h(1)])
    let ?h = "(lineage_shape st)\<lparr>lh_sealed := Some through, lh_next := lh_next (lineage_shape st) + 1\<rparr>"
    show "\<not> lh_ended ?h \<longrightarrow> points_inv (Suc made) ?h (points (lh_leading ?h) (sshapes (seals d)) l)"
      using points_inv_raise [OF points_of_inv [OF sh h(1,2)] h(3)] by simp
    show "\<forall>e \<in> set (sshapes (seals d)). fst (fst e) = l \<longrightarrow> ss_seq (snd e) = snd (fst e) \<and> snd (fst e) < lh_next ?h"
      using sh h(1) by (fastforce simp: shapes_inv_def)
  qed (use sh in \<open>auto simp: shapes_inv_def\<close>)
  ultimately show ?thesis by (auto simp: record_seal_def tinsert_def)
qed

lemma sealed_rises:
  assumes "lineages d' = tmod l (\<lambda>st. (f st)\<lparr>l_leading := x (f st)\<rparr>) (lineages d)" and "seals_made d' = Suc (seals_made d)"
    and "next_lineage d' = next_lineage d"
    and "f = (\<lambda>st. st\<lparr>l_sealed_through := Some through, l_next_seal := l_next_seal st + 1\<rparr>)"
    and "map_of (lineages d) l = Some st" and "l_sealed_through st < Some through"
  shows "rises d d'"
  by (rule rises_tmod [OF assms(1)]) (use assms(2-) in \<open>auto intro: less_imp_le\<close>)

text \<open>The state a seal is recorded in: its lineage's seal point raised, and the seal counted.\<close>

definition sealed_in :: "'e durability \<Rightarrow> key \<Rightarrow> 'e \<Rightarrow> 'e durability \<Rightarrow> bool" where
  "sealed_in d l through d2 \<longleftrightarrow>
     lineages d2 = tmod l (\<lambda>st. st\<lparr>l_sealed_through := Some through, l_next_seal := l_next_seal st + 1\<rparr>) (lineages d) \<and>
     seals d2 = seals d \<and> seals_made d2 = Suc (seals_made d) \<and> next_lineage d2 = next_lineage d"

lemma empty_made_advances:
  assumes st: "map_of (lineages d) l = Some st" "\<not> l_ended st" "l_sealed_through st < Some through"
    and d2: "sealed_in d l through d2" and e: "e = empty_new (seals_made d) through pair"
  shows "advances d (snd (record_empty l e (due, d2)))"
proof -
  define f where "f = (\<lambda>st :: 'a lineage_state. st\<lparr>l_sealed_through := Some through, l_next_seal := l_next_seal st + 1\<rparr>)"
  let ?d3 = "snd (record_empty l e (due, d2))"
  note fields = d2 [unfolded sealed_in_def f_def [symmetric]]
  have some: "map_of (lineages d2) l = Some (f st)" using st(1) fields by (simp add: map_of_tmod)
  have e3: "lineages ?d3 = lineages (snd (place_empty l e d2))" "seals ?d3 = seals (snd (place_empty l e d2))"
    "seals_made ?d3 = Suc (seals_made d)" "next_lineage ?d3 = next_lineage d"
    using some fields by (simp_all add: record_empty_frame)
  obtain x where x: "lineages ?d3 = tmod l (\<lambda>st. st\<lparr>l_leading := x st\<rparr>) (lineages d2)"
    unfolding e3 using place_empty_lineages by blast
  have "marks_inv ?d3" if "marks_inv d"
    unfolding marks_inv_def e3 unfolding e
    by (rule place_empty_shapes [OF _ st]) (use that fields in \<open>simp_all add: marks_inv_def f_def\<close>)
  moreover have "rises d ?d3"
    by (rule sealed_rises [OF _ _ _ f_def st(1,3), of _ x]) (use fields in \<open>simp_all add: x tmod_twice e3\<close>)
  ultimately show ?thesis by (simp add: advances_def)
qed

lemma seal_made_advances:
  assumes st: "map_of (lineages d) l = Some st" "\<not> l_ended st" "l_sealed_through st < Some through"
    and d2: "sealed_in d l through d2"
    and s: "s_seq s = l_next_seal st" "s_made s = seals_made d" "s_through s = through" "s_trailing s = None"
  shows "advances d (record_seal l s op d2)"
proof -
  note fields = d2 [unfolded sealed_in_def]
  have "marks_inv (record_seal l s op d2)" if "marks_inv d"
    using record_seal_shapes [OF _ st conjunct1 [OF fields] s, of "next_lineage d" op] that fields
    by (simp add: marks_inv_def)
  moreover have "rises d (record_seal l s op d2)"
    by (rule sealed_rises [OF _ _ _ refl st(1,3), of _ l_leading]) (use fields in simp_all)
  ultimately show ?thesis by (simp add: advances_def)
qed

definition made_in :: "key \<Rightarrow> 'e \<Rightarrow> 'e durability \<Rightarrow> nat option \<times> 'e durability" where
  "made_in l through d = begin_seal_pair l through
     (d\<lparr>lineages := tmod l (\<lambda>st. st\<lparr>l_sealed_through := Some through, l_next_seal := l_next_seal st + 1\<rparr>) (lineages d),
       seals_made := seals_made d + 1\<rparr>)"

lemma made_in_upd: "(snd (made_in l through d))\<lparr>lineages := x1, seals_made := x2, diags := x3\<rparr> = d\<lparr>lineages := x1, seals_made := x2, diags := x3\<rparr>"
  by (simp add: durability_eq made_in_def)

lemmas made_in_frame [simp] = made_in_upd [unfolded durability_eq, simplified]

lemma made_in_sealed: "sealed_in d l through (snd (made_in l through d))"
  by (simp add: sealed_in_def) (simp add: made_in_def)

text \<open>A seal that covers nothing is recorded empty, any other with the first operation it waits on.\<close>

lemma make_seal_cases:
  "make_seal l through st d = advance
     (case pinned_by d l through of
        None \<Rightarrow> record_empty l (empty_new (seals_made d) through (fst (made_in l through d))) (fresh_due, snd (made_in l through d))
      | Some op \<Rightarrow> (fresh_due, record_seal l \<lparr>s_seq = l_next_seal st, s_made = seals_made d, s_through = through, s_stage = Waiting,
          s_answered = False, s_pair = fst (made_in l through d), s_trailing = None, s_pin = Some op\<rparr> op (snd (made_in l through d))))"
  by (cases "pinned_by d l through") (simp_all add: make_seal_def made_in_def Let_def case_prod_beta)

lemma make_seal_advances:
  assumes st: "map_of (lineages d) l = Some st" "\<not> l_ended st" "l_sealed_through st < Some through"
  shows "advances d (snd (make_seal l through st d))"
proof (cases "pinned_by d l through")
  case None
  then show ?thesis
    using empty_made_advances [OF st made_in_sealed refl, of "fst (made_in l through d)" fresh_due]
    unfolding make_seal_cases by (simp only: option.case) (metis prod.collapse then_advances)
next
  case (Some op)
  show ?thesis
    unfolding make_seal_cases Some option.case
    by (rule then_advances, rule seal_made_advances [OF st made_in_sealed]) simp_all
qed

lemma fold_inconsistent_upd: "(fold inconsistent ws d)\<lparr>diags := x1\<rparr> = d\<lparr>diags := x1\<rparr>"
  by (induction ws arbitrary: d) (simp_all add: inconsistent_upd)

lemmas fold_inconsistent_frame [simp] = fold_inconsistent_upd [unfolded durability_eq, simplified]

lemma seal_op_advances: "advances d (snd (seal_op l through d))"
proof (cases "live d l")
  case (Some st)
  show ?thesis
  proof (cases "is_some_and (\<lambda>sealed. through \<le> sealed) (l_sealed_through st)")
    case False
    have st: "map_of (lineages d) l = Some st" "\<not> l_ended st" using Some by (simp_all add: live_def)
    have "l_sealed_through st < Some through" using False by (cases "l_sealed_through st") auto
    define d1 where "d1 = fold inconsistent (fst (seal_cycle d l through)) d"
    have same: "advances d d1" "lineages d1 = lineages d"
      by (auto simp: d1_def intro: advances_fields)
    then have "advances d (snd (make_seal l through st d1))"
      using make_seal_advances [of d1 l st through] st \<open>l_sealed_through st < Some through\<close>
      by (auto intro: advances_trans)
    then show ?thesis
      using Some False same(1) by (simp add: seal_op_def case_prod_beta Let_def d1_def)
  qed (simp add: seal_op_def Some)
qed (auto simp: seal_op_def intro: advances_fields)

section \<open>Ending a lineage\<close>

lemma filter_map_other:
  "(\<And>e. fst (g e) = fst e) \<Longrightarrow> (\<And>e. fst (fst e) = k \<Longrightarrow> g e = e) \<Longrightarrow>
   filter (\<lambda>e. fst (fst e) = k) (map g t) = filter (\<lambda>e. fst (fst e) = k) t"
  by (induction t) auto

lemma sshapes_filter: "sshapes (filter (\<lambda>e. fst (fst e) = k) t) = filter (\<lambda>e. fst (fst e) = k) (sshapes t)"
  by (simp add: sshapes_def filter_map comp_def)

lemma clear_trailing_advances:
  assumes "\<not> live_in d l"
  shows "advances d (clear_trailing l d)"
  unfolding advances_def
proof (intro impI conjI)
  assume inv: "marks_inv d"
  let ?sl = "sshapes (seals (clear_trailing l d))"
  have keys: "keys (seals (clear_trailing l d)) = keys (seals d)" by (auto simp: clear_trailing_def)
  have "shapes_inv (lshapes (lineages d)) ?sl (seals_made d) (next_lineage d)"
  proof (rule shapes_ended_seals [where l = l])
    show sh: "shapes_inv (lshapes (lineages d)) (sshapes (seals d)) (seals_made d) (next_lineage d)"
      using inv by (simp add: marks_inv_def)
    then show "tsorted ?sl" by (simp add: shapes_inv_def tsorted_def keys)
    show "lh_ended h" if "map_of (lshapes (lineages d)) l = Some h" for h
      using that assms by (auto simp: map_of_lshapes live_in_def lineage_shape_def)
    show "filter (\<lambda>e. fst (fst e) = k) ?sl = filter (\<lambda>e. fst (fst e) = k) (sshapes (seals d))" if "k \<noteq> l" for k
      unfolding sshapes_filter [symmetric] clear_trailing_def using that
      by (simp, subst filter_map_other) auto
    show "\<exists>x \<in> set (sshapes (seals d)). fst x = fst e \<and> ss_seq (snd x) = ss_seq (snd e)" if "e \<in> set ?sl" for e
      using that by (force simp: clear_trailing_def sshapes_def seal_shape_def split: if_splits)
  qed
  then show "marks_inv (clear_trailing l d)" by (simp add: marks_inv_def clear_trailing_def)
  show "rises d (clear_trailing l d)" by (rule rises_subset) (simp_all add: clear_trailing_def)
qed

lemma stop_answering_advances:
  "advances d (stop_answering l d)" "\<not> live_in (stop_answering l d) l"
proof -
  let ?d1 = "end_pairs (Some l) d"
  let ?f = "\<lambda>st. st\<lparr>l_ended := True, l_end_unpopped := True, l_leading := None\<rparr>"
  define d2 where "d2 = ?d1\<lparr>lineages := tmod l ?f (lineages ?d1)\<rparr>"
  have ls: "lshapes (lineages d2) = tmod l (\<lambda>h. h\<lparr>lh_ended := True, lh_leading := None\<rparr>) (lshapes (lineages ?d1))"
    unfolding d2_def by (simp, rule lshapes_tmod_gen) (simp add: lineage_shape_def empty_shape_def)
  have inv: "marks_inv d2" if "marks_inv ?d1"
  proof (cases "map_of (lineages ?d1) l")
    case None
    then have "tmod l ?f (lineages ?d1) = lineages ?d1" by (simp add: tmod_not_in map_of_eq_None_iff)
    then show ?thesis using that by (simp add: d2_def)
  next
    case (Some st)
    have sh: "shapes_inv (lshapes (lineages ?d1)) (sshapes (seals ?d1)) (seals_made ?d1) (next_lineage ?d1)"
      using that by (simp add: marks_inv_def)
    have h: "map_of (lshapes (lineages ?d1)) l = Some (lineage_shape st)" by (simp add: map_of_lshapes Some)
    have "shapes_inv (lshapes (lineages d2)) (sshapes (seals ?d1)) (seals_made ?d1) (next_lineage ?d1)"
      unfolding ls
      by (rule shapes_inv_change [OF sh h]) (use sh h in \<open>fastforce simp: shapes_inv_def\<close>)+
    then show ?thesis by (simp add: marks_inv_def d2_def)
  qed
  have "rises ?d1 d2" by (rule rises_tmod [where l = l and f = ?f]) (simp_all add: d2_def)
  then have "advances ?d1 d2" using inv by (simp add: advances_def)
  then have "advances d d2" using advances_same_shape [OF end_pairs_shape] by (blast intro: advances_trans)
  moreover have st: "lineages (stop_answering l d) = lineages d2" "seals (stop_answering l d) = seals d2"
    "seals_made (stop_answering l d) = seals_made d2" "next_lineage (stop_answering l d) = next_lineage d2"
    by (simp_all add: stop_answering_def Let_def d2_def)
  ultimately show "advances d (stop_answering l d)" by (blast intro: advances_trans advances_fields)
  show "\<not> live_in (stop_answering l d) l"
    unfolding live_in_def st by (simp add: d2_def map_of_tmod is_some_and_def split: option.split)
qed

lemma end_lineage_advances: "advances d (snd (end_lineage l d))"
proof (cases "opt_filter (\<lambda>_. l \<noteq> DEFAULT_LINEAGE) (live d l)")
  case (Some st)
  define d0 where "d0 = stop_answering l d"
  define d1 where "d1 = let_go_ended l d0"
  define d2 where "d2 = drop_seals l (clear_trailing l d1)"
  define s3 where "s3 = end_held l (emit (EvLineageEnded l (abandoned_through l st d)) (fresh_due, d2))"
  have a1: "advances d d1"
    unfolding d1_def d0_def by (rule advances_trans [OF stop_answering_advances(1) advances_fields]) simp_all
  have ended: "\<not> live_in d1 l"
    using stop_answering_advances(2) [of l d] by (simp add: d1_def d0_def live_in_def)
  then have "\<not> live_in (clear_trailing l d1) l" by (simp add: clear_trailing_def live_in_def)
  then have "advances d1 d2"
    unfolding d2_def by (rule advances_trans [OF clear_trailing_advances [OF ended] drop_seals_advances])
  moreover have "advances d2 (snd s3)" unfolding s3_def by (rule advances_fields) simp_all
  ultimately have "advances d (retire_if_drained l (snd s3))"
    using a1 retire_if_drained_advances by (blast intro: advances_trans)
  then have "advances d (snd (advance (fst s3, retire_if_drained l (snd s3))))" by (rule then_advances)
  moreover have "end_lineage l d = advance (fst s3, retire_if_drained l (snd s3))"
    unfolding end_lineage_def Some option.case Let_def case_prod_beta s3_def d2_def d1_def d0_def by (rule refl)
  ultimately show ?thesis by simp
qed (auto simp: end_lineage_def intro!: advances_fields split: option.split)

lemma end_popped_advances: "advances d (end_popped l d)"
proof -
  have "advances d (d\<lparr>lineages := tmod l (\<lambda>st. st\<lparr>l_end_unpopped := False\<rparr>) (lineages d)\<rparr>)"
    by (rule advances_same_shape) (simp add: same_shape_def lshapes_tmod lineage_shape_def)
  then show ?thesis
    unfolding end_popped_def by (auto intro: advances_trans [OF _ retire_if_drained_advances] advances_fields)
qed

lemma retire_advances: "advances d (snd (retire l d))"
  unfolding retire_def Let_def by (auto intro: advances_fields tdel_advances)

section \<open>The transition system\<close>

text \<open>The calls of the I/O core, each naming what it passes.\<close>

datatype 'e call =
    Admit op_id
  | Push "'e accepted"
  | Hold op_id "'e accepted option" "'e gate"
  | Issue op_id
  | Complete op_id write_end
  | Pop op_id
  | Seal key 'e
  | FlushAnswer key 'e nat "io_fault option"
  | ProviderAnswer key nat domain_id "failure_cause option"
  | Import failure_cause reach "key option"
  | Resolve "(failure_token \<times> resolution) list"
  | TakeToken failure_id
  | ForgetFailure failure_id
  | Mint "string option"
  | EndLineage key
  | EndPopped key
  | Retire key
  | ObservedBy
  | ChangeLists domain_lists
  | Serve "domain_id list" "string list"

text \<open>
  What the I/O core checks of a write before it passes it on: its lineage live, its epoch above the seal
  point and not abandoned, its operation number the next, and its routing that of its file's domains.
\<close>

definition accepts :: "'e::linorder durability \<Rightarrow> 'e accepted \<Rightarrow> bool" where
  "accepts d a \<longleftrightarrow>
     is_live d (a_lineage a) \<and> refuses d (a_lineage a) (a_epoch a) = None \<and>
     \<not> is_abandoned d (a_lineage a) (a_epoch a) \<and> next_push d \<le> oi_seq (a_op a) \<and>
     map_of (held d) (oi_seq (a_op a)) = None \<and>
     a_routing a = routing_of (lists_get (dlists d) (a_domains a)) (served d)"

text \<open>The rows of the domain lists are claimed and released by the I/O core, but never one a write names;
  the provider's domains are set before the first write.\<close>

inductive dur_step :: "'e::linorder durability \<Rightarrow> 'e call \<Rightarrow> 'e due \<Rightarrow> 'e durability \<Rightarrow> bool" where
  step_admit: "dur_step d (Admit op) fresh_due (admit op d)"
| step_push: "accepts d a \<Longrightarrow> dur_step d (Push a) fresh_due (pushed a d)"
| step_hold_write: "accepts d a \<Longrightarrow> gate_state d g = GateWaiting \<Longrightarrow> \<not> snd (write_cycle d (own_gate a) g) \<Longrightarrow>
    dur_step d (Hold (a_op a) (Some a) g) fresh_due (hold (a_op a) (Some a) g d)"
| step_hold_read: "map_of (held d) (oi_seq op) = None \<Longrightarrow> gate_state d g = GateWaiting \<Longrightarrow>
    dur_step d (Hold op None g) fresh_due (hold op None g d)"
| step_issue: "dur_step d (Issue op) fresh_due (issued op d)"
| step_complete: "completed op fin d = (due, d') \<Longrightarrow> dur_step d (Complete op fin) due d'"
| step_pop: "dur_step d (Pop op) fresh_due (popped op d)"
| step_seal: "seal_op l through d = (Submitted due, d') \<Longrightarrow> dur_step d (Seal l through) due d'"
| step_seal_none: "seal_op l through d = (AlreadySealed st, d') \<Longrightarrow> dur_step d (Seal l through) fresh_due d'"
| step_seal_cycle: "seal_op l through d = (SealCycle, d') \<Longrightarrow> dur_step d (Seal l through) fresh_due d'"
| step_flush: "flushed l through file fault d = (due, d') \<Longrightarrow> dur_step d (FlushAnswer l through file fault) due d'"
| step_provide: "provided l sq x cause d = (due, d') \<Longrightarrow> dur_step d (ProviderAnswer l sq x cause) due d'"
| step_import: "import_failure cause r only d = (i, due, d') \<Longrightarrow> dur_step d (Import cause r only) due d'"
| step_resolve: "resolve items d = (Inr due, d') \<Longrightarrow> dur_step d (Resolve items) due d'"
| step_resolve_refused: "resolve items d = (Inl e, d') \<Longrightarrow> dur_step d (Resolve items) fresh_due d'"
| step_take_token: "dur_step d (TakeToken i) fresh_due (snd (take_token i d))"
| step_forget: "dur_step d (ForgetFailure i) fresh_due (forget_failure i d)"
| step_mint: "dur_step d (Mint description) fresh_due (snd (mint description d))"
| step_end: "end_lineage l d = (due, d') \<Longrightarrow> dur_step d (EndLineage l) due d'"
| step_end_popped: "dur_step d (EndPopped l) fresh_due (end_popped l d)"
| step_retire: "dur_step d (Retire l) fresh_due (snd (retire l d))"
| step_observed: "dur_step d ObservedBy fresh_due (snd (observed_by d))"
| step_lists: "\<forall>w \<in> set (vals (writes d)). lists_get ls (w_domains w) = lists_get (dlists d) (w_domains w) \<Longrightarrow>
    \<forall>h \<in> set (vals (held d)). \<forall>a. ho_write h = Some a \<longrightarrow> lists_get ls (a_domains a) = lists_get (dlists d) (a_domains a) \<Longrightarrow>
    dur_step d (ChangeLists ls) fresh_due (d\<lparr>dlists := ls\<rparr>)"
| step_serve: "writes d = [] \<Longrightarrow> seals d = [] \<Longrightarrow> held d = [] \<Longrightarrow> dur_step d (Serve doms nms) fresh_due (serve doms nms d)"

inductive_cases dur_step_pushE: "dur_step d (Push a) due d'"
inductive_cases dur_step_sealE: "dur_step d (Seal l through) due d'"

text \<open>A run starts with a new core; a call that found an inconsistency panicked and did not return.\<close>

inductive dur_reachable :: "'e::linorder durability \<Rightarrow> bool" where
  reach_new: "durability_new inst clk wants c srv = Inr d \<Longrightarrow> dur_reachable d"
| reach_step: "dur_reachable d \<Longrightarrow> dur_step d c due d' \<Longrightarrow> panics d' = [] \<Longrightarrow> dur_reachable d'"

inductive dur_run :: "'e::linorder durability \<Rightarrow> 'e durability \<Rightarrow> bool" where
  run_refl: "dur_run d d"
| run_step: "dur_run d d1 \<Longrightarrow> dur_step d1 c due d2 \<Longrightarrow> panics d2 = [] \<Longrightarrow> dur_run d d2"

lemma dur_step_advances: "dur_step d c due d' \<Longrightarrow> advances d d'"
proof (induction rule: dur_step.induct)
  case (step_complete op fin d due d')
  then show ?case using completed_advances [of d op fin] by simp
next
  case (step_seal l through d due d')
  then show ?case using seal_op_advances [of d l through] by simp
next
  case (step_seal_none l through d st d')
  then show ?case using seal_op_advances [of d l through] by simp
next
  case (step_seal_cycle l through d d')
  then show ?case using seal_op_advances [of d l through] by simp
next
  case (step_flush l through f fault d due d')
  then show ?case using flushed_advances [of d l through f fault] by simp
next
  case (step_provide l sq x cause d due d')
  then show ?case using provided_advances [of d l sq x cause] by simp
next
  case (step_import cause r only d i due d')
  then show ?case using import_failure_advances [of d cause r only] by simp
next
  case (step_resolve items d due d')
  then show ?case using resolve_advances [of d items] by simp
next
  case (step_resolve_refused items d e d')
  then show ?case using resolve_advances [of d items] by simp
next
  case (step_end l d due d')
  then show ?case using end_lineage_advances [of d l] by simp
qed (simp_all add: pushed_def observed_by_def in_flight_advances issued_advances mint_advances end_popped_advances
    retire_advances advances_fields)

lemma new_fields:
  assumes "durability_new inst clk wants c srv = Inr d"
  shows "lineages d = [(DEFAULT_LINEAGE, lineage_state_new None)]" and "next_lineage d = 1" and "writes d = []"
    and "seals d = []" and "in_flight_by_epoch d = []" and "held_by_epoch d = []" and "gated d = []" and "spans d = []"
    and "seal_domains d = []" and "dwindow d = []" and "failures d = []" and "kept d = []" and "abandoned d = []"
    and "next_failure d = 0" and "next_push d = 0" and "seals_made d = 0" and "held d = []" and "served d = []"
    and "panics d = []" and "flush_pairs d = []" and "cap d = c" and "0 < c_lineages c"
  using assms unfolding durability_new_def
  by (auto simp: DEFAULT_LINEAGE_def window_new_def split: if_splits sum.splits)

lemma new_marks_inv: "durability_new inst clk wants c srv = Inr d \<Longrightarrow> marks_inv d"
  by (auto simp: new_fields marks_inv_def shapes_inv_def lshapes_def sshapes_def points_inv_def points_def
      lineage_shape_def lineage_state_new_def empty_shape_def opt_list_def DEFAULT_LINEAGE_def tsorted_def)

lemma reachable_marks_inv: "dur_reachable d \<Longrightarrow> marks_inv d"
proof (induction rule: dur_reachable.induct)
  case (reach_step d c due d')
  then show ?case using dur_step_advances [of d c due d'] by (simp add: advances_def)
qed (rule new_marks_inv)

lemma run_advances: "dur_run d d' \<Longrightarrow> advances d d'"
proof (induction rule: dur_run.induct)
  case (run_step d d1 c due d2)
  then show ?case using dur_step_advances [of d1 c due d2] by (blast intro: advances_trans)
qed simp

end
