(* ===== verification/Durability_Runs.thy ===== *)
theory Durability_Runs
  imports Durability_Steps
begin

text \<open>
  What holds along the runs of the durability core whatever is called: the marks and the seal points of
  the lineages, the order of the seals ahead of a mark, and the lineages that have ended. A short run,
  from a push to the write's epoch durable, is where the examples are taken from.
\<close>

section \<open>A short run\<close>

definition sample_op :: op_id where
  "sample_op = \<lparr>oi_instance = 7, oi_seq = 0\<rparr>"

definition sample_write :: "nat accepted" where
  "sample_write =
     \<lparr>a_op = sample_op, a_lineage = 0, a_epoch = 3, a_file = 1, a_target = 1,
      a_routing = \<lparr>r_default = True, r_provider = False\<rparr>, a_domains = EMPTY_list\<rparr>"

definition sample_pushed :: "nat durability" where
  "sample_pushed = pushed sample_write sample_start"

definition sample_sealed :: "nat durability" where
  "sample_sealed = snd (seal_op 0 3 sample_pushed)"

definition sample_flushing :: "nat durability" where
  "sample_flushing = snd (completed sample_op Succeeded sample_sealed)"

definition sample_durable :: "nat durability" where
  "sample_durable = snd (flushed 0 3 1 None sample_flushing)"

lemma sample_push_step:
  "accepts sample_start sample_write \<and> panics sample_pushed = [] \<and>
   durable_through sample_pushed 0 = Some None \<and> sealed_through sample_pushed 0 = Some None"
  by code_simp

lemma sample_seal_step:
  "panics sample_sealed = [] \<and> (case seal_op 0 3 sample_pushed of (Submitted due, _) \<Rightarrow> True | _ \<Rightarrow> False)"
  by code_simp

lemma sample_complete_step: "panics sample_flushing = []"
  by code_simp

lemma sample_flush_step:
  "panics sample_durable = [] \<and> durable_through sample_durable 0 = Some (Some 3) \<and>
   sealed_through sample_durable 0 = Some (Some 3)"
  by code_simp

lemma sample_pushed_reachable: "dur_reachable sample_pushed"
  using reach_step [OF reach_new [OF sample_start_new] step_push] sample_push_step
  by (simp add: sample_pushed_def)

lemma sample_run_sealed: "dur_run sample_pushed sample_sealed"
proof -
  obtain due where "seal_op 0 3 sample_pushed = (Submitted due, sample_sealed)"
    using sample_seal_step by (auto simp: sample_sealed_def split: prod.splits sealing.splits)
  then show ?thesis using run_step [OF run_refl step_seal] sample_seal_step by blast
qed

lemma sample_run_durable: "dur_run sample_pushed sample_durable"
proof -
  have "dur_step sample_sealed (Complete sample_op Succeeded) (fst (completed sample_op Succeeded sample_sealed)) sample_flushing"
    unfolding sample_flushing_def by (rule step_complete) simp
  then have "dur_run sample_pushed sample_flushing"
    using run_step [OF sample_run_sealed] sample_complete_step by blast
  moreover have "dur_step sample_flushing (FlushAnswer 0 3 1 None) (fst (flushed 0 3 1 None sample_flushing)) sample_durable"
    unfolding sample_durable_def by (rule step_flush) simp
  ultimately show ?thesis using run_step sample_flush_step by blast
qed

lemma run_reachable: "dur_run d d' \<Longrightarrow> dur_reachable d \<Longrightarrow> dur_reachable d'"
  by (induction rule: dur_run.induct) (auto intro: reach_step)

section \<open>Marks, seal points and lineages\<close>

lemma live_Some: "live d l = Some st \<longleftrightarrow> map_of (lineages d) l = Some st \<and> \<not> l_ended st"
  by (simp add: live_def)

lemma is_live_live_in: "is_live d l \<longleftrightarrow> live_in d l"
  by (auto simp: is_live_def live_in_def live_def is_some_and_iff)

lemma run_rises: "dur_reachable d \<Longrightarrow> dur_run d d' \<Longrightarrow> rises d d'"
  using run_advances reachable_marks_inv by (auto simp: advances_def)

lemma live_points:
  assumes "marks_inv d" and "live d l = Some st"
  shows "points_inv (seals_made d) (lineage_shape st) (points (empty_shape (l_leading st)) (sshapes (seals d)) l)"
proof -
  have "map_of (lshapes (lineages d)) l = Some (lineage_shape st)" "\<not> lh_ended (lineage_shape st)"
    using assms(2) by (auto simp: live_Some map_of_lshapes lineage_shape_def)
  from points_of_inv [OF assms(1) [unfolded marks_inv_def] this]
  show ?thesis by (simp add: lineage_shape_def)
qed

text \<open>
  C1. A lineage's mark, once claimed, is never taken back: along every run the mark and the seal point of
  a lineage only rise, and the mark never passes the seal point.
\<close>

theorem marks_only_rise:
  assumes "dur_reachable d" and "dur_run d d'"
    and "durable_through d l = Some m" and "sealed_through d l = Some p"
    and "durable_through d' l = Some m'" and "sealed_through d' l = Some p'"
  shows "m \<le> m' \<and> p \<le> p' \<and> m' \<le> p'"
proof -
  obtain st st' where st: "live d l = Some st" "live d' l = Some st'"
    and eq: "m = l_durable_through st" "p = l_sealed_through st" "m' = l_durable_through st'" "p' = l_sealed_through st'"
    using assms(3-6) by (auto simp: durable_through_def sealed_through_def)
  have "m \<le> m' \<and> p \<le> p'"
    using run_rises [OF assms(1,2)] st unfolding rises_def eq live_Some by fastforce
  moreover have "m' \<le> p'"
    using live_points [OF reachable_marks_inv [OF run_reachable [OF assms(2,1)]] st(2)]
    by (simp add: eq points_inv_def lineage_shape_def)
  ultimately show ?thesis by blast
qed

theorem marks_only_rise_witness:
  "durable_through sample_pushed 0 = Some None \<and> durable_through sample_durable 0 = Some (Some 3) \<and> (None :: nat option) \<le> Some 3"
  using marks_only_rise [OF sample_pushed_reachable sample_run_durable, of 0 None None "Some 3" "Some 3"]
    sample_push_step sample_flush_step by blast

text \<open>
  C2. The seals ahead of a live lineage's mark, recorded and empty, stand in the order they were made,
  each further than the one before, all of them above the mark and none past the seal point.
\<close>

theorem seals_in_order:
  assumes "dur_reachable d" and "live d l = Some st"
  shows "sorted_wrt (\<lambda>p q. pt_made p < pt_made q \<and> pt_through p < pt_through q) (seal_points st (seals d) l) \<and>
    list_all (\<lambda>p. pt_made p < seals_made d \<and> l_durable_through st < Some (pt_through p) \<and>
      Some (pt_through p) \<le> l_sealed_through st) (seal_points st (seals d) l)"
  using live_points [OF reachable_marks_inv [OF assms(1)] assms(2)]
  by (auto simp: points_seal_points points_inv_def sorted_wrt_map list_all_iff lineage_shape_def)

lemma sample_sealed_live:
  "\<exists>st. live sample_sealed 0 = Some st \<and> map pt_through (seal_points st (seals sample_sealed) 0) = [3]"
proof -
  have "map_option (\<lambda>st. map pt_through (seal_points st (seals sample_sealed) 0)) (live sample_sealed 0) = Some [3]"
    by code_simp
  then show ?thesis by auto
qed

theorem seals_in_order_witness:
  "\<exists>st. live sample_sealed 0 = Some st \<and> list_all (\<lambda>p. pt_made p < seals_made sample_sealed) (seal_points st (seals sample_sealed) 0) \<and>
     map pt_through (seal_points st (seals sample_sealed) 0) = [3]"
  using seals_in_order [OF run_reachable [OF sample_run_sealed sample_pushed_reachable]] sample_sealed_live
  by (fastforce simp: list_all_iff)

text \<open>
  C3. A lineage that has ended, or been retired, never comes back: its number is not given out again, and
  no call makes it live.
\<close>

theorem ended_stays_ended:
  assumes "dur_reachable d" and "dur_run d d'" and "l < next_lineage d" and "\<not> is_live d l"
  shows "\<not> is_live d' l \<and> l < next_lineage d'"
proof -
  note r = run_rises [OF assms(1,2)]
  have "\<not> live_in d' l"
  proof
    assume "live_in d' l"
    then obtain st' where st': "map_of (lineages d') l = Some st'" "\<not> l_ended st'"
      by (auto simp: live_in_def is_some_and_iff)
    show False
    proof (cases "map_of (lineages d) l")
      case None
      then show False using r st'(1) assms(3) unfolding rises_def by fastforce
    next
      case (Some st)
      then have "l_ended st" using assms(4) by (simp add: is_live_live_in live_in_def)
      then show False using r st' Some unfolding rises_def by fastforce
    qed
  qed
  then show ?thesis using assms(3) r by (auto simp: is_live_live_in rises_def)
qed

definition sample_minted :: "nat durability" where
  "sample_minted = snd (mint None sample_pushed)"

definition sample_retired :: "nat durability" where
  "sample_retired = snd (retire 1 sample_minted)"

lemma sample_retire_step:
  "panics sample_minted = [] \<and> panics sample_retired = [] \<and> \<not> is_live sample_retired 1 \<and> next_lineage sample_retired = 2 \<and>
   panics (snd (mint None sample_retired)) = []"
  by code_simp

theorem ended_stays_ended_witness: "\<not> is_live (snd (mint None sample_retired)) 1"
proof -
  have "dur_reachable sample_minted" unfolding sample_minted_def
    by (rule reach_step [OF sample_pushed_reachable step_mint])
      (use sample_retire_step in \<open>simp add: sample_minted_def\<close>)
  then have "dur_reachable sample_retired" unfolding sample_retired_def
    by (rule reach_step [OF _ step_retire]) (use sample_retire_step in \<open>simp add: sample_retired_def\<close>)
  then show ?thesis
    using ended_stays_ended [OF _ run_step [OF run_refl step_mint], of sample_retired None 1] sample_retire_step
    by simp
qed

end
