(* ===== verification/Durability_Calm.thy ===== *)
theory Durability_Calm
  imports Durability_Runs
begin

text \<open>
  An inconsistency, once found, stays found: no operation of the durability core forgets one. What holds
  of a state after a call that found none may be argued from every step of the call having found none,
  and an invariant need only be kept by the steps that find none (\<open>keeps\<close>).
\<close>

named_theorems calm

lemma fold_calm:
  assumes "\<And>x s. panics (p (f x s)) = [] \<Longrightarrow> panics (p s) = []"
  shows "panics (p (fold f xs s)) = [] \<Longrightarrow> panics (p s) = []"
  by (induction xs arbitrary: s) (auto dest: assms)

lemma opt_list_Nil [simp]: "opt_list x = [] \<longleftrightarrow> x = None"
  by (simp add: opt_list_def split: option.split)

lemma panics_inconsistent [simp]: "panics (inconsistent what d) = panics d @ [what]"
  by (simp add: inconsistent_def)

lemma panics_maybe [simp]: "panics (maybe_inconsistent what d) = panics d @ opt_list what"
  by (simp add: maybe_inconsistent_def opt_list_def split: option.split)

lemma panics_report [simp]: "panics (report e d) = panics d"
  by (simp add: report_def)

lemma panics_for_pair [simp]: "panics (snd (for_pair k d)) = panics d"
  by (simp add: for_pair_def)

lemma panics_end_seal [simp]: "panics (end_seal l through pair outcome d) = panics d"
  by (simp add: end_seal_def split: option.split)

lemma panics_end_flush [simp]: "panics (end_flush l pair pt outcome d) = panics d"
  by (simp add: end_flush_def)

lemma panics_window_result [simp]: "panics (window_result r d) = panics d @ opt_list (fst r)"
  by (simp add: window_result_def)

lemma panics_drop_event [simp]: "panics (drop_event e d) = panics d"
  by (simp add: drop_event_def split: event.split)

lemma emit_calm [calm]: "panics (snd (emit e s)) = [] \<Longrightarrow> panics (snd s) = []"
  by (simp add: emit_def split: option.splits)

section \<open>Writes and failures\<close>

lemma forget_each_panics [simp]: "panics (snd (forget_each ws r)) = panics (snd r)"
  by (induction ws r rule: forget_each.induct) (simp_all add: case_prod_beta)

lemma let_go_calm [calm]: "panics (let_go p d) = [] \<Longrightarrow> panics d = []"
  by (simp add: let_go_def case_prod_beta)

lemma ended_each_panics [simp]: "panics (snd (ended_each l es r)) = panics (snd r)"
  by (induction l es r rule: ended_each.induct) (simp_all add: case_prod_beta)

lemma let_go_ended_calm [calm]: "panics (let_go_ended l d) = [] \<Longrightarrow> panics d = []"
  by (simp add: let_go_ended_def case_prod_beta)

lemma let_go_one_calm [calm]: "panics (let_go_one k d) = [] \<Longrightarrow> panics d = []"
  by (simp add: let_go_one_def case_prod_beta split: option.splits)

lemma hold_uncovered_calm [calm]: "panics (hold_uncovered op d) = [] \<Longrightarrow> panics d = []"
  by (simp add: hold_uncovered_def)

lemma hold_for_seal_calm [calm]: "panics (hold_for_seal op d) = [] \<Longrightarrow> panics d = []"
  by (simp add: hold_for_seal_def)

lemma hold_suspects_calm [calm]: "panics (hold_suspects at d) = [] \<Longrightarrow> panics d = []"
  by (simp add: hold_suspects_def)

lemma release_suspects_calm [calm]: "panics (release_suspects f d) = [] \<Longrightarrow> panics d = []"
  by (simp add: release_suspects_def case_prod_beta)

lemma record_failure_calm [calm]: "panics (snd (record_failure cause r only i slot tok s)) = [] \<Longrightarrow> panics (snd s) = []"
  by (auto simp: record_failure_def case_prod_beta Let_def split: option.splits dest!: calm)

lemma observe_calm [calm]: "panics (snd (snd (observe cause r only s))) = [] \<Longrightarrow> panics (snd s) = []"
  by (cases "fst (mint_first \<lparr>fi_instance = inst_id (snd s), fi_seq = next_failure (snd s)\<rparr>
        ((snd s)\<lparr>next_failure := next_failure (snd s) + 1\<rparr>))")
    (auto simp: observe_def case_prod_beta Let_def dest!: calm)

lemma mark_calm [calm]: "panics (mark op kind d) = [] \<Longrightarrow> panics d = []"
  by (auto simp: mark_def Let_def case_prod_beta split: if_splits)

lemma fold_mark_calm [calm]: "panics (fold (\<lambda>p. mark (fst p) (snd p)) ops d) = [] \<Longrightarrow> panics d = []"
  by (rule fold_calm [where p = "\<lambda>d. d"]) (auto dest: calm)

lemma cover_calm [calm]: "panics (cover l sq d) = [] \<Longrightarrow> panics d = []"
  by (auto simp: cover_def Let_def split: option.splits seal_stage.splits if_splits dest!: calm)

lemma release_healed_calm [calm]: "panics (snd (release_healed s)) = [] \<Longrightarrow> panics (snd s) = []"
  unfolding release_healed_def
  by (rule fold_calm [where p = snd]) (auto simp: release_healed_at_def Let_def case_prod_beta split: if_splits dest: calm)

section \<open>Held operations and abandoned epochs\<close>

lemma abandon_each_panics [simp]: "panics (snd (abandon_each ss r)) = panics (snd r)"
proof (induction ss arbitrary: r)
  case (Cons s ss)
  then show ?case by (cases r) (auto simp: case_prod_beta split: option.split prod.split)
qed simp

lemma abandon_epochs_calm [calm]: "panics (abandon_epochs f d) = [] \<Longrightarrow> panics d = []"
  by (simp add: abandon_epochs_def case_prod_beta)

lemma forget_abandoned_calm [calm]: "panics (forget_abandoned l through d) = [] \<Longrightarrow> panics d = []"
  by (simp add: forget_abandoned_def Let_def)

lemma release_held_panics [simp]: "panics (snd (snd (release_held l through room es r))) = panics (snd (snd r))"
proof (induction es arbitrary: r)
  case (Cons e es)
  then show ?case by (cases r) (auto simp: Let_def split: option.split)
qed simp

lemma release_through_calm [calm]: "panics (snd (release_through l through s)) = [] \<Longrightarrow> panics (snd s) = []"
  by (auto simp: release_through_def case_prod_beta split: if_splits)

lemma stop_each_panics [simp]: "panics (snd (snd (stop_each es r))) = panics (snd (snd r))"
proof (induction es arbitrary: r)
  case (Cons e es)
  then show ?case by (cases r; cases e) (auto simp: Let_def split: option.split)
qed simp

lemma stop_held_calm [calm]: "panics (snd (stop_held stopped s)) = [] \<Longrightarrow> panics (snd s) = []"
  by (auto simp: stop_held_def case_prod_beta Let_def split: if_splits)

lemma part_answered_panics [simp]: "panics (part_answered l sq pt outcome d) = panics d"
  by (auto simp: part_answered_def Let_def split: option.split)

section \<open>Seals\<close>

lemma open_pairs_panics [simp]: "panics (snd (open_pairs l sq through pts r)) = panics (snd r)"
proof (induction pts arbitrary: r)
  case (Cons pt pts)
  then show ?case
    by (cases r; cases "fst (for_pair FlushKind (snd r))")
      (auto simp: case_prod_beta Let_def prod.case_eq_if split: option.split)
qed simp

lemma start_seal_panics [simp]: "panics (snd (snd (start_seal l s r))) = panics (snd (snd r))"
  by (simp add: start_seal_def case_prod_beta Let_def)

lemma start_each_panics [simp]: "panics (snd (snd (start_each l oldest es r))) = panics (snd (snd r))"
  by (induction es arbitrary: r) auto

lemma report_flags_panics:
  "panics (report_flags fl d) = [] \<longleftrightarrow> panics d = [] \<and> fl = no_flags"
  by (cases fl) (auto simp: report_flags_def no_flags_def)

lemma start_seals_calm [calm]: "panics (snd (start_seals l s)) = [] \<Longrightarrow> panics (snd s) = []"
  by (simp add: start_seals_def case_prod_beta report_flags_panics)

lemma advance_seals_calm [calm]: "panics (snd (advance_seals l s)) = [] \<Longrightarrow> panics (snd s) = []"
  by (auto simp: advance_seals_def case_prod_beta dest: calm)

lemma pass_seal_calm [calm]: "panics (pass_seal l through recorded found d) = [] \<Longrightarrow> panics d = []"
  by (auto simp: pass_seal_def case_prod_beta Let_def split: option.splits)

lemma passed_through_calm [calm]: "panics (snd (passed_through l through s)) = [] \<Longrightarrow> panics (snd s) = []"
  by (auto simp: passed_through_def dest!: calm)

lemma mark_step_calm: "mark_step l s = Some s' \<Longrightarrow> panics (snd s') = [] \<Longrightarrow> panics (snd s) = []"
  by (auto elim!: mark_step_cases dest!: calm)

lemma mark_loop_calm [calm]: "panics (snd (mark_loop l s)) = [] \<Longrightarrow> panics (snd s) = []"
proof (induction l s rule: mark_loop.induct)
  case (1 l s)
  then show ?case
    by (cases "mark_step l s") (auto simp: mark_loop.simps [of l s] dest: mark_step_calm)
qed

lemma answer_blocked_calm [calm]: "panics (snd (answer_blocked l p s)) = [] \<Longrightarrow> panics (snd s) = []"
  by (cases p) (auto simp: answer_blocked_def answer_at_def split: option.splits dest!: calm)

lemma advance_mark_calm [calm]: "panics (snd (advance_mark l s)) = [] \<Longrightarrow> panics (snd s) = []"
  unfolding advance_mark_def Let_def
  by (drule fold_calm [where p = snd, rotated]) (auto dest: calm)

lemma advance_calm [calm]: "panics (snd (advance s)) = [] \<Longrightarrow> panics (snd s) = []"
proof -
  define lv where "lv = take (c_lineages (cap (snd s))) (live_keys (snd s))"
  define s1 where "s1 = (if c_lineages (cap (snd s)) < length (live_keys (snd s))
    then (fst s, inconsistent ''more live lineages than the lineages declared'' (snd s)) else s)"
  assume "panics (snd (advance s)) = []"
  then have "panics (snd (fold advance_mark lv (release_healed (fold advance_seals lv s1)))) = []"
    unfolding advance_def Let_def lv_def s1_def .
  then have "panics (snd (release_healed (fold advance_seals lv s1))) = []"
    by (rule fold_calm [where p = snd, rotated]) (rule advance_mark_calm)
  then have "panics (snd (fold advance_seals lv s1)) = []" by (rule release_healed_calm)
  then have "panics (snd s1) = []" by (rule fold_calm [where p = snd, rotated]) (rule advance_seals_calm)
  then show ?thesis by (auto simp: s1_def split: if_splits)
qed

section \<open>Keeping an invariant\<close>

text \<open>A step keeps an invariant of the states with their seals in order, if it found no inconsistency.\<close>

definition keeps :: "('e::linorder durability \<Rightarrow> bool) \<Rightarrow> 'e durability \<Rightarrow> 'e durability \<Rightarrow> bool" where
  "keeps I d d' \<longleftrightarrow> advances d d' \<and> (panics d' = [] \<longrightarrow> panics d = [] \<and> (marks_inv d \<longrightarrow> I d \<longrightarrow> I d'))"

lemma keeps_refl [simp]: "keeps I d d"
  by (simp add: keeps_def)

lemma keeps_trans: "keeps I a b \<Longrightarrow> keeps I b c \<Longrightarrow> keeps I a c"
  unfolding keeps_def by (auto simp: advances_def intro: rises_trans)

lemma keepsI:
  assumes "advances d d'" and "panics d' = [] \<Longrightarrow> panics d = []"
    and "panics d' = [] \<Longrightarrow> marks_inv d \<Longrightarrow> I d \<Longrightarrow> I d'"
  shows "keeps I d d'"
  using assms by (simp add: keeps_def)

lemma fold_keeps: "(\<And>x s. keeps I (p s) (p (f x s))) \<Longrightarrow> keeps I (p s) (p (fold f xs s))"
proof (induction xs arbitrary: s)
  case (Cons x xs)
  show ?case using keeps_trans [OF Cons(2) [of s x] Cons(1) [OF Cons(2), of "f x s"]] by simp
qed simp

lemma reachable_calm: "dur_reachable d \<Longrightarrow> panics d = []"
  by (induction rule: dur_reachable.induct) (auto simp: new_fields)

lemma reachable_keeps:
  assumes "\<And>inst clk wants c srv d. durability_new inst clk wants c srv = Inr d \<Longrightarrow> I d"
    and "\<And>d c due d'. dur_step d c due d' \<Longrightarrow> keeps I d d'"
  shows "dur_reachable d \<Longrightarrow> I d"
proof (induction rule: dur_reachable.induct)
  case (reach_step d c due d')
  then show ?case using assms(2) [of d c due d'] reachable_marks_inv [of d] by (simp add: keeps_def)
qed (rule assms(1))

end
