(* ===== verification/Durability_Quiet.thy ===== *)
theory Durability_Quiet
  imports Durability_Calm
begin

text \<open>
  What the core has not yet named to a seal, by lineage and epoch, and the counts of writes in flight and
  of writes held it keeps beside its tables; what it is for a lineage to be ready (\<open>lineage_ready\<close>), and
  the parts of the core's operations that leave the counts and the seals as they are and have no write
  more (\<open>quiet\<close>): they keep every lineage ready.
\<close>

section \<open>Counts by epoch\<close>

definition tally :: "('k, nat) table \<Rightarrow> 'k \<Rightarrow> nat" where
  "tally t k = (case map_of t k of None \<Rightarrow> 0 | Some n \<Rightarrow> n)"

text \<open>The table counts at least what is to be counted.\<close>

definition counted :: "(key \<times> 'e::linorder, nat) table \<Rightarrow> (key \<times> 'e \<Rightarrow> nat) \<Rightarrow> bool" where
  "counted t f \<longleftrightarrow> tsorted t \<and> (\<forall>k. f k \<le> tally t k)"

lemma counted_mono: "counted t f \<Longrightarrow> (\<And>k. g k \<le> f k) \<Longrightarrow> counted t g"
  unfolding counted_def by (meson order_trans)

lemma tally_count_up:
  assumes "count_up lim l e t = Some t'"
  shows "tally t' = (tally t)((l, e) := tally t (l, e) + 1)"
  using assms
  by (auto simp: count_up_def tally_def tinsert_def map_of_tmod fun_eq_iff split: option.splits if_splits)

lemma tally_count_down: "tally (snd (count_down l e t)) = (tally t)((l, e) := tally t (l, e) - 1)"
  by (auto simp: count_down_def tally_def map_of_tmod map_of_tdel_iff fun_eq_iff split: option.splits)

lemma tsorted_count_up: "count_up lim l e t = Some t' \<Longrightarrow> tsorted t \<Longrightarrow> tsorted t'"
  by (auto simp: count_up_def tinsert_def split: option.splits if_splits)

lemma tsorted_count_down: "tsorted t \<Longrightarrow> tsorted (snd (count_down l e t))"
  by (auto simp: count_down_def split: option.splits)

lemma counted_up:
  "count_up lim l e t = Some t' \<Longrightarrow> counted t f \<Longrightarrow> counted t' (f((l, e) := f (l, e) + 1))"
  by (simp add: counted_def tally_count_up tsorted_count_up)

lemma counted_down: "counted t f \<Longrightarrow> counted (snd (count_down l e t)) (f((l, e) := f (l, e) - 1))"
  by (simp add: counted_def tally_count_down tsorted_count_down diff_le_mono)

lemma lowest_counted:
  assumes "counted t f" and "0 < f (l, e)"
  shows "\<exists>m. lowest t l = Some m \<and> m \<le> e"
proof -
  let ?t = "table_of id t l Unbounded Unbounded"
  have t: "?t = filter (\<lambda>x. fst (fst x) = l) t"
    unfolding table_of_def tbetween_def by (rule filter_cong) auto
  have "map_of t (l, e) \<noteq> None" using assms by (fastforce simp: counted_def tally_def split: option.splits)
  then obtain n where "((l, e), n) \<in> set t" by (auto dest: map_of_SomeD)
  then have mem: "((l, e), n) \<in> set ?t" by (simp add: t)
  have "tsorted ?t" unfolding t using assms(1) by (auto simp: counted_def)
  then obtain x xs where x: "?t = x # xs" "\<forall>y \<in> set xs. fst x < fst y"
    using mem by (cases ?t) (auto simp: tsorted_Cons)
  have "x \<in> set ?t" by (simp add: x(1))
  then have "fst (fst x) = l" by (simp add: t)
  moreover have "fst x \<le> (l, e)" using mem x by force
  ultimately have "snd (fst x) \<le> e" by (cases x) (auto simp: less_eq_prod_def)
  then show ?thesis by (simp add: lowest_def x(1) first_of_def)
qed

section \<open>What is not yet named\<close>

definition flight :: "'e durability \<Rightarrow> key \<times> 'e \<Rightarrow> nat" where
  "flight d k = tcount (\<lambda>w. w_stage w = InFlight \<and> (w_lineage w, w_epoch w) = k) (writes d)"

definition waiting :: "'e durability \<Rightarrow> key \<times> 'e \<Rightarrow> nat" where
  "waiting d k = tcount (\<lambda>h. is_some_and (\<lambda>a. (a_lineage a, a_epoch a) = k) (ho_write h)) (held d)"

definition counts_inv :: "'e::linorder durability \<Rightarrow> bool" where
  "counts_inv d \<longleftrightarrow> tsorted (writes d) \<and> tsorted (held d) \<and>
     counted (in_flight_by_epoch d) (flight d) \<and> counted (held_by_epoch d) (waiting d)"

definition holds_at :: "'e durability \<Rightarrow> key \<Rightarrow> 'e \<Rightarrow> bool" where
  "holds_at d l e \<longleftrightarrow> (\<exists>k h a. map_of (held d) k = Some h \<and> ho_write h = Some a \<and> a_lineage a = l \<and> a_epoch a = e)"

text \<open>The epochs of a lineage that have a write uncovered or held, and those that have one not named.\<close>

definition present :: "'e durability \<Rightarrow> key \<Rightarrow> 'e \<Rightarrow> bool" where
  "present d l e \<longleftrightarrow> (\<exists>k w. map_of (writes d) k = Some w \<and> w_lineage w = l \<and> w_epoch w = e) \<or> holds_at d l e"

definition unnamed :: "'e durability \<Rightarrow> key \<Rightarrow> 'e \<Rightarrow> bool" where
  "unnamed d l e \<longleftrightarrow>
     (\<exists>k w. map_of (writes d) k = Some w \<and> w_lineage w = l \<and> w_epoch w = e \<and> (\<forall>sq. w_stage w \<noteq> Named sq)) \<or>
     holds_at d l e"

record 'e sview =
  sv_through :: 'e
  sv_started :: bool
  sv_trailing :: "'e option"

definition sview_of :: "'e seal \<Rightarrow> 'e sview" where
  "sview_of s = \<lparr>sv_through = s_through s, sv_started = (s_stage s \<noteq> Waiting), sv_trailing = map_option em_through (s_trailing s)\<rparr>"

record 'e lview =
  lv_sealed :: "'e option"
  lv_durable :: "'e option"
  lv_leading :: "'e option"
  lv_ended :: bool

definition lview_of :: "'e lineage_state \<Rightarrow> 'e lview" where
  "lview_of st = \<lparr>lv_sealed = l_sealed_through st, lv_durable = l_durable_through st,
     lv_leading = map_option em_through (l_leading st), lv_ended = l_ended st\<rparr>"

definition sviews :: "(key \<times> nat, 'e seal) table \<Rightarrow> (key \<times> nat, 'e sview) table" where
  "sviews t = map (\<lambda>e. (fst e, sview_of (snd e))) t"

definition lviews :: "(key, 'e lineage_state) table \<Rightarrow> (key, 'e lview) table" where
  "lviews t = map (\<lambda>e. (fst e, lview_of (snd e))) t"

text \<open>
  A lineage is ready when nothing uncovered is at or below its mark or its leading empty seal, what is at
  or below the seal point is at or below a recorded seal, none lies between a recorded seal and the empty
  one that trails it, and nothing unnamed is at or below a started seal.
\<close>

definition lineage_ready :: "('e::linorder \<Rightarrow> bool) \<Rightarrow> ('e \<Rightarrow> bool) \<Rightarrow> 'e lview \<Rightarrow> 'e sview set \<Rightarrow> bool" where
  "lineage_ready P U v ss \<longleftrightarrow>
     (\<forall>e. P e \<longrightarrow> lv_durable v < Some e \<and> lv_leading v < Some e \<and>
        (Some e \<le> lv_sealed v \<longrightarrow> (\<exists>s \<in> ss. e \<le> sv_through s)) \<and>
        (\<forall>s \<in> ss. e \<le> sv_through s \<or> sv_trailing s < Some e)) \<and>
     (\<forall>e s. U e \<longrightarrow> s \<in> ss \<longrightarrow> sv_started s \<longrightarrow> sv_through s < e)"

definition views_of :: "(key \<times> nat, 'e sview) table \<Rightarrow> key \<Rightarrow> 'e sview set" where
  "views_of t l = {v. \<exists>sq. ((l, sq), v) \<in> set t}"

definition ready_inv :: "'e::linorder durability \<Rightarrow> bool" where
  "ready_inv d \<longleftrightarrow> counts_inv d \<and>
     (\<forall>l v. map_of (lviews (lineages d)) l = Some v \<longrightarrow> \<not> lv_ended v \<longrightarrow>
        lineage_ready (present d l) (unnamed d l) v (views_of (sviews (seals d)) l))"

section \<open>Changes that only lessen\<close>

fun later :: "stage \<Rightarrow> stage \<Rightarrow> bool" where
  "later InFlight s = True"
| "later Completed s = (s \<noteq> InFlight)"
| "later (Named sq) s = (s = Named sq)"

lemma later_refl [simp]: "later s s"
  by (cases s) auto

lemma later_trans: "later a b \<Longrightarrow> later b c \<Longrightarrow> later a c"
  by (cases a; cases b; cases c) auto

text \<open>A write as it was, but for its stage, which may be a later one, and when its lineage ended.\<close>

definition moved :: "'e write_rec \<Rightarrow> 'e write_rec \<Rightarrow> bool" where
  "moved w w' \<longleftrightarrow> w' = w\<lparr>w_stage := w_stage w', w_until := w_until w'\<rparr> \<and> later (w_stage w) (w_stage w')"

definition fewer :: "(nat, 'e write_rec) table \<Rightarrow> (nat, 'e write_rec) table \<Rightarrow> bool" where
  "fewer t t' \<longleftrightarrow> (tsorted t \<longrightarrow> tsorted t' \<and>
     (\<forall>k w'. map_of t' k = Some w' \<longrightarrow> (\<exists>w. map_of t k = Some w \<and> moved w w')))"

definition fewer_held :: "(nat, 'e held_op) table \<Rightarrow> (nat, 'e held_op) table \<Rightarrow> bool" where
  "fewer_held t t' \<longleftrightarrow> (tsorted t \<longrightarrow> tsorted t' \<and>
     (\<forall>k h'. map_of t' k = Some h' \<longrightarrow> (\<exists>h. map_of t k = Some h \<and> ho_write h' = ho_write h)))"

lemma moved_refl [simp]: "moved w w"
  by (simp add: moved_def)

lemma moved_trans: "moved a b \<Longrightarrow> moved b c \<Longrightarrow> moved a c"
  by (cases a; cases b; cases c) (auto simp: moved_def intro: later_trans)

lemma moved_fields:
  "moved w w' \<Longrightarrow> w_op w' = w_op w \<and> w_lineage w' = w_lineage w \<and> w_epoch w' = w_epoch w \<and> w_file w' = w_file w \<and>
     w_routing w' = w_routing w \<and> w_domains w' = w_domains w \<and> later (w_stage w) (w_stage w')"
  by (cases w; cases w') (auto simp: moved_def)

lemma fewer_refl [simp]: "fewer t t"
  by (auto simp: fewer_def intro: moved_refl)

lemma fewer_trans: "fewer a b \<Longrightarrow> fewer b c \<Longrightarrow> fewer a c"
  unfolding fewer_def by (meson moved_trans)

lemma fewer_held_refl [simp]: "fewer_held t t"
  by (simp add: fewer_held_def)

lemma fewer_held_trans: "fewer_held a b \<Longrightarrow> fewer_held b c \<Longrightarrow> fewer_held a c"
  unfolding fewer_held_def by metis

lemma map_of_filter_sorted: "tsorted t \<Longrightarrow> map_of (filter p t) k = Some v \<Longrightarrow> map_of t k = Some v"
  by (metis filter_is_subset subsetD tsorted_filter tsorted_map_of)

lemma fewer_filter [simp]: "fewer t (filter p t)"
  unfolding fewer_def by (meson map_of_filter_sorted moved_refl tsorted_filter)

lemma fewer_tdel [simp]: "fewer t (tdel k t)"
  by (simp add: tdel_def)

lemma fewer_tmod: "(\<And>w. map_of t k = Some w \<Longrightarrow> moved w (f w)) \<Longrightarrow> fewer t (tmod k f t)"
  by (auto simp: fewer_def map_of_tmod split: if_splits)

lemma fewer_tmap: "(\<And>w. moved w (f w)) \<Longrightarrow> fewer t (tmap f t)"
  by (auto simp: fewer_def map_of_tmap)

lemma fewer_tsorted: "fewer t t' \<Longrightarrow> tsorted t \<Longrightarrow> tsorted t'"
  by (simp add: fewer_def)

text \<open>The states agree on the lineages and their seals as far as \<^const>\<open>lineage_ready\<close> sees them, and on
  the counts, and have no write or held operation more.\<close>

definition quiet :: "'e durability \<Rightarrow> 'e durability \<Rightarrow> bool" where
  "quiet d d' \<longleftrightarrow> fewer (writes d) (writes d') \<and> fewer_held (held d) (held d') \<and>
     in_flight_by_epoch d' = in_flight_by_epoch d \<and> held_by_epoch d' = held_by_epoch d \<and>
     lviews (lineages d') = lviews (lineages d) \<and> sviews (seals d') = sviews (seals d)"

lemma quiet_refl [simp]: "quiet d d"
  by (simp add: quiet_def)

lemma quiet_trans: "quiet a b \<Longrightarrow> quiet b c \<Longrightarrow> quiet a c"
  unfolding quiet_def by (metis fewer_trans fewer_held_trans)

lemma quiet_fields:
  "writes d' = writes d \<Longrightarrow> held d' = held d \<Longrightarrow> in_flight_by_epoch d' = in_flight_by_epoch d \<Longrightarrow>
   held_by_epoch d' = held_by_epoch d \<Longrightarrow> lineages d' = lineages d \<Longrightarrow> seals d' = seals d \<Longrightarrow> quiet d d'"
  by (simp add: quiet_def)

lemma fewer_tcount:
  assumes "fewer t t'" and "tsorted t" and "\<And>w w'. moved w w' \<Longrightarrow> p w' \<Longrightarrow> p w"
  shows "tcount p t' \<le> tcount p t"
proof -
  have d: "distinct (keys t)" "distinct (keys t')"
    using assms(1,2) tsorted_distinct fewer_tsorted by blast+
  have "{k. \<exists>v. map_of t' k = Some v \<and> p v} \<subseteq> {k. \<exists>v. map_of t k = Some v \<and> p v}"
    using assms unfolding fewer_def by blast
  moreover have "finite {k. \<exists>v. map_of t k = Some v \<and> p v}"
    by (rule finite_subset [OF _ finite_dom_map_of [of t]]) (auto simp: dom_def)
  ultimately show ?thesis unfolding tcount_eq_card [OF d(1)] tcount_eq_card [OF d(2)] by (rule card_mono [rotated])
qed

lemma fewer_held_tcount:
  assumes "fewer_held t t'" and "tsorted t" and "\<And>h h'. ho_write h' = ho_write h \<Longrightarrow> p h' \<Longrightarrow> p h"
  shows "tcount p t' \<le> tcount p t"
proof -
  have d: "distinct (keys t)" "distinct (keys t')"
    using assms(1,2) tsorted_distinct unfolding fewer_held_def by blast+
  have "{k. \<exists>v. map_of t' k = Some v \<and> p v} \<subseteq> {k. \<exists>v. map_of t k = Some v \<and> p v}"
    using assms unfolding fewer_held_def by blast
  moreover have "finite {k. \<exists>v. map_of t k = Some v \<and> p v}"
    by (rule finite_subset [OF _ finite_dom_map_of [of t]]) (auto simp: dom_def)
  ultimately show ?thesis unfolding tcount_eq_card [OF d(1)] tcount_eq_card [OF d(2)] by (rule card_mono [rotated])
qed

lemma fewer_flight:
  assumes "fewer (writes d) (writes d')" and "tsorted (writes d)"
  shows "flight d' k \<le> flight d k"
  unfolding flight_def
proof (rule fewer_tcount [OF assms])
  show "w_stage w = InFlight \<and> (w_lineage w, w_epoch w) = k"
    if "moved w w'" "w_stage w' = InFlight \<and> (w_lineage w', w_epoch w') = k" for w w'
    using moved_fields [OF that(1)] that(2) by (cases "w_stage w") auto
qed

lemma fewer_waiting:
  "fewer_held (held d) (held d') \<Longrightarrow> tsorted (held d) \<Longrightarrow> waiting d' k \<le> waiting d k"
  unfolding waiting_def by (rule fewer_held_tcount) auto

lemma fewer_present:
  assumes "fewer (writes d) (writes d')" and "fewer_held (held d) (held d')" and "tsorted (writes d)" and "tsorted (held d)"
  shows "present d' l e \<Longrightarrow> present d l e" and "unnamed d' l e \<Longrightarrow> unnamed d l e"
proof -
  have h: "holds_at d' l e \<Longrightarrow> holds_at d l e"
    using assms(2,4) unfolding fewer_held_def holds_at_def by metis
  show "present d' l e \<Longrightarrow> present d l e"
    using assms(1,3) h moved_fields unfolding present_def fewer_def by metis
  have stage: "\<forall>sq. w_stage w \<noteq> Named sq" if "moved w w'" "\<forall>sq. w_stage w' \<noteq> Named sq" for w w' :: "'a write_rec"
    using moved_fields [OF that(1)] that(2) by (cases "w_stage w") auto
  assume u: "unnamed d' l e"
  show "unnamed d l e"
  proof (cases "holds_at d' l e")
    case False
    then obtain k w' where w': "map_of (writes d') k = Some w'" "w_lineage w' = l" "w_epoch w' = e" "\<forall>sq. w_stage w' \<noteq> Named sq"
      using u unfolding unnamed_def by blast
    then obtain w where w: "map_of (writes d) k = Some w" "moved w w'" using assms(1,3) unfolding fewer_def by blast
    then show ?thesis using moved_fields [OF w(2)] stage [OF w(2) w'(4)] w'(2,3) unfolding unnamed_def by metis
  qed (use h in \<open>simp add: unnamed_def\<close>)
qed

lemma lineage_ready_mono:
  "lineage_ready P U v ss \<Longrightarrow> (\<And>e. P' e \<Longrightarrow> P e) \<Longrightarrow> (\<And>e. U' e \<Longrightarrow> U e) \<Longrightarrow> lineage_ready P' U' v ss"
  unfolding lineage_ready_def by blast

lemma quiet_ready: "quiet d d' \<Longrightarrow> ready_inv d \<Longrightarrow> ready_inv d'"
proof -
  assume q: "quiet d d'" and r: "ready_inv d"
  have c: "counts_inv d" using r by (simp add: ready_inv_def)
  have "counts_inv d'"
    using q c fewer_flight [of d d'] fewer_waiting [of d d']
    unfolding quiet_def counts_inv_def fewer_def fewer_held_def by (auto intro: counted_mono)
  moreover have "lineage_ready (present d' l) (unnamed d' l) v ss" if "lineage_ready (present d l) (unnamed d l) v ss" for l v ss
    by (rule lineage_ready_mono [OF that])
      (use q c fewer_present [of d d' l] in \<open>auto simp: quiet_def counts_inv_def\<close>)
  ultimately show ?thesis using r q by (simp add: ready_inv_def quiet_def)
qed

lemma quiet_keeps:
  "quiet d d' \<Longrightarrow> advances d d' \<Longrightarrow> (panics d' = [] \<Longrightarrow> panics d = []) \<Longrightarrow> keeps ready_inv d d'"
  by (rule keepsI) (auto intro: quiet_ready)

section \<open>The quiet parts\<close>

named_theorems quiet_intros

lemma let_go_writes: "writes (let_go p d) = filter (\<lambda>e. \<not> p (snd e)) (writes d)"
  by (simp add: let_go_def case_prod_beta)

lemma let_go_one_writes: "writes (let_go_one k d) = (if map_of (writes d) k = None then writes d else tdel k (writes d))"
  by (simp add: let_go_one_def case_prod_beta split: option.split)

lemma ended_each_writes: "fewer (writes (snd r)) (writes (snd (ended_each l es r)))"
proof (induction es arbitrary: r)
  case (Cons e es)
  obtain lost d where r: "r = (lost, d)" by fastforce
  show ?case
    using Cons [of "(lost, d)"]
      Cons [of "(first_error lost (fst (forget (snd e) (d\<lparr>writes := tdel (fst e) (writes d)\<rparr>))),
        snd (forget (snd e) (d\<lparr>writes := tdel (fst e) (writes d)\<rparr>)))"]
    by (auto simp: r case_prod_beta intro: fewer_trans [OF fewer_tdel])
qed simp

lemma let_go_quiet [quiet_intros]: "quiet d (let_go p d)"
  by (simp add: quiet_def let_go_writes)

lemma let_go_one_quiet [quiet_intros]: "quiet d (let_go_one k d)"
  by (simp add: quiet_def let_go_one_writes)

lemma let_go_ended_quiet [quiet_intros]: "quiet d (let_go_ended l d)"
  using ended_each_writes [of "(None, d)" l "writes d"]
  by (simp add: quiet_def let_go_ended_def case_prod_beta)

lemma cover_quiet [quiet_intros]: "quiet d (cover l sq d)"
proof -
  have "fewer (writes d) (writes (cover l sq d))"
    by (auto simp: cover_def Let_def let_go_writes split: option.split seal_stage.split)
  then show ?thesis by (simp add: quiet_def)
qed

lemma release_held_fewer: "fewer_held (held (snd (snd r))) (held (snd (snd (release_held l through room es r))))"
proof (induction es arbitrary: r)
  case (Cons e es)
  obtain u rs d where r: "r = (u, rs, d)" by (cases r)
  have "fewer_held (held d) (tmod (fst e) (\<lambda>h. h\<lparr>ho_ready := True\<rparr>) (held d))"
    by (auto simp: fewer_held_def map_of_tmod split: if_splits)
  note step = fewer_held_trans [OF this]
  have IH: "fewer_held (held d') (held (snd (snd (release_held l through room es (u', rs', d')))))" for u' rs' d'
    using Cons [of "(u', rs', d')"] by simp
  have "fewer_held (held d) (held (snd (snd (release_held l through room es (u', rs', d')))))"
    if "held d' = tmod (fst e) (\<lambda>h. h\<lparr>ho_ready := True\<rparr>) (held d)" for u' rs' d'
    using step [OF IH [of d' u' rs', unfolded that]] .
  then show ?case
    using IH by (auto simp: r Let_def split: option.split)
qed simp

lemma release_through_held: "fewer_held (held (snd s)) (held (snd (release_through l through s)))"
  using release_held_fewer [of "(False, du_released (fst s), snd s)" l through "ops_room (snd s)" "held (snd s)"]
  by (simp add: release_through_def case_prod_beta)

lemma release_through_quiet [quiet_intros]: "quiet (snd s) (snd (release_through l through s))"
  by (simp add: quiet_def release_through_held)

lemma sviews_tmod: "(\<And>s. sview_of (f s) = sview_of s) \<Longrightarrow> sviews (tmod k f t) = sviews t"
  by (auto simp: sviews_def tmod_def)

lemma lviews_tmod: "(\<And>st. lview_of (f st) = lview_of st) \<Longrightarrow> lviews (tmod k f t) = lviews t"
  by (auto simp: lviews_def tmod_def)

lemma release_heals_quiet [quiet_intros]: "quiet d (release_heals l made through d)"
  by (simp add: quiet_def release_heals_def Let_def lviews_tmod lview_of_def)

lemma finish_empty_view [simp]: "map_option em_through (fst (finish_empty oldest e lst)) = map_option em_through e"
  by (simp add: finish_empty_def split: option.split)

lemma finish_trailing_view [simp]: "sviews (fst (finish_trailing oldest es r)) = sviews (fst r)"
  by (induction oldest es r rule: finish_trailing.induct) (simp_all add: sviews_tmod sview_of_def)

lemma finish_empties_quiet [quiet_intros]: "quiet d (finish_empties l d)"
proof (cases "map_of (lineages d) l")
  case (Some st)
  define d' where "d' = d\<lparr>lineages := tmod l (\<lambda>st. st\<lparr>l_leading := fst (finish_empty (oldest_outstanding d l) (l_leading st) None)\<rparr>) (lineages d),
      seals := fst (finish_trailing (oldest_outstanding d l) (seals_of (seals d) l)
                 (seals d, snd (finish_empty (oldest_outstanding d l) (l_leading st) None)))\<rparr>"
  have "quiet d d'" by (simp add: quiet_def d'_def lviews_tmod lview_of_def)
  moreover have "finish_empties l d = d' \<or> (\<exists>made through. finish_empties l d = release_heals l made through d')"
    by (auto simp: finish_empties_def Some case_prod_beta Let_def d'_def split: option.split)
  ultimately show ?thesis using release_heals_quiet quiet_trans by metis
qed (simp add: finish_empties_def)

lemma sviews_stage:
  assumes "tsorted t" and "map_of t k = Some s" and "sview_of (f s) = sview_of s"
  shows "sviews (tmod k f t) = sviews t"
proof -
  have "sview_of (f v) = sview_of v" if "(k, v) \<in> set t" for v
    using that assms tsorted_map_of by fastforce
  then show ?thesis by (auto simp: sviews_def tmod_def)
qed

lemma finish_each_quiet:
  assumes "tsorted (seals (snd r))" and "distinct (keys es)" and "\<forall>e \<in> set es. map_of (seals (snd r)) (fst e) = Some (snd e)"
  shows "quiet (snd r) (snd (finish_each l es r))"
  using assms
proof (induction es arbitrary: r)
  case (Cons e es)
  obtain lst d where r: "r = (lst, d)" by fastforce
  show ?case
  proof (cases "finishable d l (snd e)")
    case (Some ok)
    let ?d = "d\<lparr>seals := tmod (fst e) (\<lambda>s. s\<lparr>s_stage := Done ok\<rparr>) (seals d)\<rparr>"
    have "s_stage (snd e) \<noteq> Waiting" using Some by (auto simp: finishable_def)
    then have "quiet d ?d"
      using Cons.prems sviews_stage [of "seals d" "fst e" "snd e" "\<lambda>s. s\<lparr>s_stage := Done ok\<rparr>"]
      by (simp add: quiet_def r sview_of_def)
    moreover have "map_of (seals ?d) (fst x) = Some (snd x)" if "x \<in> set es" for x
    proof -
      have "fst x \<noteq> fst e" using Cons.prems(2) that by (metis distinct.simps(2) image_eqI list.set_map list.simps(9))
      then show ?thesis using Cons.prems that by (simp add: r map_of_tmod)
    qed
    then have "quiet ?d (snd (finish_each l es (if ok then Some (s_made (snd e), s_through (snd e)) else lst, ?d)))"
      using Cons.IH [of "(if ok then Some (s_made (snd e), s_through (snd e)) else lst, ?d)"] Cons.prems
      by (simp add: r)
    ultimately show ?thesis using Some by (auto simp: r intro: quiet_trans)
  qed (use Cons.IH [of "(lst, d)"] Cons.prems in \<open>simp add: r\<close>)
qed simp

lemma finish_seals_quiet:
  assumes "tsorted (seals d)"
  shows "quiet d (finish_seals l d)"
proof -
  have so: "tsorted (seals_of (seals d) l)" using assms by (auto simp: seals_of_def tbetween_def)
  have "map_of (seals d) (fst e) = Some (snd e)" if "e \<in> set (seals_of (seals d) l)" for e
    using that assms tsorted_map_of [of "seals d" "fst e" "snd e"] by (simp add: seals_of_def tbetween_def)
  then have q: "quiet d (snd (finish_each l (seals_of (seals d) l) (None, d)))"
    using finish_each_quiet [of "(None, d)" "seals_of (seals d) l" l] assms tsorted_distinct [OF so] by simp
  show ?thesis
    unfolding finish_seals_def case_prod_beta
    using q by (auto split: option.split intro: quiet_trans [OF _ release_heals_quiet])
qed

end
