(* ===== verification/Durability_Ready.thy ===== *)
theory Durability_Ready
  imports Durability_Quiet
begin

text \<open>
  No seal starts, and no mark passes, before its writes are done: every write at or below a seal that has
  started, in flight, completed or held, has been named to a seal, and nothing uncovered is left at or
  below a mark. The argument rests on the counts of writes in flight and of writes held, by epoch, that
  the core keeps beside its tables and reads to decide whether a seal may start.
\<close>

section \<open>Seals start\<close>

definition named_to :: "key \<Rightarrow> nat \<Rightarrow> 'e::linorder \<Rightarrow> 'e write_rec \<Rightarrow> 'e write_rec" where
  "named_to l sq through w = (if sealable l through w then w\<lparr>w_stage := Named sq\<rparr> else w)"

lemma fold_tmod_keys [simp]:
  "keys (fold (\<lambda>e T. if p (snd e) then tmod (fst e) f T else T) es T) = keys T"
  by (induction es arbitrary: T) (auto simp del: list.map)

lemma fold_tmod_map_of:
  assumes "distinct (keys es)"
  shows "map_of (fold (\<lambda>e T. if p (snd e) then tmod (fst e) f T else T) es T) k =
    (if \<exists>v. map_of es k = Some v \<and> p v then map_option f (map_of T k) else map_of T k)"
  using assms
proof (induction es arbitrary: T)
  case (Cons e es)
  have "map_of es (fst e) = None" using Cons.prems by (simp add: map_of_eq_None_iff)
  then show ?case using Cons by (cases e) (auto simp: map_of_tmod)
qed simp

lemma name_write_writes:
  "writes (snd (name_write l sq through e s)) =
   (if sealable l through (snd e) then tmod (fst e) (\<lambda>w. w\<lparr>w_stage := Named sq\<rparr>) (writes (snd s)) else writes (snd s))"
  by (simp add: name_write_def Let_def case_prod_beta)

lemma fold_name_write_writes:
  "writes (snd (fold (name_write l sq through) es s)) =
   fold (\<lambda>e T. if sealable l through (snd e) then tmod (fst e) (\<lambda>w. w\<lparr>w_stage := Named sq\<rparr>) T else T) es (writes (snd s))"
  by (induction es arbitrary: s) (simp_all add: name_write_writes)

lemma start_seal_writes:
  assumes "tsorted (writes (snd (snd r)))"
  shows "tsorted (writes (snd (snd (start_seal l s r))))"
    and "map_of (writes (snd (snd (start_seal l s r)))) k =
      map_option (named_to l (s_seq s) (s_through s)) (map_of (writes (snd (snd r))) k)"
proof -
  have eq: "writes (snd (snd (start_seal l s r))) =
      fold (\<lambda>e T. if sealable l (s_through s) (snd e) then tmod (fst e) (\<lambda>w. w\<lparr>w_stage := Named (s_seq s)\<rparr>) T else T)
        (writes (snd (snd r))) (writes (snd (snd r)))"
    by (simp add: start_seal_def case_prod_beta Let_def fold_name_write_writes)
  show "tsorted (writes (snd (snd (start_seal l s r))))" using assms unfolding eq by (simp add: tsorted_def)
  show "map_of (writes (snd (snd (start_seal l s r)))) k =
      map_option (named_to l (s_seq s) (s_through s)) (map_of (writes (snd (snd r))) k)"
    unfolding eq fold_tmod_map_of [OF tsorted_distinct [OF assms]]
    by (cases "map_of (writes (snd (snd r))) k") (auto simp: named_to_def)
qed

lemma start_seal_seals:
  "\<exists>n. seals (snd (snd (start_seal l s r))) = tmod (l, s_seq s) (\<lambda>s. s\<lparr>s_stage := Flushing n False\<rparr>) (seals (snd (snd r)))"
  by (auto simp: start_seal_def case_prod_beta Let_def)

lemma named_to_moved: "moved w (named_to l sq through w)"
  by (auto simp: named_to_def sealable_def moved_def)

lemma start_seal_fewer: "fewer (writes (snd (snd r))) (writes (snd (snd (start_seal l s r))))"
  unfolding fewer_def by (auto simp: start_seal_writes intro: named_to_moved)

text \<open>Nothing in flight or held is at or below an epoch the oldest outstanding one is above.\<close>

lemma outstanding_above:
  assumes "counts_inv d" and "is_none_or (\<lambda>o'. t < o') (oldest_outstanding d l)"
  shows "map_of (writes d) k = Some w \<Longrightarrow> w_stage w = InFlight \<Longrightarrow> w_lineage w = l \<Longrightarrow> t < w_epoch w"
    and "holds_at d l e \<Longrightarrow> t < e"
proof -
  have low: "is_none_or (\<lambda>m. t < m) (lowest (in_flight_by_epoch d) l)" "is_none_or (\<lambda>m. t < m) (lowest (held_by_epoch d) l)"
    using assms(2) by (simp_all add: oldest_outstanding_def opt_lesser_above)
  show "t < w_epoch w" if "map_of (writes d) k = Some w" "w_stage w = InFlight" "w_lineage w = l"
  proof -
    have "0 < flight d (l, w_epoch w)" unfolding flight_def by (rule tcount_pos [OF that(1)]) (use that in simp)
    then show ?thesis using lowest_counted [of "in_flight_by_epoch d" "flight d" l "w_epoch w"] assms(1) low(1)
      by (auto simp: counts_inv_def)
  qed
  show "t < e" if h: "holds_at d l e"
  proof -
    obtain k h a where "map_of (held d) k = Some h" "ho_write h = Some a" "a_lineage a = l" "a_epoch a = e"
      using h unfolding holds_at_def by blast
    then have "0 < waiting d (l, e)" unfolding waiting_def by (intro tcount_pos) auto
    then show ?thesis using lowest_counted [of "held_by_epoch d" "waiting d" l e] assms(1) low(2)
      by (auto simp: counts_inv_def)
  qed
qed

lemma lineage_ready_start:
  assumes "lineage_ready P U v ss" and "\<And>e. P' e \<Longrightarrow> P e" and "\<And>e. U' e \<Longrightarrow> U e \<and> t < e"
    and "\<And>s'. s' \<in> ss' \<Longrightarrow> \<exists>s \<in> ss. sv_through s' = sv_through s \<and> sv_trailing s' = sv_trailing s \<and>
      (sv_started s' \<longrightarrow> sv_started s \<or> sv_through s = t)"
    and "\<And>s. s \<in> ss \<Longrightarrow> \<exists>s' \<in> ss'. sv_through s' = sv_through s"
  shows "lineage_ready P' U' v ss'"
proof -
  have "e \<le> sv_through s' \<or> sv_trailing s' < Some e" if "P' e" "s' \<in> ss'" for e s'
    using assms(1) assms(2) [OF that(1)] assms(4) [OF that(2)] unfolding lineage_ready_def by metis
  moreover have "\<exists>s \<in> ss'. e \<le> sv_through s" if "P' e" "Some e \<le> lv_sealed v" for e
    using assms(1) assms(2) [OF that(1)] assms(5) that(2) unfolding lineage_ready_def by metis
  moreover have "sv_through s' < e" if "U' e" "s' \<in> ss'" "sv_started s'" for e s'
    using assms(1) assms(3) [OF that(1)] assms(4) [OF that(2)] that(3) unfolding lineage_ready_def by metis
  ultimately show ?thesis using assms(1,2) unfolding lineage_ready_def by blast
qed

lemma map_of_sviews: "map_of (sviews t) k = map_option sview_of (map_of t k)"
  unfolding sviews_def by (induction t) auto

lemma map_of_lviews: "map_of (lviews t) k = map_option lview_of (map_of t k)"
  unfolding lviews_def by (induction t) auto

lemma keys_sviews [simp]: "keys (sviews t) = keys t"
  by (simp add: sviews_def)

lemma views_of_mem: "v \<in> views_of (sviews t) l \<longleftrightarrow> (\<exists>sq s. ((l, sq), s) \<in> set t \<and> v = sview_of s)"
  by (force simp: views_of_def sviews_def)

lemma tmod_mem_other: "k \<noteq> k0 \<Longrightarrow> (k, v) \<in> set (tmod k0 f t) \<longleftrightarrow> (k, v) \<in> set t"
  by (force simp: tmod_def)

lemma views_of_tmod_other: "l' \<noteq> l \<Longrightarrow> views_of (sviews (tmod (l, sq) f t)) l' = views_of (sviews t) l'"
  by (simp add: set_eq_iff views_of_mem tmod_mem_other)

lemma views_ofI: "((l, sq), s) \<in> set t \<Longrightarrow> sview_of s \<in> views_of (sviews t) l"
  by (auto simp: views_of_mem)

lemma tmod_mem: "(k, v) \<in> set t \<Longrightarrow> (k, if k = k0 then f v else v) \<in> set (tmod k0 f t)"
  by (force simp: tmod_def)

lemma counts_fewer:
  assumes "counts_inv d" and "fewer (writes d) (writes d')" and "fewer_held (held d) (held d')"
    and "in_flight_by_epoch d' = in_flight_by_epoch d" and "held_by_epoch d' = held_by_epoch d"
  shows "counts_inv d'"
  using assms fewer_flight [of d d'] fewer_waiting [of d d']
  unfolding counts_inv_def fewer_def fewer_held_def by (auto intro: counted_mono)

lemma start_seal_ready:
  assumes ready: "ready_inv (snd (snd r))" and sorted: "tsorted (seals (snd (snd r)))"
    and s: "map_of (seals (snd (snd r))) (l, s_seq s) = Some s0" "s_through s0 = s_through s"
    and old: "is_none_or (\<lambda>o'. s_through s < o') (oldest_outstanding (snd (snd r)) l)"
  shows "ready_inv (snd (snd (start_seal l s r)))"
proof -
  let ?d = "snd (snd r)" and ?d' = "snd (snd (start_seal l s r))"
  have c: "counts_inv ?d" using ready by (simp add: ready_inv_def)
  note few = start_seal_fewer [of r l s] and ws = start_seal_writes [of r l s, OF c [unfolded counts_inv_def, THEN conjunct1]]
  have held: "fewer_held (held ?d) (held ?d')" by simp
  have "counts_inv ?d'"
    by (rule counts_fewer [OF c few held]) simp_all
  moreover have "lineage_ready (present ?d' l') (unnamed ?d' l') v (views_of (sviews (seals ?d')) l')"
    if v: "map_of (lviews (lineages ?d)) l' = Some v" "\<not> lv_ended v" for l' v
  proof -
    have r0: "lineage_ready (present ?d l') (unnamed ?d l') v (views_of (sviews (seals ?d)) l')"
      using ready v by (simp add: ready_inv_def)
    note mono = fewer_present [OF few held c [unfolded counts_inv_def, THEN conjunct1]
        c [unfolded counts_inv_def, THEN conjunct2, THEN conjunct1]]
    obtain n where sl: "seals ?d' = tmod (l, s_seq s) (\<lambda>s. s\<lparr>s_stage := Flushing n False\<rparr>) (seals ?d)"
      using start_seal_seals by blast
    show ?thesis
    proof (cases "l' = l")
      case False
      then show ?thesis
        using lineage_ready_mono [OF r0 mono(1) mono(2)] by (simp add: sl views_of_tmod_other)
    next
      case True
      show ?thesis unfolding True
      proof (rule lineage_ready_start [OF r0 [unfolded True], where t = "s_through s"])
        show "unnamed ?d l e \<and> s_through s < e" if u: "unnamed ?d' l e" for e
        proof
          show "unnamed ?d l e" by (rule mono(2) [OF u])
          show "s_through s < e"
          proof (cases "holds_at ?d l e")
            case False
            then have "\<not> holds_at ?d' l e" by (simp add: holds_at_def)
            then obtain k w' where w': "map_of (writes ?d') k = Some w'" "w_lineage w' = l" "w_epoch w' = e"
              "\<forall>sq. w_stage w' \<noteq> Named sq" using u unfolding unnamed_def by blast
            then obtain w where w: "map_of (writes ?d) k = Some w" "w' = named_to l (s_seq s) (s_through s) w"
              unfolding ws(2) by auto
            then have "\<not> sealable l (s_through s) w" "w' = w" using w'(4) by (auto simp: named_to_def split: if_splits)
            then have "w_stage w = InFlight \<or> s_through s < e"
              using w'(2-4) by (cases "w_stage w") (auto simp: sealable_def)
            then show ?thesis using outstanding_above(1) [OF c old w(1)] \<open>w' = w\<close> w'(2,3) by auto
          qed (use outstanding_above(2) [OF c old] in blast)
        qed
        show "\<exists>s1 \<in> views_of (sviews (seals ?d)) l. sv_through s' = sv_through s1 \<and> sv_trailing s' = sv_trailing s1 \<and>
            (sv_started s' \<longrightarrow> sv_started s1 \<or> sv_through s1 = s_through s)"
          if m: "s' \<in> views_of (sviews (seals ?d')) l" for s'
        proof -
          obtain sq x where x: "((l, sq), x) \<in> set (seals ?d)" and s': "s' = sview_of (if sq = s_seq s then x\<lparr>s_stage := Flushing n False\<rparr> else x)"
            using m by (auto simp: views_of_mem sl tmod_def split: if_splits)
          have "map_of (seals ?d) (l, sq) = Some x" using x sorted by (simp add: tsorted_map_of)
          then have "sq = s_seq s \<longrightarrow> s_through x = s_through s" using s by auto
          then show ?thesis by (intro bexI [OF _ views_ofI [OF x]]) (simp add: s' sview_of_def)
        qed
        show "\<exists>s1 \<in> views_of (sviews (seals ?d')) l. sv_through s1 = sv_through s'"
          if m: "s' \<in> views_of (sviews (seals ?d)) l" for s'
        proof -
          obtain sq x where x: "((l, sq), x) \<in> set (seals ?d)" and s': "s' = sview_of x"
            using m by (auto simp: views_of_mem)
          let ?x = "if sq = s_seq s then x\<lparr>s_stage := Flushing n False\<rparr> else x"
          have "((l, sq), ?x) \<in> set (seals ?d')"
            using tmod_mem [OF x, of "(l, s_seq s)" "\<lambda>s. s\<lparr>s_stage := Flushing n False\<rparr>"] by (simp add: sl)
          then show ?thesis by (intro bexI [OF _ views_ofI]) (simp_all add: s' sview_of_def)
        qed
      qed (rule mono(1))
    qed
  qed
  ultimately show ?thesis by (simp add: ready_inv_def)
qed

lemma start_each_ready:
  assumes "ready_inv (snd (snd r))" and "tsorted (seals (snd (snd r)))" and "oldest = oldest_outstanding (snd (snd r)) l"
    and "\<forall>e \<in> set es. \<exists>s0. map_of (seals (snd (snd r))) (l, s_seq (snd e)) = Some s0 \<and> s_through s0 = s_through (snd e)"
  shows "ready_inv (snd (snd (start_each l oldest es r)))"
  using assms
proof (induction es arbitrary: r)
  case (Cons e es)
  show ?case
  proof (cases "s_stage (snd e) \<noteq> Waiting \<or> is_some_and (\<lambda>o'. o' \<le> s_through (snd e)) oldest")
    case False
    let ?r = "start_seal l (snd e) r"
    obtain s0 where s0: "map_of (seals (snd (snd r))) (l, s_seq (snd e)) = Some s0" "s_through s0 = s_through (snd e)"
      using Cons.prems(4) by auto
    have "is_none_or (\<lambda>o'. s_through (snd e) < o') (oldest_outstanding (snd (snd r)) l)"
      using False Cons.prems(3) by (cases "oldest_outstanding (snd (snd r)) l") auto
    then have "ready_inv (snd (snd ?r))" by (rule start_seal_ready [OF Cons.prems(1,2) s0])
    moreover obtain n where sl: "seals (snd (snd ?r)) =
        tmod (l, s_seq (snd e)) (\<lambda>s. s\<lparr>s_stage := Flushing n False\<rparr>) (seals (snd (snd r)))"
      using start_seal_seals by blast
    moreover have "tsorted (seals (snd (snd ?r)))" using Cons.prems(2) by (simp add: sl)
    moreover have "oldest = oldest_outstanding (snd (snd ?r)) l" using Cons.prems(3) by (simp add: oldest_outstanding_def)
    moreover have "\<forall>e' \<in> set es. \<exists>s1. map_of (seals (snd (snd ?r))) (l, s_seq (snd e')) = Some s1 \<and> s_through s1 = s_through (snd e')"
      using Cons.prems(4) by (fastforce simp: sl map_of_tmod)
    ultimately have "ready_inv (snd (snd (start_each l oldest es ?r)))" by (intro Cons.IH)
    then show ?thesis using False by simp
  qed (use Cons in auto)
qed simp

lemma marks_inv_seals:
  assumes "marks_inv d"
  shows "tsorted (seals d)" and "e \<in> set (seals d) \<Longrightarrow> s_seq (snd e) = snd (fst e)"
proof -
  have sh: "shapes_inv (lshapes (lineages d)) (sshapes (seals d)) (seals_made d) (next_lineage d)"
    using assms by (simp add: marks_inv_def)
  show "tsorted (seals d)" using sh by (simp add: shapes_inv_def tsorted_def)
  assume "e \<in> set (seals d)"
  then have "(fst e, seal_shape (snd e)) \<in> set (sshapes (seals d))" by (force simp: sshapes_def)
  then show "s_seq (snd e) = snd (fst e)" using sh by (force simp: shapes_inv_def seal_shape_def)
qed

lemma seals_of_mem: "e \<in> set (seals_of t l) \<longleftrightarrow> e \<in> set t \<and> fst (fst e) = l"
  by (auto simp: seals_of_def tbetween_def)

lemma ready_report_flags: "ready_inv d \<Longrightarrow> ready_inv (report_flags fl d)"
  by (rule quiet_ready [OF quiet_fields]) simp_all

lemma start_seals_keeps: "keeps ready_inv (snd s) (snd (start_seals l s))"
proof (rule keepsI [OF advances_same_shape [OF start_seals_shape]])
  assume m: "marks_inv (snd s)" and r: "ready_inv (snd s)"
  have "\<exists>s0. map_of (seals (snd s)) (l, s_seq (snd e)) = Some s0 \<and> s_through s0 = s_through (snd e)"
    if "e \<in> set (seals_of (seals (snd s)) l)" for e
  proof -
    have e: "e \<in> set (seals (snd s))" "fst (fst e) = l" using that by (auto simp: seals_of_mem)
    then have "fst e = (l, s_seq (snd e))" using marks_inv_seals(2) [OF m e(1)] by (simp add: prod_eq_iff)
    then have "map_of (seals (snd s)) (l, s_seq (snd e)) = Some (snd e)"
      using e(1) marks_inv_seals(1) [OF m] tsorted_map_of [of "seals (snd s)" "fst e" "snd e"] by (metis prod.collapse)
    then show ?thesis by blast
  qed
  then have "ready_inv (snd (snd (start_each l (oldest_outstanding (snd s) l) (seals_of (seals (snd s)) l) (no_flags, s))))"
    using start_each_ready [of "(no_flags, s)"] r marks_inv_seals(1) [OF m] by simp
  then show "ready_inv (snd (start_seals l s))"
    by (simp add: start_seals_def case_prod_beta ready_report_flags)
qed (rule start_seals_calm)

lemma advance_seals_keeps: "keeps ready_inv (snd s) (snd (advance_seals l s))"
proof -
  let ?d = "snd (start_seals l s)"
  have "keeps ready_inv ?d (finish_empties l ?d)"
    by (rule quiet_keeps [OF finish_empties_quiet advances_same_shape [OF finish_empties_shape]]) simp
  moreover have "keeps ready_inv d (finish_seals l d)" for d :: "'a durability"
    by (rule keepsI [OF advances_same_shape [OF finish_seals_shape]])
      (auto intro: quiet_ready [OF finish_seals_quiet] dest: marks_inv_seals(1))
  ultimately show ?thesis
    using start_seals_keeps [of s l] by (simp add: advance_seals_def case_prod_beta) (blast intro: keeps_trans)
qed

section \<open>The mark passes\<close>

lemma lineage_ready_pass_leading:
  assumes "lineage_ready P U v ss" and "\<And>e. P' e \<Longrightarrow> P e" and "\<And>e. U' e \<Longrightarrow> U e" and "lv_leading v = Some t"
  shows "lineage_ready P' U' (v\<lparr>lv_leading := None, lv_durable := Some t\<rparr>) ss"
  using assms unfolding lineage_ready_def by auto

lemma lineage_ready_pass_recorded:
  assumes "lineage_ready P U v ss" and "\<And>e. P' e \<Longrightarrow> P e \<and> t < e" and "\<And>e. U' e \<Longrightarrow> U e"
    and "s \<in> ss" and "sv_through s = t" and "ss' \<subseteq> ss" and "\<And>x. x \<in> ss \<Longrightarrow> x \<in> ss' \<or> sv_through x = t"
  shows "lineage_ready P' U' (v\<lparr>lv_leading := sv_trailing s, lv_durable := Some t\<rparr>) ss'"
proof -
  have "sv_trailing s < Some e" if "P' e" for e
    using assms(1,4,5) assms(2) [OF that] unfolding lineage_ready_def by (metis not_less)
  moreover have "\<exists>x \<in> ss'. e \<le> sv_through x" if "P' e" "Some e \<le> lv_sealed v" for e
    using assms(1,7) assms(2) [OF that(1)] that(2) unfolding lineage_ready_def by (metis not_less)
  moreover have "Some t < Some e" if "P' e" for e using assms(2) [OF that] by simp
  moreover have "e \<le> sv_through x \<or> sv_trailing x < Some e" if "P' e" "x \<in> ss'" for e x
    using assms(1,6) assms(2) [OF that(1)] that(2) unfolding lineage_ready_def by blast
  moreover have "sv_through x < e" if "U' e" "x \<in> ss'" "sv_started x" for e x
    using assms(1,6) assms(3) [OF that(1)] that(2,3) unfolding lineage_ready_def by blast
  ultimately show ?thesis unfolding lineage_ready_def by simp
qed

lemma lviews_tmod_gen: "(\<And>st. lview_of (f st) = g (lview_of st)) \<Longrightarrow> lviews (tmod k f t) = tmod k g (lviews t)"
  by (simp add: lviews_def tmod_def)

lemma passed_through_quiet:
  "quiet (let_go (\<lambda>w. w_lineage w = l \<and> w_epoch w \<le> through) (snd s)) (snd (passed_through l through s))"
  unfolding passed_through_def
  by (rule quiet_trans [OF _ release_through_quiet]) (rule quiet_fields; simp)

lemma views_of_tdel_other: "l' \<noteq> l \<Longrightarrow> views_of (sviews (tdel (l, sq) t)) l' = views_of (sviews t) l'"
  by (auto simp: set_eq_iff views_of_mem tdel_def)

lemma let_go_present:
  assumes "tsorted (writes d)"
  shows "present (let_go p d) l e \<longleftrightarrow> (\<exists>k w. map_of (writes d) k = Some w \<and> \<not> p w \<and> w_lineage w = l \<and> w_epoch w = e) \<or> holds_at d l e"
proof -
  have "map_of (filter (\<lambda>e. \<not> p (snd e)) (writes d)) k = Some w \<longleftrightarrow> map_of (writes d) k = Some w \<and> \<not> p w" for k w
    by (simp add: tsorted_map_of [OF assms, symmetric] tsorted_map_of [OF tsorted_filter [OF assms], symmetric])
  then show ?thesis by (auto simp: present_def let_go_writes holds_at_def)
qed

lemma pass_seal_ready:
  assumes ready: "ready_inv d" and m: "marks_inv d" and st: "map_of (lineages d) l = Some st" "\<not> l_ended st"
    and nx: "next_finished d l st = Some (through, recorded)" and rec: "recorded_seal d l recorded = Some found"
  shows "ready_inv (let_go (\<lambda>w. w_lineage w = l \<and> w_epoch w \<le> through) (pass_seal l through recorded found d))"
    (is "ready_inv (let_go ?p ?d1)")
proof -
  let ?d2 = "let_go ?p ?d1"
  have c: "counts_inv d" and sorted: "tsorted (writes d)" "tsorted (held d)"
    using ready by (auto simp: ready_inv_def counts_inv_def)
  have few: "fewer (writes d) (writes ?d2)" "fewer_held (held d) (held ?d2)" by (simp_all add: let_go_writes)
  note mono = fewer_present [OF few sorted]
  have ls: "\<exists>y. lviews (lineages ?d2) = tmod l (\<lambda>v. v\<lparr>lv_leading := y, lv_durable := Some through\<rparr>) (lviews (lineages d))"
  proof -
    obtain x where x: "lineages ?d1 = tmod l (\<lambda>st. st\<lparr>l_leading := x, l_durable_through := Some through\<rparr>) (lineages d)"
      using pass_seal_lineages by blast
    have "lviews (tmod l (\<lambda>st. st\<lparr>l_leading := x, l_durable_through := Some through\<rparr>) (lineages d)) =
        tmod l (\<lambda>v. v\<lparr>lv_leading := map_option em_through x, lv_durable := Some through\<rparr>) (lviews (lineages d))"
      by (rule lviews_tmod_gen) (simp add: lview_of_def)
    then have "lviews (lineages ?d2) =
        tmod l (\<lambda>v. v\<lparr>lv_leading := map_option em_through x, lv_durable := Some through\<rparr>) (lviews (lineages d))"
      by (simp add: x)
    then show ?thesis by blast
  qed
  have counts: "counts_inv ?d2" by (rule counts_fewer [OF c few]) simp_all
  have v: "map_of (lviews (lineages d)) l = Some (lview_of st)" "\<not> lv_ended (lview_of st)"
    using st by (simp_all add: map_of_lviews lview_of_def)
  have r: "lineage_ready (present d l) (unnamed d l) (lview_of st) (views_of (sviews (seals d)) l)"
    using ready v by (simp add: ready_inv_def)
  have sl: "seals ?d2 = (case (recorded, found) of (Some sq, Some s) \<Rightarrow> tdel (l, sq) (seals d) | _ \<Rightarrow> seals d)"
    by (simp add: seals_pass_seal)
  have own: "lineage_ready (present ?d2 l) (unnamed ?d2 l) v' (views_of (sviews (seals ?d2)) l)"
    if v': "map_of (lviews (lineages ?d2)) l = Some v'" for v'
  proof (cases recorded)
    case None
    then obtain x where x: "l_leading st = Some x" "em_through x = through"
      using nx by (auto simp: next_finished_def split: option.splits if_splits prod.splits)
    have "map_of (lineages ?d2) l = Some (st\<lparr>l_leading := None, l_durable_through := Some through\<rparr>)"
      using st by (simp add: lineages_pass_seal None)
    then have v'_eq: "v' = (lview_of st)\<lparr>lv_leading := None, lv_durable := Some through\<rparr>"
      using v' by (simp add: map_of_lviews lview_of_def)
    have lead: "lv_leading (lview_of st) = Some through" using x by (simp add: lview_of_def)
    have sd: "seals ?d2 = seals d" unfolding sl by (simp add: None)
    show ?thesis unfolding v'_eq sd by (rule lineage_ready_pass_leading [OF r mono(1) mono(2) lead])
  next
    case (Some sq)
    obtain k s where none: "l_leading st = None" and first: "first_of (seals_of (seals d) l) = Some (k, s)"
      and s: "s_through s = through" "s_seq s = sq" "is_done (s_stage s)"
      using nx Some by (auto simp: next_finished_def split: option.splits if_splits prod.splits)
    have mem: "(k, s) \<in> set (seals d)" "fst k = l"
      using first seals_of_mem [of "(k, s)" "seals d" l] by (auto simp: first_of_def split: list.splits)
    then have k: "k = (l, sq)" using marks_inv_seals(2) [OF m mem(1)] s(2) by (simp add: prod_eq_iff)
    have at: "map_of (seals d) (l, sq) = Some s"
      using mem(1) marks_inv_seals(1) [OF m] by (simp add: k tsorted_map_of)
    then have found: "found = Some s" using rec Some by (simp add: recorded_seal_def)
    have "map_of (lineages ?d2) l = Some (st\<lparr>l_leading := s_trailing s, l_durable_through := Some through\<rparr>)"
      using st by (simp add: lineages_pass_seal Some found)
    then have v'_eq: "v' = (lview_of st)\<lparr>lv_leading := sv_trailing (sview_of s), lv_durable := Some through\<rparr>"
      using v' by (simp add: map_of_lviews lview_of_def sview_of_def)
    have in_ss: "sview_of s \<in> views_of (sviews (seals d)) l" using views_ofI [OF mem(1) [unfolded k]] .
    show ?thesis
      unfolding v'_eq
    proof (rule lineage_ready_pass_recorded [OF r _ mono(2) in_ss])
      show "sv_through (sview_of s) = through" by (simp add: sview_of_def s)
      have sd: "seals ?d2 = tdel (l, sq) (seals d)" unfolding sl by (simp add: Some found)
      show "views_of (sviews (seals ?d2)) l \<subseteq> views_of (sviews (seals d)) l"
        unfolding sd by (fastforce simp: views_of_mem tdel_def)
      show "x \<in> views_of (sviews (seals ?d2)) l \<or> sv_through x = through" if "x \<in> views_of (sviews (seals d)) l" for x
      proof -
        obtain sq1 s1 where s1: "((l, sq1), s1) \<in> set (seals d)" "x = sview_of s1" using \<open>x \<in> _\<close> by (auto simp: views_of_mem)
        show ?thesis
        proof (cases "sq1 = sq")
          case True
          then have "s1 = s" using s1(1) at marks_inv_seals(1) [OF m] by (simp add: tsorted_map_of)
          then show ?thesis using s1(2) s(1) by (simp add: sview_of_def)
        next
          case False
          then have "((l, sq1), s1) \<in> set (seals ?d2)" using s1(1) unfolding sd by (simp add: tdel_def)
          then show ?thesis using views_ofI s1(2) by blast
        qed
      qed
      fix e assume e: "present ?d2 l e"
      have "through < e"
      proof (cases "holds_at d l e")
        case True
        then have "unnamed d l e" by (simp add: unnamed_def)
        moreover have "sv_started (sview_of s)" "sv_through (sview_of s) = through"
          using s by (auto simp: sview_of_def is_done_def)
        ultimately show ?thesis using r in_ss unfolding lineage_ready_def by metis
      next
        case False
        have "tsorted (writes ?d1)" using sorted(1) by simp
        then show ?thesis using e False by (auto simp: let_go_present holds_at_def not_le)
      qed
      then show "present d l e \<and> through < e" using mono(1) [OF e] by blast
    qed
  qed
  have others: "lineage_ready (present ?d2 l') (unnamed ?d2 l') v' (views_of (sviews (seals ?d2)) l')"
    if "l' \<noteq> l" "map_of (lviews (lineages ?d2)) l' = Some v'" "\<not> lv_ended v'" for l' v'
  proof -
    have "map_of (lviews (lineages d)) l' = Some v'" using ls that(1,2) by (auto simp: map_of_tmod)
    then have "lineage_ready (present d l') (unnamed d l') v' (views_of (sviews (seals d)) l')"
      using ready that(3) by (simp add: ready_inv_def)
    moreover have "views_of (sviews (seals ?d2)) l' = views_of (sviews (seals d)) l'"
      unfolding sl using that(1) by (simp add: views_of_tdel_other split: option.split)
    ultimately show ?thesis using lineage_ready_mono [OF _ mono(1) mono(2)] by simp
  qed
  show ?thesis
    unfolding ready_inv_def
  proof (intro conjI allI impI)
    show "lineage_ready (present ?d2 l') (unnamed ?d2 l') v' (views_of (sviews (seals ?d2)) l')"
      if "map_of (lviews (lineages ?d2)) l' = Some v'" "\<not> lv_ended v'" for l' v'
      using that own [of v'] others [of l' v'] by (cases "l' = l") simp_all
  qed (rule counts)
qed

lemma mark_step_keeps:
  assumes step: "mark_step l s = Some s'" and live: "live_in (snd s) l"
  shows "keeps ready_inv (snd s) (snd s')"
proof (rule keepsI [OF mark_step_advances(1) [OF step live] mark_step_calm [OF step]])
  assume m: "marks_inv (snd s)" and r: "ready_inv (snd s)"
  obtain st through recorded found where st: "map_of (lineages (snd s)) l = Some st"
    and nx: "next_finished (snd s) l st = Some (through, recorded)"
    and rec: "recorded_seal (snd s) l recorded = Some found"
    and s': "s' = passed_through l through (fst s, pass_seal l through recorded found (snd s))"
    using mark_step_cases [OF step] by metis
  have "\<not> l_ended st" using live st by (simp add: live_in_def)
  from pass_seal_ready [OF r m st this nx rec]
  show "ready_inv (snd s')"
    using quiet_ready [OF passed_through_quiet [of l through "(fst s, pass_seal l through recorded found (snd s))"]]
    by (simp add: s')
qed

lemma mark_loop_keeps: "live_in (snd s) l \<Longrightarrow> keeps ready_inv (snd s) (snd (mark_loop l s))"
proof (induction l s rule: mark_loop.induct)
  case (1 l s)
  show ?case
  proof (cases "mark_step l s")
    case (Some s')
    then show ?thesis
      using 1(1) [OF Some] mark_step_keeps [OF Some 1(2)] mark_step_advances(2) [OF Some 1(2)] 1(2)
      by (auto simp: mark_loop.simps [of l s] intro: keeps_trans)
  qed (simp add: mark_loop.simps [of l s])
qed

lemma answer_blocked_quiet: "quiet (snd s) (snd (answer_blocked l p s))"
  by (cases p)
    (auto simp: answer_blocked_def answer_at_def quiet_def sviews_tmod lviews_tmod sview_of_def
      lview_of_def answer_empty_def option.map_comp comp_def split: option.split)

lemma answer_blocked_keeps: "keeps ready_inv (snd s) (snd (answer_blocked l p s))"
  by (rule quiet_keeps [OF answer_blocked_quiet advances_same_shape [OF answer_blocked_shape] answer_blocked_calm])

lemma advance_mark_keeps: "live_in (snd s) l \<Longrightarrow> keeps ready_inv (snd s) (snd (advance_mark l s))"
  unfolding advance_mark_def Let_def
  by (rule keeps_trans [OF mark_loop_keeps fold_keeps [where p = snd, OF answer_blocked_keeps]])

lemma fold_advance_mark_keeps:
  "\<forall>l \<in> set ls. live_in (snd s) l \<Longrightarrow> keeps ready_inv (snd s) (snd (fold advance_mark ls s))"
proof (induction ls arbitrary: s)
  case (Cons l ls)
  have "live_in (snd s) l" using Cons(2) by simp
  note k = advance_mark_keeps [OF this] and a = advance_mark_advances [OF this]
  have "\<forall>l' \<in> set ls. live_in (snd (advance_mark l s)) l'" using Cons(2) a by (simp add: advances_live_def)
  from keeps_trans [OF k Cons(1) [OF this]] show ?case by simp
qed simp

lemma release_healed_keeps: "keeps ready_inv (snd s) (snd (release_healed s))"
  by (rule quiet_keeps [OF quiet_fields advances_fields release_healed_calm]) simp_all

lemma advance_keeps: "keeps ready_inv (snd s) (snd (advance s))"
proof -
  define lv where "lv = take (c_lineages (cap (snd s))) (live_keys (snd s))"
  define s1 where "s1 = (if c_lineages (cap (snd s)) < length (live_keys (snd s))
    then (fst s, inconsistent ''more live lineages than the lineages declared'' (snd s)) else s)"
  define s2 where "s2 = release_healed (fold advance_seals lv s1)"
  have adv: "advance s = fold advance_mark lv s2" unfolding advance_def Let_def lv_def s1_def s2_def by (rule refl)
  have "keeps ready_inv (snd s) (snd s1)"
    by (rule quiet_keeps [OF quiet_fields advances_fields]) (auto simp: s1_def split: if_splits)
  moreover have "keeps ready_inv (snd s1) (snd (fold advance_seals lv s1))"
    by (rule fold_keeps [where p = snd]) (rule advance_seals_keeps)
  moreover have "keeps ready_inv (snd (fold advance_seals lv s1)) (snd s2)" unfolding s2_def by (rule release_healed_keeps)
  ultimately have k: "keeps ready_inv (snd s) (snd s2)" by (blast intro: keeps_trans)
  show ?thesis
  proof (rule keepsI [OF advance_advances advance_calm])
    assume p: "panics (snd (advance s)) = []" and m: "marks_inv (snd s)" and r: "ready_inv (snd s)"
    have "distinct (keys (lineages (snd s)))"
      using m by (auto simp: marks_inv_def shapes_inv_def dest: tsorted_distinct)
    then have "\<forall>l \<in> set lv. live_in (snd s) l" using live_keys_live by (auto simp: lv_def dest: in_set_takeD)
    moreover have "same_shape (snd s) (snd s2)"
    proof -
      have "same_shape (snd s) (snd s1)" by (simp add: s1_def same_shape_def)
      moreover have "same_shape (snd s1) (snd (fold advance_seals lv s1))"
        by (rule fold_same_shape [where p = snd]) (rule advance_seals_shape)
      moreover have "same_shape (snd (fold advance_seals lv s1)) (snd s2)" by (simp add: s2_def same_shape_def)
      ultimately show ?thesis by (blast intro: same_shape_trans)
    qed
    ultimately have "\<forall>l \<in> set lv. live_in (snd s2) l" using same_shape_live by blast
    then have "keeps ready_inv (snd s2) (snd (advance s))" unfolding adv by (rule fold_advance_mark_keeps)
    then show "ready_inv (snd (advance s))"
      using k p m r unfolding keeps_def advances_def by blast
  qed
qed

end
