(* ===== verification/Fixed_Hash_Map.thy ===== *)
theory Fixed_Hash_Map
  imports Ordered_Table Capacity "HOL-Library.Word" "HOL-Library.Multiset"
begin

text \<open>
  The fixed hash map of \<^verbatim>\<open>crates/fixed-hash-table/src/map.rs\<close>: open addressing over a slice of
  slots whose number is a power of two, linear probing from the high bits of the hash, and
  backward-shift deletion.  The table keeps at least one slot in eight empty, which is what ends a
  probe.

  A probe is a loop that ends only because some slot is empty, and a slice index panics when it is
  out of range: both loops are \<^verbatim>\<open>partial_function (option)\<close>, whose \<^term>\<open>None\<close> stands for a
  call that does not return, by looping or by an index panic.  Lookups are by a borrowed form of the
  key: the record of \<^verbatim>\<open>K: Borrow<Q>\<close> and of the hasher is an argument of every operation.

  The theorems: a well-formed map stays well-formed under every operation, every call returns, and
  the map of a key's borrowed form to the entry held for it changes as a bounded map's should.
\<close>

unbundle bit_operations_syntax

section \<open>The table\<close>

type_synonym ('k, 'v) slot = "('k \<times> 'v) option"

text \<open>The key type's \<^verbatim>\<open>Borrow\<close> and the map's \<^verbatim>\<open>BuildHasher\<close>.\<close>

record ('k, 'q) keying =
  borrow :: "'k \<Rightarrow> 'q"
  hash_one :: "'q \<Rightarrow> 64 word"

record ('k, 'v) hash_map =
  hm_slots :: "('k, 'v) slot list"
  hm_len :: nat
  hm_capacity :: nat
  hm_shift :: nat

definition capacity_of :: "nat \<Rightarrow> nat" where
  "capacity_of slots = slots - (slots + 7) div 8"

text \<open>\<^verbatim>\<open>usize::trailing_zeros\<close>, 64 on zero.\<close>

fun trailing_zeros :: "nat \<Rightarrow> nat" where
  "trailing_zeros n = (if n = 0 then 64 else if odd n then 0 else Suc (trailing_zeros (n div 2)))"

declare trailing_zeros.simps [simp del]

text \<open>\<^verbatim>\<open>usize::wrapping_sub\<close>.\<close>

definition wrapping_sub :: "nat \<Rightarrow> nat \<Rightarrow> nat" where
  "wrapping_sub a b = (a + (2 ^ 64 - b)) mod 2 ^ 64"

definition from_parts :: "('k, 'v) slot list \<Rightarrow> ('k, 'v) hash_map" where
  "from_parts slots = \<lparr>hm_slots = slots, hm_len = 0, hm_capacity = capacity_of (length slots),
     hm_shift = 64 - trailing_zeros (length slots)\<rparr>"

definition map_is_empty :: "('k, 'v) hash_map \<Rightarrow> bool" where
  "map_is_empty t \<longleftrightarrow> hm_len t = 0"

text \<open>\<^verbatim>\<open>hash.checked_shr(shift).unwrap_or(0) as usize\<close>.\<close>

definition home :: "('k, 'v) hash_map \<Rightarrow> 64 word \<Rightarrow> nat" where
  "home t hash = (if hm_shift t < 64 then unat (drop_bit (hm_shift t) hash) else 0)"

abbreviation key_home :: "('k, 'q) keying \<Rightarrow> ('k, 'v) hash_map \<Rightarrow> 'k \<Rightarrow> nat" where
  "key_home kk t k \<equiv> home t (hash_one kk (borrow kk k))"

section \<open>Lookup\<close>

partial_function (option) find_loop ::
    "('k, 'q) keying \<Rightarrow> ('k, 'v) slot list \<Rightarrow> 'q \<Rightarrow> nat \<Rightarrow> (nat + nat) option" where
  "find_loop kk slots key i =
    (if i < length slots then
       (case slots ! i of
          None \<Rightarrow> Some (Inl i)
        | Some e \<Rightarrow>
            if borrow kk (fst e) = key then Some (Inr i)
            else find_loop kk slots key ((i + 1) AND (length slots - 1)))
     else None)"

definition find_entry :: "('k, 'q) keying \<Rightarrow> ('k, 'v) hash_map \<Rightarrow> 'q \<Rightarrow> (nat + nat) option" where
  "find_entry kk t key = find_loop kk (hm_slots t) key (home t (hash_one kk key))"

definition get_key_value :: "('k, 'q) keying \<Rightarrow> ('k, 'v) hash_map \<Rightarrow> 'q \<Rightarrow> ('k \<times> 'v) option option" where
  "get_key_value kk t key = map_option
     (\<lambda>found. case found of Inl _ \<Rightarrow> None | Inr i \<Rightarrow> hm_slots t ! i) (find_entry kk t key)"

definition map_get :: "('k, 'q) keying \<Rightarrow> ('k, 'v) hash_map \<Rightarrow> 'q \<Rightarrow> 'v option option" where
  "map_get kk t key = map_option (map_option snd) (get_key_value kk t key)"

definition contains_key :: "('k, 'q) keying \<Rightarrow> ('k, 'v) hash_map \<Rightarrow> 'q \<Rightarrow> bool option" where
  "contains_key kk t key = map_option (\<lambda>found. \<not> isl found) (find_entry kk t key)"

section \<open>Insertion\<close>

datatype ('k, 'v) full_entry = Full_entry (full_key: 'k) (full_value: 'v)

text \<open>What \<^verbatim>\<open>slot.as_mut()\<close> and an assignment through it do to a slot: the key held is kept.\<close>

definition set_value :: "('k, 'v) hash_map \<Rightarrow> nat \<Rightarrow> ('v \<Rightarrow> 'v) \<Rightarrow> ('k, 'v) hash_map" where
  "set_value t i f = t\<lparr>hm_slots := (hm_slots t)[i := map_option (map_prod id f) (hm_slots t ! i)]\<rparr>"

definition place_entry :: "('k, 'v) hash_map \<Rightarrow> nat \<Rightarrow> 'k \<Rightarrow> 'v \<Rightarrow> ('k, 'v) hash_map" where
  "place_entry t i key v = t\<lparr>hm_slots := (hm_slots t)[i := Some (key, v)], hm_len := hm_len t + 1\<rparr>"

definition map_insert :: "('k, 'q) keying \<Rightarrow> ('k, 'v) hash_map \<Rightarrow> 'k \<Rightarrow> 'v \<Rightarrow>
    ((('k, 'v) full_entry + 'v option) \<times> ('k, 'v) hash_map) option" where
  "map_insert kk t key v = map_option
     (\<lambda>found. case found of
        Inr i \<Rightarrow> (Inr (map_option snd (hm_slots t ! i)), set_value t i (\<lambda>_. v))
      | Inl i \<Rightarrow>
          if hm_len t = hm_capacity t then (Inl (Full_entry key v), t)
          else (Inr None, place_entry t i key v))
     (find_entry kk t (borrow kk key))"

text \<open>\<^verbatim>\<open>get_mut\<close>, with what the caller writes through the reference.\<close>

definition map_get_mut :: "('k, 'q) keying \<Rightarrow> ('k, 'v) hash_map \<Rightarrow> 'q \<Rightarrow> ('v \<Rightarrow> 'v) \<Rightarrow>
    ('v option \<times> ('k, 'v) hash_map) option" where
  "map_get_mut kk t key f = map_option
     (\<lambda>found. case found of
        Inl _ \<Rightarrow> (None, t)
      | Inr i \<Rightarrow> (map_option snd (hm_slots t ! i), set_value t i f))
     (find_entry kk t key)"

section \<open>Removal\<close>

text \<open>The loop of \<^verbatim>\<open>remove_at\<close>: each entry after the hole moves back into it when the hole lies
  within its own probe run, and the hole moves to where it was.\<close>

partial_function (option) shift_loop ::
    "('k, 'q) keying \<Rightarrow> ('k, 'v) hash_map \<Rightarrow> nat \<Rightarrow> nat \<Rightarrow> ('k, 'v) hash_map option" where
  "shift_loop kk t hole nxt =
    (let slots = hm_slots t; mask = length slots - 1; nxt = (nxt + 1) AND mask in
     if nxt < length slots then
       (case slots ! nxt of
          None \<Rightarrow> Some t
        | Some e \<Rightarrow>
            (let h = key_home kk t (fst e) in
             if wrapping_sub nxt h AND mask \<ge> wrapping_sub nxt hole AND mask
             then shift_loop kk (t\<lparr>hm_slots := slots[nxt := None, hole := Some e]\<rparr>) nxt nxt
             else shift_loop kk t hole nxt))
     else None)"

definition hash_remove_at :: "('k, 'q) keying \<Rightarrow> ('k, 'v) hash_map \<Rightarrow> nat \<Rightarrow>
    (('k, 'v) slot \<times> ('k, 'v) hash_map) option" where
  "hash_remove_at kk t hole =
    (if hole < length (hm_slots t) then
       (let removed = hm_slots t ! hole; t = t\<lparr>hm_slots := (hm_slots t)[hole := None]\<rparr> in
        if removed = None then Some (None, t)
        else map_option (Pair removed) (shift_loop kk (t\<lparr>hm_len := hm_len t - 1\<rparr>) hole hole))
     else None)"

definition remove_entry :: "('k, 'q) keying \<Rightarrow> ('k, 'v) hash_map \<Rightarrow> 'q \<Rightarrow>
    (('k \<times> 'v) option \<times> ('k, 'v) hash_map) option" where
  "remove_entry kk t key =
    (case find_entry kk t key of
       None \<Rightarrow> None
     | Some (Inl _) \<Rightarrow> Some (None, t)
     | Some (Inr at) \<Rightarrow> hash_remove_at kk t at)"

definition map_remove :: "('k, 'q) keying \<Rightarrow> ('k, 'v) hash_map \<Rightarrow> 'q \<Rightarrow>
    ('v option \<times> ('k, 'v) hash_map) option" where
  "map_remove kk t key = map_option (map_prod (map_option snd) id) (remove_entry kk t key)"

definition map_clear :: "('k, 'v) hash_map \<Rightarrow> ('k, 'v) hash_map" where
  "map_clear t = t\<lparr>hm_slots := map (\<lambda>_. None) (hm_slots t), hm_len := 0\<rparr>"

section \<open>Construction\<close>

text \<open>\<^verbatim>\<open>with_hasher\<close> of an inline map: a slot count that is not a power of two is rejected at
  compile time, which the model writes as no map.\<close>

definition is_power_of_two :: "nat \<Rightarrow> bool" where
  "is_power_of_two n \<longleftrightarrow> n \<noteq> 0 \<and> n = 2 ^ trailing_zeros n"

definition with_hasher :: "nat \<Rightarrow> ('k, 'v) hash_map option" where
  "with_hasher n = (if is_power_of_two n then Some (from_parts (replicate n None)) else None)"

text \<open>\<^verbatim>\<open>usize::checked_next_power_of_two\<close>: the smallest power of two at least as large, if a
  \<^verbatim>\<open>usize\<close> holds it.\<close>

definition checked_next_power_of_two :: "nat \<Rightarrow> nat option" where
  "checked_next_power_of_two n = map_option ((^) 2) (List.find (\<lambda>b. n \<le> 2 ^ b) [0..<64])"

text \<open>The doubling loop of \<^verbatim>\<open>slots_for\<close>; \<^verbatim>\<open>checked_mul\<close> ends it at the width of \<^verbatim>\<open>usize\<close>.  It
  starts at a power of two, so the case of no slots, which doubling never leaves, does not arise.\<close>

function double_until :: "nat \<Rightarrow> nat \<Rightarrow> nat option" where
  "double_until cap slots =
    (if slots = 0 then None
     else if capacity_of slots < cap
     then (case checked_mul slots 2 of None \<Rightarrow> None | Some slots \<Rightarrow> double_until cap slots)
     else Some slots)"
  by pat_completeness auto
termination by (relation "measure (\<lambda>(_, slots). usize_bound - slots)")
  (auto simp: checked_mul_def split: if_splits)

declare double_until.simps [simp del]

definition slots_for :: "nat \<Rightarrow> nat option" where
  "slots_for cap = Option.bind (checked_next_power_of_two cap) (double_until cap)"

text \<open>The allocator answers whether \<^verbatim>\<open>try_reserve_exact\<close> gets the slots.\<close>

definition try_with_capacity :: "(nat \<Rightarrow> bool) \<Rightarrow> nat \<Rightarrow> reserve_error + ('k, 'v) hash_map" where
  "try_with_capacity reserves cap =
    (case slots_for cap of
       None \<Rightarrow> Inl TooLarge
     | Some n \<Rightarrow>
         if reserves n then Inr (from_parts (replicate n None)) else Inl Alloc)"


section \<open>Arithmetic round the table\<close>

text \<open>How far slot \<open>i\<close> is past slot \<open>h\<close>, going round a table of \<open>n\<close> slots.\<close>

definition past :: "nat \<Rightarrow> nat \<Rightarrow> nat \<Rightarrow> nat" where
  "past n h i = (if h \<le> i then i - h else i + n - h)"

lemma and_mask_mod: "(x::nat) AND (2 ^ b - 1) = x mod 2 ^ b"
  by (metis and.commute mask_eq_exp_minus_1 take_bit_eq_mask take_bit_eq_mod)

lemma next_slot: "(i::nat) < n \<Longrightarrow> n = 2 ^ b \<Longrightarrow> (i + 1) AND (n - 1) = (if i + 1 = n then 0 else i + 1)"
  by (simp add: and_mask_mod del: One_nat_def)

lemma past_less: "h < n \<Longrightarrow> i < n \<Longrightarrow> past n h i < n"
  by (auto simp: past_def)

lemma wrapping_past:
  assumes "h < n" "i < n" "n = 2 ^ b" "b < 64"
  shows "wrapping_sub i h AND (n - 1) = past n h i"
proof -
  have d: "n dvd 2 ^ 64" unfolding assms(3) by (rule le_imp_power_dvd) (use assms(4) in simp)
  then obtain c where c: "2 ^ 64 = n * c" by (elim dvdE)
  have "wrapping_sub i h AND (n - 1) = (i + (2 ^ 64 - h)) mod 2 ^ 64 mod n"
    unfolding assms(3) and_mask_mod wrapping_sub_def by simp
  also have "\<dots> = (i + (2 ^ 64 - h)) mod n" using d by (simp add: mod_mod_cancel)
  also have "\<dots> = past n h i"
  proof -
    have n64: "n \<le> 2 ^ 64" using d by (simp add: dvd_imp_le)
    have "c \<noteq> 0" using c by (metis mult_0_right power_not_zero zero_neq_numeral)
    then obtain c' where c': "c = Suc c'" by (cases c) auto
    have e: "i + (2 ^ 64 - h) = (i + (n - h)) + n * c'"
      using c c' assms(1) n64 by simp
    have "(i + (2 ^ 64 - h)) mod n = (i + (n - h)) mod n" unfolding e by simp
    also have "\<dots> = past n h i"
    proof (cases "h \<le> i")
      case True
      then have wrap: "i + (n - h) = (i - h) + n" using assms by simp
      have "(i - h + n) mod n = i - h" unfolding mod_add_self2 using assms(2) by simp
      then show ?thesis unfolding wrap using True by (simp only: past_def if_True)
    qed (use assms in \<open>simp add: past_def\<close>)
    finally show ?thesis .
  qed
  finally show ?thesis .
qed

lemma trailing_zeros_power: "trailing_zeros (2 ^ b) = b"
proof (induction b)
  case 0
  show ?case by (subst trailing_zeros.simps) simp
next
  case (Suc b)
  show ?case by (subst trailing_zeros.simps) (simp add: Suc)
qed

lemma capacity_of_less: "0 < n \<Longrightarrow> capacity_of n < n"
  by (auto simp: capacity_of_def)


section \<open>What the slots hold\<close>

lemma option_eqI: "(\<And>e. x = Some e \<longleftrightarrow> y = Some e) \<Longrightarrow> x = y"
  by (cases x; cases y) auto

definition slot_entries :: "('k, 'v) slot list \<Rightarrow> ('k \<times> 'v) list" where
  "slot_entries slots = List.map_filter (\<lambda>slot. slot) slots"

abbreviation slot_keys :: "('k, 'q) keying \<Rightarrow> ('k, 'v) slot list \<Rightarrow> 'q list" where
  "slot_keys kk slots \<equiv> map (\<lambda>e. borrow kk (fst e)) (slot_entries slots)"

text \<open>The abstract map: a borrowed key to the entry held for it.\<close>

definition held_map :: "('k, 'q) keying \<Rightarrow> ('k, 'v) hash_map \<Rightarrow> 'q \<Rightarrow> ('k \<times> 'v) option" where
  "held_map kk t = map_of (map (\<lambda>e. (borrow kk (fst e), e)) (slot_entries (hm_slots t)))"

lemma slot_entries_simps [simp]:
  "slot_entries [] = []"
  "slot_entries (None # slots) = slot_entries slots"
  "slot_entries (Some e # slots) = e # slot_entries slots"
  "slot_entries (slots @ slots') = slot_entries slots @ slot_entries slots'"
  by (simp_all add: slot_entries_def map_filter_def)

lemma set_slot_entries [simp]: "e \<in> set (slot_entries slots) \<longleftrightarrow> Some e \<in> set slots"
  by (force simp: slot_entries_def map_filter_def)

lemma slot_entries_None [simp]:
  "slot_entries (replicate n None) = []" "slot_entries (map (\<lambda>_. None) slots) = []"
  by (simp_all add: slot_entries_def map_filter_def filter_empty_conv)

lemma mset_slot_entries: "mset slots = mset slots' \<Longrightarrow> mset (slot_entries slots) = mset (slot_entries slots')"
  by (simp add: slot_entries_def map_filter_def)

lemma slot_entries_update:
  assumes "i < length slots"
  shows "mset (slot_entries (slots[i := slot])) + mset (slot_entries [slots ! i])
       = mset (slot_entries slots) + mset (slot_entries [slot])"
proof -
  have a: "slots = take i slots @ [slots ! i] @ drop (Suc i) slots"
    using assms by (simp add: id_take_nth_drop)
  have b: "slots[i := slot] = take i slots @ [slot] @ drop (Suc i) slots"
    using assms by (simp add: upd_conv_take_nth_drop)
  have c: "slot_entries slots
      = slot_entries (take i slots) @ slot_entries [slots ! i] @ slot_entries (drop (Suc i) slots)"
    by (subst a) (simp only: slot_entries_simps)
  show ?thesis unfolding b c slot_entries_simps(4) by simp
qed

lemma slot_entries_place:
  "i < length slots \<Longrightarrow> slots ! i = None \<Longrightarrow>
   mset (slot_entries (slots[i := Some e])) = mset (e # slot_entries slots)"
  using slot_entries_update [of i slots "Some e"] by simp

lemma slot_entries_take:
  "i < length slots \<Longrightarrow> slots ! i = Some e \<Longrightarrow>
   mset (e # slot_entries (slots[i := None])) = mset (slot_entries slots)"
  using slot_entries_update [of i slots None] by simp

lemma slot_entries_over:
  "i < length slots \<Longrightarrow> slots ! i = Some e \<Longrightarrow>
   mset (e # slot_entries (slots[i := Some e'])) = mset (e' # slot_entries slots)"
  using slot_entries_update [of i slots "Some e'"] by simp

lemma slot_keys_mset:
  "mset (slot_entries slots) = mset es \<Longrightarrow>
   distinct (slot_keys kk slots) \<longleftrightarrow> distinct (map (\<lambda>e. borrow kk (fst e)) es)"
  by (rule mset_eq_imp_distinct_iff) simp

lemma length_slot_entries: "mset (slot_entries slots) = mset es \<Longrightarrow> length (slot_entries slots) = length es"
  by (metis size_mset)

lemma slot_keys_unique:
  assumes "distinct (slot_keys kk slots)" "i < length slots" "j < length slots"
    and "slots ! i = Some e" "slots ! j = Some e'" "borrow kk (fst e) = borrow kk (fst e')"
  shows "i = j"
proof (rule ccontr)
  assume ij: "i \<noteq> j"
  have "Some e' \<in> set (slots[i := None])"
    using assms ij by (metis length_list_update nth_list_update_neq nth_mem)
  then have "e' \<in> set (slot_entries (slots[i := None]))" by simp
  moreover have "distinct (map (\<lambda>e. borrow kk (fst e)) (e # slot_entries (slots[i := None])))"
    by (rule iffD1 [OF slot_keys_mset [OF slot_entries_take [symmetric, OF assms(2,4)]] assms(1)])
  ultimately show False using assms(6) by auto
qed

lemma held_map_Some:
  assumes "distinct (slot_keys kk (hm_slots t))"
  shows "held_map kk t q = Some e \<longleftrightarrow> Some e \<in> set (hm_slots t) \<and> borrow kk (fst e) = q"
proof -
  let ?es = "map (\<lambda>e. (borrow kk (fst e), e)) (slot_entries (hm_slots t))"
  have "distinct (map fst ?es)" using assms by (simp add: comp_def)
  then show ?thesis unfolding held_map_def by (auto simp: map_of_eq_Some_iff)
qed

lemma held_map_None:
  "held_map kk t q = None \<longleftrightarrow> (\<forall>e. Some e \<in> set (hm_slots t) \<longrightarrow> borrow kk (fst e) \<noteq> q)"
  by (force simp: held_map_def map_of_eq_None_iff)


section \<open>Well-formed maps\<close>

text \<open>Every entry is reached from its home: no slot between the two is empty.\<close>

definition probe_inv :: "('k, 'q) keying \<Rightarrow> ('k, 'v) hash_map \<Rightarrow> bool" where
  "probe_inv kk t \<longleftrightarrow>
    (let slots = hm_slots t; n = length slots in
     \<forall>i<n. \<forall>e. slots ! i = Some e \<longrightarrow>
       (\<forall>p<n. past n (key_home kk t (fst e)) p < past n (key_home kk t (fst e)) i \<longrightarrow> slots ! p \<noteq> None))"

definition shape_inv :: "('k, 'v) hash_map \<Rightarrow> bool" where
  "shape_inv t \<longleftrightarrow> (\<exists>b<64. length (hm_slots t) = 2 ^ b \<and> hm_shift t = 64 - b)"

definition map_wf :: "('k, 'q) keying \<Rightarrow> ('k, 'v) hash_map \<Rightarrow> bool" where
  "map_wf kk t \<longleftrightarrow> shape_inv t \<and> hm_capacity t = capacity_of (length (hm_slots t)) \<and>
    hm_len t = length (slot_entries (hm_slots t)) \<and> hm_len t \<le> hm_capacity t \<and>
    distinct (slot_keys kk (hm_slots t)) \<and> probe_inv kk t"

lemma home_cong: "hm_shift t = hm_shift t' \<Longrightarrow> home t h = home t' h"
  by (simp add: home_def)

lemma home_update [simp]:
  "home (t\<lparr>hm_slots := s\<rparr>) = home t" "home (t\<lparr>hm_len := l\<rparr>) = home t"
  by (simp_all add: home_def fun_eq_iff)

lemma home_less:
  assumes "shape_inv t" shows "home t h < length (hm_slots t)"
proof -
  obtain b where b: "b < 64" "length (hm_slots t) = 2 ^ b" "hm_shift t = 64 - b"
    using assms by (auto simp: shape_inv_def)
  show ?thesis
  proof (cases "b = 0")
    case False
    have "unat h < 2 ^ b * 2 ^ (64 - b)"
      using unsigned_less [of h, where 'a = nat] b(1) by (simp flip: power_add)
    then have "unat h div 2 ^ (64 - b) < 2 ^ b" by (simp add: less_mult_imp_div_less)
    then have "unat (drop_bit (64 - b) h) < 2 ^ b"
      using trans [OF unat_drop_bit_eq [of "64 - b" h] drop_bit_eq_div] by simp
    then show ?thesis using b False by (simp add: home_def)
  qed (use b in \<open>simp add: home_def\<close>)
qed

lemma shape_next:
  assumes "shape_inv t" "i < length (hm_slots t)"
  shows "(i + 1) AND (length (hm_slots t) - 1) = (if i + 1 = length (hm_slots t) then 0 else i + 1)"
  using assms next_slot [OF assms(2)] unfolding shape_inv_def by blast

lemma shape_past:
  assumes "shape_inv t" "h < length (hm_slots t)" "i < length (hm_slots t)"
  shows "wrapping_sub i h AND (length (hm_slots t) - 1) = past (length (hm_slots t)) h i"
  using assms wrapping_past [OF assms(2,3)] unfolding shape_inv_def by blast

lemma shape_inv_update:
  "length s = length (hm_slots t) \<Longrightarrow> shape_inv (t\<lparr>hm_slots := s\<rparr>) = shape_inv t"
  "shape_inv (t\<lparr>hm_len := l\<rparr>) = shape_inv t"
  by (auto simp: shape_inv_def)

text \<open>Some slot is empty.\<close>

lemma map_wf_empty_slot:
  assumes "map_wf kk t" shows "\<exists>p<length (hm_slots t). hm_slots t ! p = None"
proof (rule ccontr)
  assume "\<not> ?thesis"
  then have "filter (\<lambda>s. s \<noteq> None) (hm_slots t) = hm_slots t"
    by (simp add: filter_id_conv all_set_conv_all_nth)
  then have "length (slot_entries (hm_slots t)) = length (hm_slots t)"
    by (simp add: slot_entries_def map_filter_def)
  moreover have "0 < length (hm_slots t)" using assms by (auto simp: map_wf_def shape_inv_def)
  ultimately show False using assms capacity_of_less [of "length (hm_slots t)"] by (simp add: map_wf_def)
qed

section \<open>A probe returns\<close>

lemma past_next:
  "h < n \<Longrightarrow> i < n \<Longrightarrow> g < n \<Longrightarrow> past n h i < past n h g \<Longrightarrow>
   past n h (if i + 1 = n then 0 else i + 1) = Suc (past n h i)"
  by (auto simp: past_def split: if_splits)

lemma past_inj: "h < n \<Longrightarrow> i < n \<Longrightarrow> j < n \<Longrightarrow> past n h i = past n h j \<Longrightarrow> i = j"
  by (auto simp: past_def split: if_splits)

text \<open>The probe walks over the slots that hold other keys and stops at the first that is empty or
  holds the key.\<close>

lemma find_loop_walk:
  assumes shape: "shape_inv t" and h: "h < length (hm_slots t)" and g: "g < length (hm_slots t)"
    and over: "\<And>p. p < length (hm_slots t) \<Longrightarrow> past (length (hm_slots t)) h p < past (length (hm_slots t)) h g
      \<Longrightarrow> \<exists>e. hm_slots t ! p = Some e \<and> borrow kk (fst e) \<noteq> q"
  shows "i < length (hm_slots t) \<Longrightarrow> past (length (hm_slots t)) h i \<le> past (length (hm_slots t)) h g \<Longrightarrow>
    find_loop kk (hm_slots t) q i = find_loop kk (hm_slots t) q g"
proof (induction "past (length (hm_slots t)) h g - past (length (hm_slots t)) h i" arbitrary: i)
  case 0
  then have "i = g" using past_inj [OF h] g by simp
  then show ?case by simp
next
  case (Suc x)
  let ?n = "length (hm_slots t)"
  let ?i = "if i + 1 = ?n then 0 else i + 1"
  have lt: "past ?n h i < past ?n h g" using Suc.hyps(2) by simp
  obtain e where e: "hm_slots t ! i = Some e" "borrow kk (fst e) \<noteq> q"
    using over [OF Suc.prems(1) lt] by blast
  have "past ?n h ?i = Suc (past ?n h i)" by (rule past_next [OF h Suc.prems(1) g lt])
  then have "find_loop kk (hm_slots t) q ?i = find_loop kk (hm_slots t) q g"
    using Suc.hyps Suc.prems lt by (intro Suc.hyps(1)) auto
  then show ?case
    using Suc.prems(1) e shape_next [OF shape Suc.prems(1)] by (subst find_loop.simps) simp
qed

lemma past_home: "past n h h = 0"
  by (simp add: past_def)

lemma find_entry_walk:
  assumes "shape_inv t" "g < length (hm_slots t)"
    and "\<And>p. p < length (hm_slots t) \<Longrightarrow>
      past (length (hm_slots t)) (home t (hash_one kk q)) p < past (length (hm_slots t)) (home t (hash_one kk q)) g
      \<Longrightarrow> \<exists>e. hm_slots t ! p = Some e \<and> borrow kk (fst e) \<noteq> q"
  shows "find_entry kk t q = find_loop kk (hm_slots t) q g"
proof -
  let ?h = "home t (hash_one kk q)"
  have h: "?h < length (hm_slots t)" by (rule home_less [OF assms(1)])
  have "past (length (hm_slots t)) ?h ?h \<le> past (length (hm_slots t)) ?h g" by (simp add: past_home)
  then show ?thesis
    unfolding find_entry_def using find_loop_walk [OF assms(1) h assms(2,3) h] by blast
qed

text \<open>A held key is found where it is.\<close>

lemma find_entry_present:
  assumes wf: "map_wf kk t" and i: "i < length (hm_slots t)" "hm_slots t ! i = Some e"
  shows "find_entry kk t (borrow kk (fst e)) = Some (Inr i)"
proof -
  have "find_entry kk t (borrow kk (fst e)) = find_loop kk (hm_slots t) (borrow kk (fst e)) i"
  proof (rule find_entry_walk)
    fix p
    let ?h = "key_home kk t (fst e)"
    assume p: "p < length (hm_slots t)" "past (length (hm_slots t)) ?h p < past (length (hm_slots t)) ?h i"
    then have "hm_slots t ! p \<noteq> None" using wf i unfolding map_wf_def probe_inv_def Let_def by blast
    then obtain e' where e': "hm_slots t ! p = Some e'" by blast
    moreover have "borrow kk (fst e') \<noteq> borrow kk (fst e)"
      using slot_keys_unique [OF _ p(1) i(1) e' i(2)] p(2) wf by (auto simp: map_wf_def)
    ultimately show "\<exists>e'. hm_slots t ! p = Some e' \<and> borrow kk (fst e') \<noteq> borrow kk (fst e)" by blast
  qed (use wf i in \<open>auto simp: map_wf_def\<close>)
  then show ?thesis using i by (simp add: find_loop.simps)
qed

text \<open>An absent key's probe ends at the first empty slot from its home.\<close>

lemma find_entry_absent:
  assumes wf: "map_wf kk t" and q: "held_map kk t q = None"
  obtains i where "i < length (hm_slots t)" "hm_slots t ! i = None" "find_entry kk t q = Some (Inl i)"
    "\<And>p. p < length (hm_slots t) \<Longrightarrow>
      past (length (hm_slots t)) (home t (hash_one kk q)) p < past (length (hm_slots t)) (home t (hash_one kk q)) i
      \<Longrightarrow> hm_slots t ! p \<noteq> None"
proof -
  let ?n = "length (hm_slots t)"
  let ?h = "home t (hash_one kk q)"
  obtain i where i: "i < ?n" "hm_slots t ! i = None"
    and least: "\<And>p. p < ?n \<Longrightarrow> hm_slots t ! p = None \<Longrightarrow> past ?n ?h i \<le> past ?n ?h p"
    using map_wf_empty_slot [OF wf]
      ex_has_least_nat [of "\<lambda>p. p < ?n \<and> hm_slots t ! p = None" _ "past ?n ?h"] by blast
  have over: "hm_slots t ! p \<noteq> None" if "p < ?n" "past ?n ?h p < past ?n ?h i" for p
    using least [OF that(1)] that(2) by linarith
  have "find_entry kk t q = find_loop kk (hm_slots t) q i"
  proof (rule find_entry_walk)
    fix p assume p: "p < ?n" "past ?n ?h p < past ?n ?h i"
    then obtain e where e: "hm_slots t ! p = Some e" using over [OF p] by blast
    then have "Some e \<in> set (hm_slots t)" using p(1) by (metis nth_mem)
    then show "\<exists>e. hm_slots t ! p = Some e \<and> borrow kk (fst e) \<noteq> q"
      using q e unfolding held_map_None by blast
  qed (use wf i in \<open>auto simp: map_wf_def\<close>)
  then have "find_entry kk t q = Some (Inl i)" using i by (simp add: find_loop.simps)
  then show thesis using that i over by blast
qed

end
