(* ===== verification/Hash_Map_Laws.thy ===== *)
theory Hash_Map_Laws
  imports Fixed_Hash_Map
begin

text \<open>
  The laws of the hash map's operations on well-formed maps: every call returns, the map stays
  well-formed, and the abstract map changes as a bounded map's should.  Backward-shift deletion keeps
  every remaining entry reachable from its home.
\<close>

declare split_paired_All [simp del] split_paired_Ex [simp del]

section \<open>Lookup and insertion\<close>

lemma held_at:
  assumes "map_wf kk t" "held_map kk t q = Some e"
  obtains i where "i < length (hm_slots t)" "hm_slots t ! i = Some e" "find_entry kk t q = Some (Inr i)"
    "borrow kk (fst e) = q"
proof -
  have q: "Some e \<in> set (hm_slots t)" "borrow kk (fst e) = q"
    using assms held_map_Some [of kk t q e] by (auto simp: map_wf_def)
  then obtain i where "i < length (hm_slots t)" "hm_slots t ! i = Some e"
    by (auto simp: in_set_conv_nth)
  then show thesis using that find_entry_present [OF assms(1)] q(2) by blast
qed

lemma get_key_value_held:
  assumes "map_wf kk t" shows "get_key_value kk t q = Some (held_map kk t q)"
proof (cases "held_map kk t q")
  case None
  obtain i where "find_entry kk t q = Some (Inl i)" by (rule find_entry_absent [OF assms None])
  then show ?thesis using None by (simp add: get_key_value_def)
next
  case (Some e)
  obtain i where "hm_slots t ! i = Some e" "find_entry kk t q = Some (Inr i)"
    by (rule held_at [OF assms Some])
  then show ?thesis using Some by (simp add: get_key_value_def)
qed

text \<open>A change of the slots that leaves every occupied slot occupied keeps the probes.\<close>

lemma probe_inv_fill:
  assumes "probe_inv kk t" "i < length (hm_slots t)" "hm_shift t' = hm_shift t"
    and "hm_slots t' = (hm_slots t)[i := Some e]"
    and "\<And>p. p < length (hm_slots t) \<Longrightarrow>
      past (length (hm_slots t)) (key_home kk t (fst e)) p < past (length (hm_slots t)) (key_home kk t (fst e)) i
      \<Longrightarrow> hm_slots t ! p \<noteq> None"
  shows "probe_inv kk t'"
proof -
  have h: "home t' = home t" using assms(3) by (auto simp: home_def fun_eq_iff)
  have old: "hm_slots t ! p \<noteq> None" if "j < length (hm_slots t)" "hm_slots t ! j = Some e'" "p < length (hm_slots t)"
      "past (length (hm_slots t)) (key_home kk t (fst e')) p < past (length (hm_slots t)) (key_home kk t (fst e')) j"
    for j e' p
    using assms(1) that unfolding probe_inv_def Let_def by blast
  show ?thesis
    unfolding probe_inv_def Let_def assms(4) length_list_update h
  proof (intro allI impI)
    fix j e' p
    assume j: "j < length (hm_slots t)" "(hm_slots t)[i := Some e] ! j = Some e'"
      and p: "p < length (hm_slots t)"
        "past (length (hm_slots t)) (key_home kk t (fst e')) p < past (length (hm_slots t)) (key_home kk t (fst e')) j"
    have "hm_slots t ! p \<noteq> None"
    proof (cases "j = i")
      case True
      then have "e' = e" using j assms(2) by simp
      then show ?thesis using assms(5) p True by blast
    qed (use old j p in auto)
    then show "(hm_slots t)[i := Some e] ! p \<noteq> None" using p(1) by (cases "p = i") auto
  qed
qed

lemma map_wf_place:
  assumes wf: "map_wf kk t" and i: "i < length (hm_slots t)" "hm_slots t ! i = None"
    and absent: "held_map kk t (borrow kk key) = None" and room: "hm_len t \<noteq> hm_capacity t"
    and over: "\<And>p. p < length (hm_slots t) \<Longrightarrow>
      past (length (hm_slots t)) (key_home kk t key) p < past (length (hm_slots t)) (key_home kk t key) i
      \<Longrightarrow> hm_slots t ! p \<noteq> None"
  shows "map_wf kk (place_entry t i key v)"
    and "held_map kk (place_entry t i key v) = (held_map kk t)(borrow kk key \<mapsto> (key, v))"
proof -
  let ?t = "place_entry t i key v" and ?e = "(key, v)"
  have m: "mset (slot_entries (hm_slots ?t)) = mset (?e # slot_entries (hm_slots t))"
    unfolding place_entry_def using slot_entries_place [OF i] by simp
  have d: "distinct (slot_keys kk (hm_slots ?t))"
  proof -
    have "borrow kk key \<notin> set (slot_keys kk (hm_slots t))"
    proof
      assume "borrow kk key \<in> set (slot_keys kk (hm_slots t))"
      then obtain e where "e \<in> set (slot_entries (hm_slots t))" "borrow kk key = borrow kk (fst e)"
        unfolding set_map by (elim imageE)
      then show False using absent unfolding held_map_None set_slot_entries by metis
    qed
    then show ?thesis using slot_keys_mset [OF m, of kk] wf by (simp add: map_wf_def)
  qed
  have "probe_inv kk ?t"
    by (rule probe_inv_fill [of kk t i _ ?e]) (use wf i over in \<open>auto simp: map_wf_def place_entry_def\<close>)
  then show wf': "map_wf kk ?t"
    using wf d length_slot_entries [OF m] room
    by (auto simp: map_wf_def place_entry_def shape_inv_def)
  have s: "Some e \<in> set (hm_slots ?t) \<longleftrightarrow> e = ?e \<or> Some e \<in> set (hm_slots t)" for e
    using arg_cong [OF m, of "\<lambda>m. e \<in># m"] by simp
  show "held_map kk ?t = (held_map kk t)(borrow kk key \<mapsto> ?e)"
  proof
    fix q
    have "held_map kk ?t q = Some e \<longleftrightarrow> ((held_map kk t)(borrow kk key \<mapsto> ?e)) q = Some e" for e
      using held_map_Some [OF d, of q e] held_map_Some [of kk t q e] wf absent
      unfolding s held_map_None map_wf_def by auto
    then show "held_map kk ?t q = ((held_map kk t)(borrow kk key \<mapsto> ?e)) q" by (rule option_eqI)
  qed
qed

lemma map_wf_set_value:
  assumes wf: "map_wf kk t" and i: "i < length (hm_slots t)" "hm_slots t ! i = Some (key, v)"
  shows "map_wf kk (set_value t i f)"
    and "held_map kk (set_value t i f) = (held_map kk t)(borrow kk key \<mapsto> (key, f v))"
proof -
  let ?t = "set_value t i f" and ?e = "(key, v)" and ?e' = "(key, f v)"
  have sl: "hm_slots ?t = (hm_slots t)[i := Some ?e']" unfolding set_value_def i(2) by simp
  have m: "mset (?e # slot_entries (hm_slots ?t)) = mset (?e' # slot_entries (hm_slots t))"
    unfolding sl by (rule slot_entries_over [OF i])
  have "mset (borrow kk key # slot_keys kk (hm_slots ?t)) = mset (borrow kk key # slot_keys kk (hm_slots t))"
    using arg_cong [OF m, of "image_mset (\<lambda>e. borrow kk (fst e))"] by simp
  then have "mset (slot_keys kk (hm_slots ?t)) = mset (slot_keys kk (hm_slots t))" by simp
  then have d: "distinct (slot_keys kk (hm_slots ?t))"
    using wf mset_eq_imp_distinct_iff by (metis map_wf_def)
  have "probe_inv kk ?t"
    by (rule probe_inv_fill [of kk t i _ ?e'])
      (use wf i sl in \<open>auto simp: map_wf_def probe_inv_def Let_def set_value_def\<close>)
  then show "map_wf kk ?t"
    using wf d arg_cong [OF m, of size] by (auto simp: map_wf_def set_value_def shape_inv_def)
  have at_i: "hm_slots ?t ! i = Some ?e'" "i < length (hm_slots ?t)" using sl i by simp_all
  have other: "hm_slots ?t ! j = hm_slots t ! j" if "j \<noteq> i" for j using sl that by simp
  have len: "length (hm_slots ?t) = length (hm_slots t)" unfolding sl by simp
  show "held_map kk ?t = (held_map kk t)(borrow kk key \<mapsto> ?e')"
  proof
    fix q
    have "held_map kk ?t q = Some e \<longleftrightarrow> ((held_map kk t)(borrow kk key \<mapsto> ?e')) q = Some e" for e
    proof (cases "q = borrow kk key")
      case True
      have "held_map kk ?t q = Some ?e'"
        unfolding held_map_Some [OF d] using True at_i by (metis fst_conv nth_mem)
      then show ?thesis using True by simp
    next
      case False
      have "Some e \<in> set (hm_slots ?t) \<longleftrightarrow> Some e \<in> set (hm_slots t)" if "borrow kk (fst e) = q"
        using other at_i i False that unfolding in_set_conv_nth len by (metis fst_conv option.inject)
      then show ?thesis
        using False held_map_Some [OF d, of q e] held_map_Some [of kk t q e] wf
        by (auto simp: map_wf_def)
    qed
    then show "held_map kk ?t q = ((held_map kk t)(borrow kk key \<mapsto> ?e')) q" by (rule option_eqI)
  qed
qed

lemma map_insert_present:
  assumes wf: "map_wf kk t" and held: "held_map kk t (borrow kk key) = Some (k, w)"
  obtains t' where "map_insert kk t key v = Some (Inr (Some w), t')" "map_wf kk t'"
    "hm_capacity t' = hm_capacity t" "hm_len t' = hm_len t"
    "held_map kk t' = (held_map kk t)(borrow kk key \<mapsto> (k, v))"
proof -
  obtain i where i: "i < length (hm_slots t)" "hm_slots t ! i = Some (k, w)"
      "find_entry kk t (borrow kk key) = Some (Inr i)" and k: "borrow kk k = borrow kk key"
    using held_at [OF wf held] by (metis fst_conv)
  show thesis
  proof (rule that [of "set_value t i (\<lambda>_. v)"])
    show "map_insert kk t key v = Some (Inr (Some w), set_value t i (\<lambda>_. v))"
      using i by (simp add: map_insert_def)
    show "map_wf kk (set_value t i (\<lambda>_. v))" by (rule map_wf_set_value(1) [OF wf i(1,2)])
    show "held_map kk (set_value t i (\<lambda>_. v)) = (held_map kk t)(borrow kk key \<mapsto> (k, v))"
      using map_wf_set_value(2) [OF wf i(1,2)] k by simp
  qed (simp_all add: set_value_def)
qed

lemma map_insert_full:
  assumes wf: "map_wf kk t" and absent: "held_map kk t (borrow kk key) = None"
    and full: "hm_len t = hm_capacity t"
  shows "map_insert kk t key v = Some (Inl (Full_entry key v), t)"
proof -
  obtain i where "find_entry kk t (borrow kk key) = Some (Inl i)"
    by (rule find_entry_absent [OF wf absent])
  then show ?thesis using full by (simp add: map_insert_def)
qed

lemma map_insert_new:
  assumes wf: "map_wf kk t" and absent: "held_map kk t (borrow kk key) = None"
    and room: "hm_len t \<noteq> hm_capacity t"
  obtains t' where "map_insert kk t key v = Some (Inr None, t')" "map_wf kk t'"
    "hm_capacity t' = hm_capacity t" "hm_len t' = Suc (hm_len t)"
    "held_map kk t' = (held_map kk t)(borrow kk key \<mapsto> (key, v))"
proof (rule find_entry_absent [OF wf absent])
  fix i
  assume i: "i < length (hm_slots t)" "hm_slots t ! i = None" "find_entry kk t (borrow kk key) = Some (Inl i)"
    and over: "\<And>p. p < length (hm_slots t) \<Longrightarrow>
      past (length (hm_slots t)) (key_home kk t key) p < past (length (hm_slots t)) (key_home kk t key) i
      \<Longrightarrow> hm_slots t ! p \<noteq> None"
  show thesis
  proof (rule that [of "place_entry t i key v"])
    show "map_insert kk t key v = Some (Inr None, place_entry t i key v)"
      using i room by (simp add: map_insert_def)
    show "map_wf kk (place_entry t i key v)" by (rule map_wf_place(1) [OF wf i(1,2) absent room over])
    show "held_map kk (place_entry t i key v) = (held_map kk t)(borrow kk key \<mapsto> (key, v))"
      by (rule map_wf_place(2) [OF wf i(1,2) absent room over])
  qed (simp_all add: place_entry_def)
qed

section \<open>Backward-shift deletion\<close>

text \<open>With a hole at slot \<open>hole\<close>, every entry is reached from its home but for the hole, and those
  from the hole up to \<open>nxt\<close> without it.\<close>

definition shift_inv :: "('k, 'q) keying \<Rightarrow> ('k, 'v) hash_map \<Rightarrow> nat \<Rightarrow> nat \<Rightarrow> bool" where
  "shift_inv kk t hole nxt \<longleftrightarrow>
    (let slots = hm_slots t; n = length slots in
     shape_inv t \<and> hole < n \<and> nxt < n \<and> slots ! hole = None \<and>
     (\<forall>i<n. \<forall>e. slots ! i = Some e \<longrightarrow>
       (\<forall>p<n. past n (key_home kk t (fst e)) p < past n (key_home kk t (fst e)) i \<longrightarrow>
         slots ! p \<noteq> None \<or> p = hole)) \<and>
     (\<forall>i<n. past n hole i \<le> past n hole nxt \<longrightarrow> i \<noteq> hole \<longrightarrow>
       slots ! i \<noteq> None \<and>
       (\<forall>e. slots ! i = Some e \<longrightarrow>
         \<not> past n (key_home kk t (fst e)) hole < past n (key_home kk t (fst e)) i)))"

lemma past_zero: "h < n \<Longrightarrow> i < n \<Longrightarrow> past n h i = 0 \<longleftrightarrow> i = h"
  by (auto simp: past_def)

lemma past_step:
  "h < n \<Longrightarrow> i < n \<Longrightarrow> (if i + 1 = n then 0 else i + 1) \<noteq> h \<Longrightarrow>
   past n h (if i + 1 = n then 0 else i + 1) = Suc (past n h i)"
  by (auto simp: past_def split: if_splits)

lemma past_step_to:
  "g < n \<Longrightarrow> i < n \<Longrightarrow> i \<noteq> g \<Longrightarrow> Suc (past n (if i + 1 = n then 0 else i + 1) g) = past n i g"
  by (auto simp: past_def split: if_splits)

lemma past_within:
  "h < n \<Longrightarrow> i < n \<Longrightarrow> hole < n \<Longrightarrow> i \<noteq> hole \<Longrightarrow> past n hole i \<le> past n h i \<longleftrightarrow> past n h hole < past n h i"
  by (auto simp: past_def)

lemma past_between:
  "h < n \<Longrightarrow> i < n \<Longrightarrow> hole < n \<Longrightarrow> j < n \<Longrightarrow> past n h hole < past n h i \<Longrightarrow> past n hole j < past n hole i \<Longrightarrow>
   past n h j < past n h i"
  by (auto simp: past_def split: if_splits)

lemma past_closer:
  "h < n \<Longrightarrow> i < n \<Longrightarrow> hole < n \<Longrightarrow> past n hole i \<le> past n h i \<Longrightarrow> past n h hole \<le> past n h i"
  by (auto simp: past_def split: if_splits)

lemma shift_inv_reached:
  "shift_inv kk t hole nxt \<Longrightarrow> i < length (hm_slots t) \<Longrightarrow> hm_slots t ! i = Some e \<Longrightarrow> p < length (hm_slots t) \<Longrightarrow>
   past (length (hm_slots t)) (key_home kk t (fst e)) p < past (length (hm_slots t)) (key_home kk t (fst e)) i \<Longrightarrow>
   hm_slots t ! p \<noteq> None \<or> p = hole"
  unfolding shift_inv_def Let_def by blast

lemma shift_inv_done:
  "shift_inv kk t hole nxt \<Longrightarrow> i < length (hm_slots t) \<Longrightarrow> hm_slots t ! i = Some e \<Longrightarrow> i \<noteq> hole \<Longrightarrow>
   past (length (hm_slots t)) hole i \<le> past (length (hm_slots t)) hole nxt \<Longrightarrow>
   \<not> past (length (hm_slots t)) (key_home kk t (fst e)) hole < past (length (hm_slots t)) (key_home kk t (fst e)) i"
  unfolding shift_inv_def Let_def by blast

lemma shift_inv_bounds:
  "shift_inv kk t hole nxt \<Longrightarrow>
   shape_inv t \<and> hole < length (hm_slots t) \<and> nxt < length (hm_slots t) \<and> hm_slots t ! hole = None"
  unfolding shift_inv_def Let_def by blast

text \<open>When the next slot is empty, the hole may stay empty.\<close>

lemma shift_inv_end:
  assumes inv: "shift_inv kk t hole nxt"
    and nx: "nx = (if nxt + 1 = length (hm_slots t) then 0 else nxt + 1)" "hm_slots t ! nx = None"
  shows "probe_inv kk t"
  unfolding probe_inv_def Let_def
proof (intro allI impI)
  let ?n = "length (hm_slots t)"
  have b: "shape_inv t" "hole < ?n" "nxt < ?n" "hm_slots t ! hole = None"
    using shift_inv_bounds [OF inv] by blast+
  have nn: "nx < ?n" using b(3) nx(1) by auto
  fix i e p
  assume i: "i < ?n" "hm_slots t ! i = Some e" and p: "p < ?n"
    "past ?n (key_home kk t (fst e)) p < past ?n (key_home kk t (fst e)) i"
  let ?h = "key_home kk t (fst e)"
  have h: "?h < ?n" by (rule home_less [OF b(1)])
  have ih: "i \<noteq> hole" using i b(4) by auto
  have "p \<noteq> hole"
  proof
    assume "p = hole"
    then have through: "past ?n ?h hole < past ?n ?h i" using p(2) by simp
    then have far: "past ?n hole nxt < past ?n hole i"
      using shift_inv_done [OF inv i ih] by linarith
    have "past ?n hole nx = Suc (past ?n hole nxt)"
      unfolding nx(1) by (rule past_next [OF b(2,3) i(1) far])
    moreover have "i \<noteq> nx" using i nx(2) by auto
    ultimately have "past ?n hole nx < past ?n hole i" and nh: "nx \<noteq> hole"
      using far past_inj [OF b(2) i(1) nn] past_zero [OF b(2) nn] by linarith+
    then have "past ?n ?h nx < past ?n ?h i" using past_between [OF h i(1) b(2) nn through] by blast
    then show False using shift_inv_reached [OF inv i nn] nx(2) nh by blast
  qed
  then show "hm_slots t ! p \<noteq> None" using shift_inv_reached [OF inv i p] by blast
qed

text \<open>An entry whose probe run does not meet the hole stays.\<close>

lemma shift_inv_stay:
  assumes inv: "shift_inv kk t hole nxt"
    and nx: "nx = (if nxt + 1 = length (hm_slots t) then 0 else nxt + 1)" "hm_slots t ! nx = Some e"
    and stay: "\<not> past (length (hm_slots t)) hole nx \<le> past (length (hm_slots t)) (key_home kk t (fst e)) nx"
  shows "shift_inv kk t hole nx"
proof -
  let ?n = "length (hm_slots t)"
  have b: "shape_inv t" "hole < ?n" "nxt < ?n" "hm_slots t ! hole = None"
    using shift_inv_bounds [OF inv] by blast+
  have nn: "nx < ?n" using b(3) nx(1) by auto
  have nh: "nx \<noteq> hole" using nx(2) b(4) by auto
  have suc: "past ?n hole nx = Suc (past ?n hole nxt)"
    unfolding nx(1) by (rule past_step [OF b(2,3)]) (use nh nx(1) in simp)
  have away: "\<not> past ?n (key_home kk t (fst e)) hole < past ?n (key_home kk t (fst e)) nx"
    using stay past_within [OF home_less [OF b(1)] nn b(2) nh] by blast
  have "hm_slots t ! i \<noteq> None \<and> (\<forall>e. hm_slots t ! i = Some e \<longrightarrow>
      \<not> past ?n (key_home kk t (fst e)) hole < past ?n (key_home kk t (fst e)) i)"
    if i: "i < ?n" "past ?n hole i \<le> past ?n hole nx" "i \<noteq> hole" for i
  proof (cases "i = nx")
    case False
    then have "past ?n hole i \<le> past ?n hole nxt" using suc i(2) past_inj [OF b(2) i(1) nn] by linarith
    then show ?thesis using inv i(1,3) unfolding shift_inv_def Let_def by blast
  qed (use nx(2) away in simp)
  then show ?thesis using inv nn unfolding shift_inv_def Let_def by blast
qed

text \<open>One whose probe run meets the hole moves into it, and leaves the hole behind.\<close>

lemma shift_inv_move:
  assumes inv: "shift_inv kk t hole nxt"
    and nx: "nx < length (hm_slots t)" "hm_slots t ! nx = Some e"
    and move: "past (length (hm_slots t)) hole nx \<le> past (length (hm_slots t)) (key_home kk t (fst e)) nx"
    and t': "t' = t\<lparr>hm_slots := (hm_slots t)[nx := None, hole := Some e]\<rparr>"
  shows "shift_inv kk t' nx nx"
proof -
  let ?n = "length (hm_slots t)"
  have b: "shape_inv t" "hole < ?n" "nxt < ?n" "hm_slots t ! hole = None"
    using shift_inv_bounds [OF inv] by blast+
  have nh: "nx \<noteq> hole" using nx(2) b(4) by auto
  have len: "length (hm_slots t') = ?n" and hm: "home t' = home t"
    using t' by simp_all
  have at: "hm_slots t' ! p = (if p = hole then Some e else if p = nx then None else hm_slots t ! p)"
    if "p < ?n" for p using t' that nx(1) b(2) by (simp add: nth_list_update)
  have "hm_slots t' ! p \<noteq> None \<or> p = nx"
    if i: "i < ?n" "hm_slots t' ! i = Some f" and p: "p < ?n"
      "past ?n (key_home kk t (fst f)) p < past ?n (key_home kk t (fst f)) i" for i f p
  proof (cases "i = hole")
    case True
    then have f: "f = e" using i at [OF b(2)] by simp
    have "past ?n (key_home kk t (fst e)) hole \<le> past ?n (key_home kk t (fst e)) nx"
      by (rule past_closer [OF home_less [OF b(1)] nx(1) b(2) move])
    then have "hm_slots t ! p \<noteq> None \<or> p = hole"
      using shift_inv_reached [OF inv nx p(1)] p(2) True f by simp
    then show ?thesis using at [OF p(1)] by auto
  next
    case False
    then have "hm_slots t ! i = Some f" using i at [OF i(1)] by (auto split: if_splits)
    then show ?thesis using shift_inv_reached [OF inv i(1) _ p] at [OF p(1)] by auto
  qed
  moreover have "hm_slots t' ! nx = None" using at [OF nx(1)] nh by simp
  moreover have "i = nx" if "i < ?n" "past ?n nx i \<le> past ?n nx nx" for i
    using that past_zero [OF nx(1) that(1)] by (simp add: past_home)
  ultimately show ?thesis
    using b(1) nx(1) unfolding shift_inv_def Let_def len hm t' by (auto simp: shape_inv_update)
qed

lemma mset_swap_hole:
  assumes "i < length s" "j < length s" "i \<noteq> j" "s ! i = None" "s ! j = Some e"
  shows "mset (s[j := None, i := Some e]) = mset s"
  using mset_swap [OF assms(1,2)] assms by (simp add: list_update_swap)

text \<open>What the shift loop leaves: the slots permuted, the probes whole, an empty slot \<open>g\<close> still empty,
  and nothing changed between \<open>g\<close> and the hole.\<close>

definition shifted :: "('k, 'q) keying \<Rightarrow> nat \<Rightarrow> ('k, 'v) hash_map \<Rightarrow> nat \<Rightarrow> ('k, 'v) hash_map \<Rightarrow> bool" where
  "shifted kk g t hole t' \<longleftrightarrow> probe_inv kk t' \<and> t' = t\<lparr>hm_slots := hm_slots t'\<rparr> \<and>
    mset (hm_slots t') = mset (hm_slots t) \<and>
    (\<forall>p<length (hm_slots t). past (length (hm_slots t)) g p < past (length (hm_slots t)) g hole \<longrightarrow>
      hm_slots t' ! p = hm_slots t ! p)"

lemma shifted_move:
  assumes t1: "t1 = t\<lparr>hm_slots := (hm_slots t)[nx := None, hole := Some e]\<rparr>"
    and b: "hole < length (hm_slots t)" "nx < length (hm_slots t)" "hm_slots t ! hole = None"
      "hm_slots t ! nx = Some e"
    and further: "past (length (hm_slots t)) g hole < past (length (hm_slots t)) g nx"
    and "shifted kk g t1 nx t'"
  shows "shifted kk g t hole t'"
proof -
  have "hole \<noteq> nx" using b by auto
  then have "mset (hm_slots t1) = mset (hm_slots t)"
    unfolding t1 using mset_swap_hole [OF b(1,2) _ b(3,4)] by simp
  moreover have "hm_slots t1 ! p = hm_slots t ! p"
    if "past (length (hm_slots t)) g p < past (length (hm_slots t)) g hole" for p
    using that further unfolding t1 by (cases "p = hole"; cases "p = nx") auto
  ultimately show ?thesis using assms by (auto simp: shifted_def)
qed

lemma shift_loop_done:
  assumes "g < length (hm_slots t)" "hm_slots t ! g = None" "g \<noteq> hole" "nxt \<noteq> g"
    and "past (length (hm_slots t)) g hole \<le> past (length (hm_slots t)) g nxt"
    and "shift_inv kk t hole nxt"
  shows "\<exists>t'. shift_loop kk t hole nxt = Some t' \<and> shifted kk g t hole t'"
  using assms
proof (induction "past (length (hm_slots t)) nxt g" arbitrary: t hole nxt rule: less_induct)
  case less
  let ?n = "length (hm_slots t)"
  define nx where nx: "nx = (if nxt + 1 = ?n then 0 else nxt + 1)"
  have b: "shape_inv t" "hole < ?n" "nxt < ?n" "hm_slots t ! hole = None"
    using shift_inv_bounds [OF less.prems(6)] by blast+
  have nn: "nx < ?n" using b(3) nx by auto
  have nxt: "(nxt + 1) AND (?n - 1) = nx" unfolding nx by (rule shape_next [OF b(1,3)])
  have closer: "past ?n nx g < past ?n nxt g"
    using past_step_to [OF less.prems(1) b(3) less.prems(4)] unfolding nx by linarith
  show ?case
  proof (cases "hm_slots t ! nx")
    case None
    then have "probe_inv kk t" by (rule shift_inv_end [OF less.prems(6) nx])
    moreover have "shift_loop kk t hole nxt = Some t"
      using nn None by (subst shift_loop.simps) (simp only: nxt Let_def if_True option.case)
    ultimately show ?thesis by (simp add: shifted_def)
  next
    case (Some e)
    then have ng: "nx \<noteq> g" using less.prems(2) by auto
    then have on: "past ?n g nx = Suc (past ?n g nxt)"
      unfolding nx by (intro past_step [OF less.prems(1) b(3)])
    have test: "wrapping_sub nx x AND (?n - 1) = past ?n x nx" if "x < ?n" for x
      by (rule shape_past [OF b(1) that nn])
    have loop: "shift_loop kk t hole nxt =
        (if past ?n hole nx \<le> past ?n (key_home kk t (fst e)) nx
         then shift_loop kk (t\<lparr>hm_slots := (hm_slots t)[nx := None, hole := Some e]\<rparr>) nx nx
         else shift_loop kk t hole nx)"
      using nn Some test [OF b(2)] test [OF home_less [OF b(1)]]
      by (subst shift_loop.simps) (simp only: nxt Let_def if_True option.case)
    show ?thesis
    proof (cases "past ?n hole nx \<le> past ?n (key_home kk t (fst e)) nx")
      case True
      let ?t = "t\<lparr>hm_slots := (hm_slots t)[nx := None, hole := Some e]\<rparr>"
      have inv: "shift_inv kk ?t nx nx" by (rule shift_inv_move [OF less.prems(6) nn Some True refl])
      have "\<exists>t'. shift_loop kk ?t nx nx = Some t' \<and> shifted kk g ?t nx t'"
        by (rule less.hyps [OF _ _ _ _ _ _ inv])
          (use closer less.prems ng b in \<open>auto simp: nth_list_update\<close>)
      then obtain t' where t': "shift_loop kk ?t nx nx = Some t'" "shifted kk g ?t nx t'" by blast
      have "shifted kk g t hole t'"
        by (rule shifted_move [OF refl b(2) nn b(4) Some _ t'(2)]) (use on less.prems(5) in linarith)
      then show ?thesis using loop True t'(1) by simp
    next
      case False
      have inv: "shift_inv kk t hole nx" by (rule shift_inv_stay [OF less.prems(6) nx Some False])
      have "\<exists>t'. shift_loop kk t hole nx = Some t' \<and> shifted kk g t hole t'"
        by (rule less.hyps [OF closer less.prems(1-3) ng _ inv]) (use on less.prems(5) in linarith)
      then show ?thesis using loop False by simp
    qed
  qed
qed

text \<open>Emptying an occupied slot of a map whose probes are whole starts the loop.\<close>

lemma shift_inv_start:
  assumes wf: "map_wf kk t" and i: "i < length (hm_slots t)"
    and t1: "hm_slots t1 = (hm_slots t)[i := None]" "hm_shift t1 = hm_shift t"
  shows "shift_inv kk t1 i i"
proof -
  have h: "home t1 = home t" using t1(2) by (auto simp: home_def fun_eq_iff)
  have shape: "shape_inv t1" using wf t1 by (simp add: map_wf_def shape_inv_def)
  have "hm_slots t1 ! p \<noteq> None \<or> p = i"
    if "j < length (hm_slots t)" "hm_slots t1 ! j = Some e" "p < length (hm_slots t)"
      "past (length (hm_slots t)) (key_home kk t (fst e)) p < past (length (hm_slots t)) (key_home kk t (fst e)) j"
    for j e p
  proof -
    have "hm_slots t ! j = Some e" using that(1,2) i t1(1) by (cases "j = i") auto
    then have "hm_slots t ! p \<noteq> None"
      using wf that unfolding map_wf_def probe_inv_def Let_def by blast
    then show ?thesis using t1(1) by (cases "p = i") auto
  qed
  moreover have "j = i" if "j < length (hm_slots t)" "past (length (hm_slots t)) i j \<le> past (length (hm_slots t)) i i" for j
    using that past_zero [OF i that(1)] by (simp add: past_home)
  ultimately show ?thesis
    using shape i unfolding shift_inv_def Let_def h t1(1) length_list_update by auto
qed

lemma other_empty_slot:
  assumes wf: "map_wf kk t" and i: "i < length (hm_slots t)" "hm_slots t ! i = Some e"
  obtains g where "g < length (hm_slots t)" "hm_slots t ! g = None" "g \<noteq> i"
  using map_wf_empty_slot [OF wf] i by force

lemma remove_at_done:
  assumes wf: "map_wf kk t" and i: "i < length (hm_slots t)" "hm_slots t ! i = Some e"
    and g: "g < length (hm_slots t)" "hm_slots t ! g = None"
    and t1: "t1 = t\<lparr>hm_slots := (hm_slots t)[i := None], hm_len := hm_len t - 1\<rparr>"
  obtains t' where "hash_remove_at kk t i = Some (Some e, t')" "shifted kk g t1 i t'"
proof -
  have gi: "g \<noteq> i" using i g by auto
  have inv: "shift_inv kk t1 i i" by (rule shift_inv_start [OF wf i(1)]) (simp_all add: t1)
  have g1: "g < length (hm_slots t1)" "hm_slots t1 ! g = None" using g gi by (simp_all add: t1)
  obtain t' where "shift_loop kk t1 i i = Some t'" "shifted kk g t1 i t'"
    using shift_loop_done [OF g1 gi gi [symmetric] order_refl inv] by blast
  then show thesis using that i by (simp add: hash_remove_at_def Let_def t1)
qed

text \<open>The map a removal leaves is well formed, and is the old one without the entry.\<close>

lemma shifted_wf:
  assumes wf: "map_wf kk t" and i: "i < length (hm_slots t)" "hm_slots t ! i = Some e"
    and t1: "t1 = t\<lparr>hm_slots := (hm_slots t)[i := None], hm_len := hm_len t - 1\<rparr>"
    and sh: "shifted kk g t1 i t'"
  shows "map_wf kk t'" "hm_len t' = hm_len t - 1" "hm_capacity t' = hm_capacity t"
    "mset (e # slot_entries (hm_slots t')) = mset (slot_entries (hm_slots t))"
    "held_map kk t' = (held_map kk t)(borrow kk (fst e) := None)"
proof -
  have rest: "hm_len t' = hm_len t1" "hm_capacity t' = hm_capacity t1" "hm_shift t' = hm_shift t1"
    using sh unfolding shifted_def by (metis hash_map.select_convs hash_map.surjective hash_map.update_convs(1))+
  have m1: "mset (hm_slots t') = mset (hm_slots t1)" using sh by (simp add: shifted_def)
  show m: "mset (e # slot_entries (hm_slots t')) = mset (slot_entries (hm_slots t))"
    using mset_slot_entries [OF m1] slot_entries_take [OF i] by (simp add: t1)
  have len: "length (hm_slots t') = length (hm_slots t)"
    using arg_cong [OF m1, of size] by (simp add: t1)
  have dt: "distinct (slot_keys kk (hm_slots t))" using wf by (simp add: map_wf_def)
  have dd: "distinct (map (\<lambda>e. borrow kk (fst e)) (e # slot_entries (hm_slots t')))"
    by (rule iffD1 [OF slot_keys_mset [OF m [symmetric]] dt])
  then have d: "distinct (slot_keys kk (hm_slots t'))" by simp
  have size: "Suc (length (slot_entries (hm_slots t'))) = length (slot_entries (hm_slots t))"
    using arg_cong [OF m, of size] by simp
  show "hm_len t' = hm_len t - 1" "hm_capacity t' = hm_capacity t" using rest by (simp_all add: t1)
  show "map_wf kk t'"
    using wf sh d size len rest unfolding map_wf_def shape_inv_def shifted_def by (auto simp: t1)
  have s: "Some f \<in> set (hm_slots t) \<longleftrightarrow> f = e \<or> Some f \<in> set (hm_slots t')" for f
    using arg_cong [OF m, of "\<lambda>m. f \<in># m"] by simp
  have other: "borrow kk (fst f) \<noteq> borrow kk (fst e)" if "Some f \<in> set (hm_slots t')" for f
  proof -
    have "borrow kk (fst f) \<in> set (slot_keys kk (hm_slots t'))" using that by simp
    then show ?thesis using dd by (metis distinct.simps(2) list.simps(9))
  qed
  show "held_map kk t' = (held_map kk t)(borrow kk (fst e) := None)"
  proof
    fix q
    have "held_map kk t' q = Some f \<longleftrightarrow> ((held_map kk t)(borrow kk (fst e) := None)) q = Some f" for f
      using held_map_Some [OF d, of q f] held_map_Some [OF dt, of q f] s other [of f] by auto
    then show "held_map kk t' q = ((held_map kk t)(borrow kk (fst e) := None)) q" by (rule option_eqI)
  qed
qed

lemma remove_entry_present:
  assumes wf: "map_wf kk t" and held: "held_map kk t q = Some e"
  obtains t' where "remove_entry kk t q = Some (Some e, t')" "map_wf kk t'" "hm_capacity t' = hm_capacity t"
    "hm_len t' = hm_len t - 1" "held_map kk t' = (held_map kk t)(q := None)"
proof -
  obtain i where i: "i < length (hm_slots t)" "hm_slots t ! i = Some e" "find_entry kk t q = Some (Inr i)"
    and q: "borrow kk (fst e) = q" by (rule held_at [OF wf held])
  obtain g where g: "g < length (hm_slots t)" "hm_slots t ! g = None"
    by (rule other_empty_slot [OF wf i(1,2)])
  obtain t' where t': "hash_remove_at kk t i = Some (Some e, t')"
      "shifted kk g (t\<lparr>hm_slots := (hm_slots t)[i := None], hm_len := hm_len t - 1\<rparr>) i t'"
    by (rule remove_at_done [OF wf i(1,2) g refl])
  show thesis
    using that [of t'] shifted_wf [OF wf i(1,2) refl t'(2)] t'(1) i(3) q by (simp add: remove_entry_def)
qed

lemma remove_entry_absent:
  assumes wf: "map_wf kk t" and absent: "held_map kk t q = None"
  shows "remove_entry kk t q = Some (None, t)"
proof -
  obtain i where "find_entry kk t q = Some (Inl i)" by (rule find_entry_absent [OF wf absent])
  then show ?thesis by (simp add: remove_entry_def)
qed

section \<open>New, cleared and written-through maps\<close>

lemma from_parts_wf:
  assumes "b < 64" shows "map_wf kk (from_parts (replicate (2 ^ b) None))"
  using assms by (auto simp: map_wf_def from_parts_def shape_inv_def probe_inv_def trailing_zeros_power Let_def)

lemma held_map_empty: "slot_entries (hm_slots t) = [] \<Longrightarrow> held_map kk t = Map.empty"
  by (simp add: held_map_def)

lemma map_clear_wf:
  assumes "map_wf kk t"
  shows "map_wf kk (map_clear t)" "held_map kk (map_clear t) = Map.empty"
  using assms by (auto simp: map_wf_def map_clear_def shape_inv_def probe_inv_def held_map_def Let_def)

lemma map_get_mut_present:
  assumes wf: "map_wf kk t" and held: "held_map kk t q = Some (k, v)"
  obtains t' where "map_get_mut kk t q f = Some (Some v, t')" "map_wf kk t'" "hm_capacity t' = hm_capacity t"
    "held_map kk t' = (held_map kk t)(q \<mapsto> (k, f v))"
proof -
  obtain i where i: "i < length (hm_slots t)" "hm_slots t ! i = Some (k, v)" "find_entry kk t q = Some (Inr i)"
    and q: "borrow kk k = q" using held_at [OF wf held] by (metis fst_conv)
  show thesis
  proof (rule that [of "set_value t i f"])
    show "map_get_mut kk t q f = Some (Some v, set_value t i f)" using i by (simp add: map_get_mut_def)
    show "map_wf kk (set_value t i f)" by (rule map_wf_set_value(1) [OF wf i(1,2)])
    show "held_map kk (set_value t i f) = (held_map kk t)(q \<mapsto> (k, f v))"
      using map_wf_set_value(2) [OF wf i(1,2)] q by simp
  qed (simp add: set_value_def)
qed

lemma dom_held_map: "dom (held_map kk t) = set (slot_keys kk (hm_slots t))"
  by (simp add: held_map_def dom_map_of_conv_image_fst image_image)

lemma card_held_map:
  assumes "map_wf kk t" shows "card (dom (held_map kk t)) = hm_len t"
proof -
  have "distinct (slot_keys kk (hm_slots t))" "hm_len t = length (slot_entries (hm_slots t))"
    using assms by (simp_all add: map_wf_def)
  then show ?thesis unfolding dom_held_map by (metis distinct_card length_map)
qed

end
