(* ===== verification/Hash_Map_Size.thy ===== *)
theory Hash_Map_Size
  imports Hash_Map_Laws
begin

text \<open>
  The size of a heap map, \<^verbatim>\<open>slots_for\<close> of \<^verbatim>\<open>crates/fixed-hash-table/src/map.rs\<close>: the least power of
  two that holds the capacity asked for, and a refusal exactly when a 64-bit \<^verbatim>\<open>usize\<close> holds none.
\<close>

section \<open>How many slots a heap map takes\<close>

lemma double_until_least:
  assumes "b < 64"
  shows "double_until c (2 ^ b) = Some n \<longleftrightarrow>
    (\<exists>b'. b \<le> b' \<and> b' < 64 \<and> n = 2 ^ b' \<and> c \<le> capacity_of n \<and> (\<forall>j. b \<le> j \<longrightarrow> j < b' \<longrightarrow> capacity_of (2 ^ j) < c))"
  using assms
proof (induction "64 - b" arbitrary: b)
  case (Suc x)
  show ?case
  proof (cases "capacity_of (2 ^ b) < c")
    case False
    then have "double_until c (2 ^ b) = Some (2 ^ b)" by (subst double_until.simps) simp
    then show ?thesis using False Suc.prems by (auto simp: le_less not_less)
  next
    case True
    have mul: "checked_mul (2 ^ b) 2 = (if Suc b < 64 then Some (2 ^ Suc b) else None)"
    proof (cases "Suc b < 64")
      case True
      then have "(2::nat) ^ Suc b < 2 ^ 64" by (rule power_strict_increasing) simp
      then show ?thesis using True by (simp add: checked_mul_def checked_def usize_bound_def)
    next
      case False
      then have "b = 63" using Suc.prems by simp
      then show ?thesis by (simp add: checked_mul_def checked_def usize_bound_def)
    qed
    have step: "double_until c (2 ^ b) = (if Suc b < 64 then double_until c (2 ^ Suc b) else None)"
      using True mul by (subst double_until.simps) simp
    show ?thesis
    proof (cases "Suc b < 64")
      case True': True
      have IH: "double_until c (2 ^ Suc b) = Some n \<longleftrightarrow>
        (\<exists>b'. Suc b \<le> b' \<and> b' < 64 \<and> n = 2 ^ b' \<and> c \<le> capacity_of n \<and>
          (\<forall>j. Suc b \<le> j \<longrightarrow> j < b' \<longrightarrow> capacity_of (2 ^ j) < c))"
        by (rule Suc.hyps(1)) (use Suc.hyps(2) True' in simp_all)
      have key: "double_until c (2 ^ b) = double_until c (2 ^ Suc b)"
        unfolding step using True' by (simp only: if_True)
      show ?thesis
        unfolding key IH
      proof (rule iff_exI)
        fix b'
        have "Suc b \<le> b'" if "b \<le> b'" "n = 2 ^ b'" "c \<le> capacity_of n"
          using that True by (cases "b = b'") auto
        moreover have "(\<forall>j. b \<le> j \<longrightarrow> j < b' \<longrightarrow> capacity_of (2 ^ j) < c) \<longleftrightarrow>
            (\<forall>j. Suc b \<le> j \<longrightarrow> j < b' \<longrightarrow> capacity_of (2 ^ j) < c)"
          using True by (metis Suc_leD le_neq_implies_less Suc_leI)
        ultimately show "(Suc b \<le> b' \<and> b' < 64 \<and> n = 2 ^ b' \<and> c \<le> capacity_of n \<and>
            (\<forall>j. Suc b \<le> j \<longrightarrow> j < b' \<longrightarrow> capacity_of (2 ^ j) < c)) =
          (b \<le> b' \<and> b' < 64 \<and> n = 2 ^ b' \<and> c \<le> capacity_of n \<and>
            (\<forall>j. b \<le> j \<longrightarrow> j < b' \<longrightarrow> capacity_of (2 ^ j) < c))" using Suc_leD [of b b'] by blast
      qed
    next
      case False
      then have none: "double_until c (2 ^ b) = None" unfolding step by (simp only: if_False)
      have "\<not> c \<le> capacity_of n" if "b \<le> b'" "b' < 64" "n = 2 ^ b'" for b'
      proof -
        have "b' = b" using that False by linarith
        then show ?thesis using True that by simp
      qed
      then show ?thesis unfolding none by blast
    qed
  qed
qed simp

lemma next_power_least:
  "checked_next_power_of_two c = Some n \<longleftrightarrow> (\<exists>b<64. n = 2 ^ b \<and> c \<le> 2 ^ b \<and> (\<forall>j<b. 2 ^ j < c))"
proof -
  have "List.find (\<lambda>b. c \<le> 2 ^ b) [0..<m] = Some b \<longleftrightarrow> b < m \<and> c \<le> 2 ^ b \<and> (\<forall>j<b. 2 ^ j < c)" for b m
    unfolding find_Some_iff by (auto simp: not_le intro!: exI [of _ b])
  then show ?thesis unfolding checked_next_power_of_two_def map_option_eq_Some by blast
qed

lemma slots_for_Some:
  "slots_for c = Some n \<longleftrightarrow>
   (\<exists>b<64. n = 2 ^ b \<and> c \<le> capacity_of n \<and> (\<forall>j<b. capacity_of (2 ^ j) < c))"
proof -
  have le: "capacity_of m \<le> m" for m by (simp add: capacity_of_def)
  show ?thesis
  proof
    assume "slots_for c = Some n"
    then obtain b where b: "b < 64" "c \<le> 2 ^ b" "\<forall>j<b. 2 ^ j < c" and d: "double_until c (2 ^ b) = Some n"
      by (auto simp: slots_for_def bind_eq_Some_conv next_power_least)
    obtain b' where b': "b \<le> b'" "b' < 64" "n = 2 ^ b'" "c \<le> capacity_of n"
        "\<forall>j. b \<le> j \<longrightarrow> j < b' \<longrightarrow> capacity_of (2 ^ j) < c"
      using d unfolding double_until_least [OF b(1)] by blast
    have "capacity_of (2 ^ j) < c" if "j < b'" for j
      using b'(5) b(3) le [of "2 ^ j"] that by (cases "b \<le> j") (auto intro: le_less_trans)
    then show "\<exists>b<64. n = 2 ^ b \<and> c \<le> capacity_of n \<and> (\<forall>j<b. capacity_of (2 ^ j) < c)" using b' by blast
  next
    assume "\<exists>b<64. n = 2 ^ b \<and> c \<le> capacity_of n \<and> (\<forall>j<b. capacity_of (2 ^ j) < c)"
    then obtain b where b: "b < 64" "n = 2 ^ b" "c \<le> capacity_of n" "\<forall>j<b. capacity_of (2 ^ j) < c" by blast
    have "c \<le> 2 ^ b" using b(2,3) le [of n] by simp
    define a where "a = (LEAST a. c \<le> 2 ^ a)"
    have a: "c \<le> 2 ^ a" "\<forall>j<a. \<not> c \<le> 2 ^ j"
      unfolding a_def using LeastI [of "\<lambda>a. c \<le> 2 ^ a", OF \<open>c \<le> 2 ^ b\<close>] not_less_Least by blast+
    have ab: "a \<le> b" unfolding a_def by (rule Least_le) (rule \<open>c \<le> 2 ^ b\<close>)
    have "checked_next_power_of_two c = Some (2 ^ a)"
      unfolding next_power_least
    proof (intro exI [of _ a] conjI)
      show "a < 64" using ab b(1) by linarith
      show "\<forall>j<a. 2 ^ j < c" using a(2) unfolding not_le .
    qed (use a(1) in simp_all)
    moreover have "double_until c (2 ^ a) = Some n"
    proof -
      have "a < 64" using ab b(1) by linarith
      then show ?thesis unfolding double_until_least [OF \<open>a < 64\<close>] using ab b by blast
    qed
    ultimately show "slots_for c = Some n" by (simp add: slots_for_def)
  qed
qed

lemma slots_for_None: "slots_for c = None \<longleftrightarrow> (\<forall>b<64. capacity_of (2 ^ b) < c)"
proof
  assume none: "slots_for c = None"
  show "\<forall>b<64. capacity_of (2 ^ b) < c"
  proof (rule ccontr)
    assume "\<not> ?thesis"
    then obtain b where b: "b < 64" "c \<le> capacity_of (2 ^ b)" by (auto simp: not_less)
    define a where "a = (LEAST a. c \<le> capacity_of (2 ^ a))"
    have "c \<le> capacity_of (2 ^ a)" "\<forall>j<a. \<not> c \<le> capacity_of (2 ^ j)" "a \<le> b"
      unfolding a_def using LeastI [of "\<lambda>a. c \<le> capacity_of (2 ^ a)", OF b(2)] not_less_Least
        Least_le [of "\<lambda>a. c \<le> capacity_of (2 ^ a)", OF b(2)] by blast+
    then have "slots_for c = Some (2 ^ a)" unfolding slots_for_Some using b(1) by (auto simp: not_le)
    then show False using none by simp
  qed
next
  assume "\<forall>b<64. capacity_of (2 ^ b) < c"
  then have "slots_for c \<noteq> Some n" for n unfolding slots_for_Some by (auto simp: not_le)
  then show "slots_for c = None" by (cases "slots_for c") auto
qed



end
