(* ===== verification/Fixed_Hasher.thy ===== *)
theory Fixed_Hasher
  imports Fixed_Hash_Map
begin

text \<open>
  The default hasher of the hash tables, \<^verbatim>\<open>crates/fixed-hash-table/src/hasher.rs\<close>: each word is
  exclusive-ored into the rotated state and multiplied by an odd constant, in 64-bit arithmetic that
  wraps.  Both are bijections, so keys of one word never share a hash.
\<close>

text \<open>\<^verbatim>\<open>FixedHasher\<close> is its state.\<close>

type_synonym fixed_hasher = "64 word"

definition multiplier :: "64 word" where
  "multiplier = 0x9E3779B97F4A7C15"

definition build_hasher :: fixed_hasher where
  "build_hasher = 0"

definition hasher_add :: "fixed_hasher \<Rightarrow> 64 word \<Rightarrow> fixed_hasher" where
  "hasher_add s w = (word_rotl 5 s XOR w) * multiplier"

text \<open>\<^verbatim>\<open>u64::from_le_bytes\<close>.\<close>

definition from_le_bytes :: "8 word list \<Rightarrow> 64 word" where
  "from_le_bytes bytes = foldr (\<lambda>b w. push_bit 8 w OR ucast b) bytes 0"

function hasher_write :: "fixed_hasher \<Rightarrow> 8 word list \<Rightarrow> fixed_hasher" where
  "hasher_write s bytes =
    (if length bytes \<ge> 8 then hasher_write (hasher_add s (from_le_bytes (take 8 bytes))) (drop 8 bytes)
     else if bytes = [] then s
     else hasher_add s (from_le_bytes (bytes @ replicate (8 - length bytes) 0)))"
  by pat_completeness auto
termination by (relation "measure (\<lambda>(_, bytes). length bytes)") auto

declare hasher_write.simps [simp del]

definition write_u8 :: "fixed_hasher \<Rightarrow> 8 word \<Rightarrow> fixed_hasher" where
  "write_u8 s v = hasher_add s (ucast v)"

definition write_u16 :: "fixed_hasher \<Rightarrow> 16 word \<Rightarrow> fixed_hasher" where
  "write_u16 s v = hasher_add s (ucast v)"

definition write_u32 :: "fixed_hasher \<Rightarrow> 32 word \<Rightarrow> fixed_hasher" where
  "write_u32 s v = hasher_add s (ucast v)"

definition write_u64 :: "fixed_hasher \<Rightarrow> 64 word \<Rightarrow> fixed_hasher" where
  "write_u64 s v = hasher_add s v"

text \<open>A \<^verbatim>\<open>usize\<close> is 64 bits.\<close>

definition write_usize :: "fixed_hasher \<Rightarrow> 64 word \<Rightarrow> fixed_hasher" where
  "write_usize s v = hasher_add s v"

definition hasher_finish :: "fixed_hasher \<Rightarrow> 64 word" where
  "hasher_finish s = s"

section \<open>No two words share a hash\<close>

lemma multiplier_inverse: "multiplier * 17428512612931826493 = 1"
  by (simp add: multiplier_def)

lemma times_multiplier: "a * multiplier = b * multiplier \<longleftrightarrow> a = b"
proof
  assume "a * multiplier = b * multiplier"
  then have "a * (multiplier * 17428512612931826493) = b * (multiplier * 17428512612931826493)"
    by (simp only: mult.assoc [symmetric])
  then show "a = b" by (simp only: multiplier_inverse mult_1_right)
qed simp

lemma xor_cancel: "(a::64 word) XOR b = a XOR c \<longleftrightarrow> b = c"
  by (metis bit.xor_left_self)

lemma ucast_cancel:
  fixes a b :: "'a::len word"
  assumes "LENGTH('a) \<le> 64" shows "ucast a = (ucast b :: 64 word) \<longleftrightarrow> a = b"
proof
  assume eq: "ucast a = (ucast b :: 64 word)"
  show "a = b"
  proof (rule bit_word_eqI)
    fix n assume "n < LENGTH('a)"
    then show "bit a n = bit b n" using arg_cong [OF eq, of "\<lambda>w. bit w n"] assms by (simp add: bit_simps)
  qed
qed simp

text \<open>
  C27. Hashing one word is a bijection of 64-bit words, from any state: distinct words never share a
  hash, and every hash is some word's; so for keys of 8, 16, 32 or 64 bits the hash tells any two
  apart.
\<close>

theorem hash_word_bijective:
  "bij (\<lambda>w. hasher_finish (write_u64 s w)) \<and> bij (\<lambda>w. hasher_finish (write_usize s w)) \<and>
   inj (\<lambda>v. hasher_finish (write_u32 s v)) \<and>
   inj (\<lambda>v. hasher_finish (write_u16 s v)) \<and> inj (\<lambda>v. hasher_finish (write_u8 s v))"
proof -
  have add: "hasher_add s a = hasher_add s b \<longleftrightarrow> a = b" for a b
    by (simp only: hasher_add_def times_multiplier xor_cancel)
  then have "inj (\<lambda>w. hasher_finish (write_u64 s w))"
    by (simp add: inj_def hasher_finish_def write_u64_def)
  moreover have "surj (\<lambda>w. hasher_finish (write_u64 s w))"
    using calculation by (rule finite_UNIV_inj_surj [OF finite])
  ultimately show ?thesis
    unfolding bij_def inj_def hasher_finish_def write_u64_def write_usize_def write_u32_def write_u16_def write_u8_def
    by (auto simp: add ucast_cancel)
qed

end
