(* ===== verification/Hash_Map_Runs.thy ===== *)
theory Hash_Map_Runs
  imports Hash_Map_Laws
begin

text \<open>
  The hash map keeps the contract of a bounded table: the interpretation of the interface on the
  map's operations, and the properties of a lookup, an insert and a removal on every branch.
\<close>

section \<open>The bounded-table contract\<close>

text \<open>Keys looked up as themselves, by a hash of the caller's.\<close>

definition plain :: "('k \<Rightarrow> 64 word) \<Rightarrow> ('k, 'k) keying" where
  "plain hash = \<lparr>borrow = (\<lambda>k. k), hash_one = hash\<rparr>"

definition hash_look :: "('k \<Rightarrow> 64 word) \<Rightarrow> ('k, 'v) hash_map \<Rightarrow> 'k \<Rightarrow> 'v option" where
  "hash_look hash t k = Option.bind (map_get (plain hash) t k) id"

definition hash_ins :: "('k \<Rightarrow> 64 word) \<Rightarrow> ('k, 'v) hash_map \<Rightarrow> 'k \<Rightarrow> 'v \<Rightarrow> ('k, 'v) hash_map option" where
  "hash_ins hash t k v =
     (case map_insert (plain hash) t k v of Some (Inr _, u) \<Rightarrow> Some u | _ \<Rightarrow> None)"

definition hash_del :: "('k \<Rightarrow> 64 word) \<Rightarrow> ('k, 'v) hash_map \<Rightarrow> 'k \<Rightarrow> ('k, 'v) hash_map" where
  "hash_del hash t k = (case map_remove (plain hash) t k of Some (_, u) \<Rightarrow> u | None \<Rightarrow> t)"

lemma plain_simps [simp]: "borrow (plain hash) k = k" "hash_one (plain hash) = hash"
  by (simp_all add: plain_def)

lemma held_key: "held_map (plain hash) t k = Some e \<Longrightarrow> fst e = k"
  unfolding held_map_def by (drule map_of_SomeD) auto

lemma hash_look_held: "map_wf (plain hash) t \<Longrightarrow> hash_look hash t k = map_option snd (held_map (plain hash) t k)"
  by (simp add: hash_look_def map_get_def get_key_value_held)

lemma hash_look_upd:
  "map_wf (plain hash) t \<Longrightarrow> map_wf (plain hash) u \<Longrightarrow> held_map (plain hash) u = (held_map (plain hash) t)(k := e) \<Longrightarrow>
   hash_look hash u = (hash_look hash t)(k := map_option snd e)"
  by (auto simp: hash_look_held fun_eq_iff)

lemma dom_hash_look: "map_wf (plain hash) t \<Longrightarrow> dom (hash_look hash t) = dom (held_map (plain hash) t)"
  by (auto simp: hash_look_held)

interpretation hash_is: bounded_table "map_wf (plain hash)" "hash_look hash" "hash_ins hash" "hash_del hash" hm_capacity
  for hash :: "'k \<Rightarrow> 64 word"
proof
  fix t u :: "('k, 'v) hash_map" and k v
  assume t: "map_wf (plain hash) t"
  have absent: "hash_look hash t k = None \<longleftrightarrow> held_map (plain hash) t (borrow (plain hash) k) = None"
    by (simp add: hash_look_held [OF t])
  have card: "card (dom (hash_look hash t)) = hm_len t"
    unfolding dom_hash_look [OF t] by (rule card_held_map [OF t])
  show "map_wf (plain hash) u \<and> hm_capacity u = hm_capacity t \<and> hash_look hash u = (hash_look hash t)(k \<mapsto> v)"
    if "hash_ins hash t k v = Some u"
  proof (cases "held_map (plain hash) t (borrow (plain hash) k)")
    case None
    have room: "hm_len t \<noteq> hm_capacity t"
      using that map_insert_full [OF t None, of v] by (auto simp: hash_ins_def)
    obtain t' where t': "map_insert (plain hash) t k v = Some (Inr None, t')" "map_wf (plain hash) t'"
        "hm_capacity t' = hm_capacity t" "held_map (plain hash) t' = (held_map (plain hash) t)(borrow (plain hash) k \<mapsto> (k, v))"
      by (rule map_insert_new [OF t None room])
    have "u = t'" using that t'(1) by (simp add: hash_ins_def)
    then show ?thesis using t' hash_look_upd [OF t t'(2,4)] by simp
  next
    case (Some e)
    obtain t' where t': "map_insert (plain hash) t k v = Some (Inr (Some (snd e)), t')" "map_wf (plain hash) t'"
        "hm_capacity t' = hm_capacity t" "held_map (plain hash) t' = (held_map (plain hash) t)(borrow (plain hash) k \<mapsto> (fst e, v))"
      by (rule map_insert_present [OF t, of k "fst e" "snd e"]) (use Some in simp_all)
    have "u = t'" using that t'(1) by (simp add: hash_ins_def)
    then show ?thesis using t' hash_look_upd [OF t t'(2,4)] by simp
  qed
  show "hash_ins hash t k v = None \<longleftrightarrow> hash_look hash t k = None \<and> card (dom (hash_look hash t)) = hm_capacity t"
    unfolding absent card
  proof (cases "held_map (plain hash) t (borrow (plain hash) k)")
    case None
    show "hash_ins hash t k v = None \<longleftrightarrow>
        held_map (plain hash) t (borrow (plain hash) k) = None \<and> hm_len t = hm_capacity t"
    proof (cases "hm_len t = hm_capacity t")
      case True
      then show ?thesis using None map_insert_full [OF t None True, of v] by (simp add: hash_ins_def)
    next
      case False
      obtain t' where "map_insert (plain hash) t k v = Some (Inr None, t')"
        by (rule map_insert_new [OF t None False])
      then show ?thesis using False by (simp add: hash_ins_def)
    qed
  next
    case (Some e)
    obtain t' where "map_insert (plain hash) t k v = Some (Inr (Some (snd e)), t')"
      by (rule map_insert_present [OF t, of k "fst e" "snd e"]) (use Some in simp_all)
    then show "hash_ins hash t k v = None \<longleftrightarrow>
        held_map (plain hash) t (borrow (plain hash) k) = None \<and> hm_len t = hm_capacity t"
      using Some by (simp add: hash_ins_def)
  qed
  show "map_wf (plain hash) (hash_del hash t k) \<and> hm_capacity (hash_del hash t k) = hm_capacity t \<and>
      hash_look hash (hash_del hash t k) = (hash_look hash t)(k := None)"
  proof (cases "held_map (plain hash) t k")
    case None
    then have "hash_del hash t k = t"
      using remove_entry_absent [OF t None] by (simp add: hash_del_def map_remove_def)
    then show ?thesis using t absent None by auto
  next
    case (Some e)
    obtain t' where t': "remove_entry (plain hash) t k = Some (Some e, t')" "map_wf (plain hash) t'"
        "hm_capacity t' = hm_capacity t" "held_map (plain hash) t' = (held_map (plain hash) t)(k := None)"
      by (rule remove_entry_present [OF t Some])
    then have "hash_del hash t k = t'" by (simp add: hash_del_def map_remove_def)
    then show ?thesis using t' hash_look_upd [OF t t'(2,4)] by simp
  qed
  show "finite (dom (hash_look hash t)) \<and> card (dom (hash_look hash t)) \<le> hm_capacity t"
    using t unfolding card by (simp add: dom_hash_look [OF t] dom_held_map) (simp add: map_wf_def)
qed

section \<open>Samples\<close>

text \<open>Keys that borrow as their tens and probe from that modulo eight: in eight slots 90 is displaced
  by 10, and 21 by 90.\<close>

definition sample_keying :: "(nat, nat) keying" where
  "sample_keying = \<lparr>borrow = (\<lambda>k. k div 10), hash_one = (\<lambda>q. push_bit 61 (word_of_nat q))\<rparr>"

definition sample_map :: "(nat, nat) hash_map" where
  "sample_map = \<lparr>hm_slots = [None, Some (10, 5), Some (90, 6), Some (21, 7), None, None, None, None],
     hm_len = 3, hm_capacity = 7, hm_shift = 61\<rparr>"

lemma map_insert_wf:
  assumes "map_wf kk t" "map_insert kk t key v = Some (r, t')" shows "map_wf kk t'"
proof (cases "held_map kk t (borrow kk key)")
  case None
  show ?thesis
  proof (cases "hm_len t = hm_capacity t")
    case True
    then show ?thesis using map_insert_full [OF assms(1) None True, of v] assms by simp
  next
    case False
    obtain u where "map_insert kk t key v = Some (Inr None, u)" "map_wf kk u"
      by (rule map_insert_new [OF assms(1) None False])
    then show ?thesis using assms(2) by simp
  qed
next
  case (Some e)
  obtain u where "map_insert kk t key v = Some (Inr (Some (snd e)), u)" "map_wf kk u"
    by (rule map_insert_present [OF assms(1), of key "fst e" "snd e"]) (use Some in simp_all)
  then show ?thesis using assms(2) by simp
qed

lemma sample_home: "hm_shift t = 61 \<Longrightarrow> home t (hash_one sample_keying q) = q mod 8"
proof -
  let ?w = "word_of_nat q :: 64 word"
  have "drop_bit 61 (push_bit 61 ?w) = take_bit 3 ?w"
    by (rule bit_word_eqI) (auto simp: bit_simps)
  then have "unat (drop_bit 61 (push_bit 61 ?w)) = take_bit 3 (unat ?w)"
    by (simp only: unsigned_take_bit_eq)
  also have "unat ?w = q mod 2 ^ 64" by (simp add: unat_of_nat)
  also have "take_bit 3 (q mod 2 ^ 64) = q mod 2 ^ 64 mod 2 ^ 3" by (rule take_bit_eq_mod)
  also have "\<dots> = q mod 8" by (simp add: mod_mod_cancel)
  finally show "hm_shift t = 61 \<Longrightarrow> home t (hash_one sample_keying q) = q mod 8"
    by (simp add: home_def sample_keying_def)
qed

lemma sample_borrow: "borrow sample_keying k = k div 10"
  by (simp add: sample_keying_def)

lemma and_seven: "(x::nat) AND Suc (Suc (Suc (Suc (Suc (Suc (Suc 0)))))) = x mod 8"
proof -
  have "Suc (Suc (Suc (Suc (Suc (Suc (Suc 0)))))) = 2 ^ 3 - 1" by simp
  then show ?thesis using and_mask_mod [of x 3] by (simp only:) simp
qed

lemma eight_slots: "from_parts (replicate 8 None) =
  \<lparr>hm_slots = [None, None, None, None, None, None, None, None], hm_len = 0, hm_capacity = 7, hm_shift = 61\<rparr>"
  by (simp add: from_parts_def capacity_of_def trailing_zeros.simps) (simp add: numeral_eq_Suc)

lemmas sample_eval = find_entry_def find_loop.simps sample_home sample_borrow and_seven

lemma sample_map_made:
  "map_insert sample_keying (from_parts (replicate 8 None)) 10 5 =
     Some (Inr None, \<lparr>hm_slots = [None, Some (10, 5), None, None, None, None, None, None],
       hm_len = 1, hm_capacity = 7, hm_shift = 61\<rparr>)"
  "map_insert sample_keying \<lparr>hm_slots = [None, Some (10, 5), None, None, None, None, None, None],
       hm_len = 1, hm_capacity = 7, hm_shift = 61\<rparr> 90 6 =
     Some (Inr None, \<lparr>hm_slots = [None, Some (10, 5), Some (90, 6), None, None, None, None, None],
       hm_len = 2, hm_capacity = 7, hm_shift = 61\<rparr>)"
  "map_insert sample_keying \<lparr>hm_slots = [None, Some (10, 5), Some (90, 6), None, None, None, None, None],
       hm_len = 2, hm_capacity = 7, hm_shift = 61\<rparr> 21 7 = Some (Inr None, sample_map)"
  subgoal by (simp add: map_insert_def eight_slots sample_eval place_entry_def)
  subgoal by (simp add: map_insert_def sample_eval place_entry_def)
  subgoal by (simp add: map_insert_def sample_eval place_entry_def sample_map_def)
  done

lemma sample_map_wf: "map_wf sample_keying sample_map"
proof -
  have "map_wf sample_keying (from_parts (replicate (2 ^ 3) None))" by (rule from_parts_wf) simp
  then have "map_wf sample_keying (from_parts (replicate 8 None))" by simp
  then show ?thesis by (blast intro: map_insert_wf sample_map_made)
qed

section \<open>Properties\<close>

text \<open>
  C9. A lookup's probe always ends, whatever the key and its hash, within the slots: it answers the
  value held for the key, and whether one is.
\<close>

theorem lookup_returns:
  assumes "map_wf kk t"
  shows "map_get kk t q = Some (map_option snd (held_map kk t q)) \<and>
    contains_key kk t q = Some (held_map kk t q \<noteq> None)"
proof (cases "held_map kk t q")
  case None
  obtain i where "find_entry kk t q = Some (Inl i)" by (rule find_entry_absent [OF assms None])
  then show ?thesis using None get_key_value_held [OF assms, of q]
    by (simp add: map_get_def contains_key_def)
next
  case (Some e)
  obtain i where "find_entry kk t q = Some (Inr i)" by (rule held_at [OF assms Some])
  then show ?thesis using Some get_key_value_held [OF assms, of q]
    by (simp add: map_get_def contains_key_def)
qed

theorem lookup_returns_witness:
  "map_get sample_keying sample_map 9 = Some (Some 6) \<and> contains_key sample_keying sample_map 17 = Some False"
proof -
  have "held_map sample_keying sample_map 9 = Some (90, 6)" "held_map sample_keying sample_map 17 = None"
    by (simp_all add: held_map_def sample_map_def sample_borrow)
  then show ?thesis
    using lookup_returns [OF sample_map_wf, of 9] lookup_returns [OF sample_map_wf, of 17] by simp
qed

text \<open>
  C8. An insert on every branch.  It returns; a key present has its value replaced and handed back
  and the key already held is kept, whether or not the map is full; a new key is refused, with key and
  value handed back and nothing changed, exactly when the map holds its capacity; and otherwise it is
  added.  The map stays well formed: every entry is still reached by a probe from its home.
\<close>

theorem map_insert_correct:
  assumes "map_wf kk t"
  shows "\<exists>r t'. map_insert kk t key v = Some (r, t') \<and> map_wf kk t' \<and> hm_capacity t' = hm_capacity t \<and>
    (case held_map kk t (borrow kk key) of
       Some (k, w) \<Rightarrow> r = Inr (Some w) \<and> held_map kk t' = (held_map kk t)(borrow kk key \<mapsto> (k, v))
     | None \<Rightarrow>
         if hm_len t = hm_capacity t then r = Inl (Full_entry key v) \<and> t' = t
         else r = Inr None \<and> held_map kk t' = (held_map kk t)(borrow kk key \<mapsto> (key, v)))"
proof (cases "held_map kk t (borrow kk key)")
  case None
  show ?thesis
  proof (cases "hm_len t = hm_capacity t")
    case True
    then show ?thesis using map_insert_full [OF assms None True, of v] None assms by simp
  next
    case False
    show ?thesis by (rule map_insert_new [OF assms None False, of v]) (use None False in simp)
  qed
next
  case (Some e)
  have e: "held_map kk t (borrow kk key) = Some (fst e, snd e)" using Some by simp
  show ?thesis by (rule map_insert_present [OF assms e, of v]) (use e in \<open>simp add: case_prod_beta\<close>)
qed

theorem map_insert_correct_witness:
  "\<exists>t'. map_insert sample_keying sample_map 95 8 = Some (Inr (Some 6), t') \<and>
     held_map sample_keying t' 9 = Some (90, 8) \<and> held_map sample_keying t' 2 = Some (21, 7)"
proof -
  have "held_map sample_keying sample_map (borrow sample_keying 95) = Some (90, 6)"
      "held_map sample_keying sample_map 2 = Some (21, 7)"
    by (simp_all add: held_map_def sample_map_def sample_borrow)
  then show ?thesis
    using map_insert_correct [OF sample_map_wf, of 95 8] by (auto simp: sample_borrow)
qed

text \<open>
  C7. A removal returns the entry held for the key, and leaves every other entry where a probe from
  its home reaches it, with no tombstone: the map is well formed, and is the old one without the key.
\<close>

theorem map_remove_correct:
  assumes "map_wf kk t"
  shows "\<exists>t'. remove_entry kk t q = Some (held_map kk t q, t') \<and> map_wf kk t' \<and>
    hm_capacity t' = hm_capacity t \<and> held_map kk t' = (held_map kk t)(q := None) \<and>
    hm_len t' = hm_len t - (if held_map kk t q = None then 0 else 1)"
proof (cases "held_map kk t q")
  case None
  then have "(held_map kk t)(q := None) = held_map kk t" by (simp add: fun_upd_idem)
  then show ?thesis using remove_entry_absent [OF assms None] None assms by simp
next
  case (Some e)
  show ?thesis by (rule remove_entry_present [OF assms Some]) (use Some in simp)
qed

theorem map_remove_correct_witness:
  "\<exists>t'. remove_entry sample_keying sample_map 1 = Some (Some (10, 5), t') \<and>
     held_map sample_keying t' 9 = Some (90, 6) \<and> held_map sample_keying t' 1 = None \<and>
     map_get sample_keying t' 9 = Some (Some 6)"
proof -
  have h: "held_map sample_keying sample_map 1 = Some (10, 5)" "held_map sample_keying sample_map 9 = Some (90, 6)"
    by (simp_all add: held_map_def sample_map_def sample_borrow)
  obtain t' where t': "remove_entry sample_keying sample_map 1 = Some (Some (10, 5), t')" "map_wf sample_keying t'"
      "held_map sample_keying t' = (held_map sample_keying sample_map)(1 := None)"
    using map_remove_correct [OF sample_map_wf, of 1] h by auto
  then show ?thesis using h get_key_value_held [OF t'(2), of 9] by (auto simp: map_get_def)
qed

text \<open>
  C10. Refinement of the hash map: over any sequence of inserts and removals from a new map, whatever
  the hash, the slots give the answers of a finite map of at most their capacity of keys: every insert
  is taken or refused as the map's, and every key looks up what the map holds.
\<close>

theorem hash_replay_refines:
  "b < 64 \<Longrightarrow> replay (hash_ins hash) (hash_del hash) (from_parts (replicate (2 ^ b) None)) ops = (as, t) \<Longrightarrow>
   map_replay (capacity_of (2 ^ b)) Map.empty ops = (as, hash_look hash t) \<and> hm_len t \<le> capacity_of (2 ^ b)"
proof -
  assume b: "b < 64" and run: "replay (hash_ins hash) (hash_del hash) (from_parts (replicate (2 ^ b) None)) ops = (as, t)"
  let ?t = "from_parts (replicate (2 ^ b) None) :: ('a, 'b) hash_map"
  have wf: "map_wf (plain hash) ?t" by (rule from_parts_wf [OF b])
  have "held_map (plain hash) ?t = Map.empty" by (rule held_map_empty) (simp add: from_parts_def)
  then have "hash_look hash ?t = Map.empty" by (simp add: fun_eq_iff hash_look_held [OF wf])
  moreover have "hm_capacity ?t = capacity_of (2 ^ b)" by (simp add: from_parts_def)
  ultimately show ?thesis
    using hash_is.replay_map [OF wf run] by (simp add: map_wf_def)
qed

theorem hash_replay_refines_witness:
  "\<exists>as (t :: (nat, nat) hash_map).
     replay (hash_ins word_of_nat) (hash_del word_of_nat) (from_parts (replicate 4 None)) sample_ops = (as, t) \<and>
     as = [True, True, True, False, True] \<and> map_replay 3 Map.empty sample_ops = (as, hash_look word_of_nat t)"
proof -
  obtain as and t :: "(nat, nat) hash_map"
    where r: "replay (hash_ins word_of_nat) (hash_del word_of_nat) (from_parts (replicate (2 ^ 2) None)) sample_ops = (as, t)"
    by force
  have c: "capacity_of 4 = 3" by (simp add: capacity_of_def)
  have "fst (map_replay 3 Map.empty sample_ops) = [True, True, True, False, True]"
    by (simp add: sample_ops_def Let_def case_prod_beta)
  then show ?thesis using hash_replay_refines [of 2, OF _ r] r c by auto
qed

end
