(* ===== verification/Hash_Map_Walks.thy ===== *)
theory Hash_Map_Walks
  imports Hash_Map_Runs
begin

text \<open>
  The walks over a hash map, \<^verbatim>\<open>crates/fixed-hash-table/src/map/iter.rs\<close>: the iterators, which yield the
  occupied slots in their order; \<^verbatim>\<open>retain\<close>, which goes once round the table from an empty slot and looks
  again at a slot it emptied; and \<^verbatim>\<open>drain\<close>, which walks backwards from an empty slot.

  \<^verbatim>\<open>retain\<close> visits each entry once although every removal shifts entries back, and leaves the entries
  the caller keeps; \<^verbatim>\<open>drain\<close> leaves a well-formed map after every item, so one dropped or forgotten
  part way does too.
\<close>

declare split_paired_All [simp del] split_paired_Ex [simp del]

section \<open>Iterators\<close>

record ('k, 'v) map_iter =
  it_slots :: "('k, 'v) slot list"
  it_left :: nat

definition hash_iter :: "('k, 'v) hash_map \<Rightarrow> ('k, 'v) map_iter" where
  "hash_iter t = \<lparr>it_slots = hm_slots t, it_left = hm_len t\<rparr>"

text \<open>\<^verbatim>\<open>find_map\<close> over the slots left.\<close>

fun next_slots :: "('k, 'v) slot list \<Rightarrow> ('k \<times> 'v) option \<times> ('k, 'v) slot list" where
  "next_slots [] = (None, [])"
| "next_slots (None # slots) = next_slots slots"
| "next_slots (Some e # slots) = (Some e, slots)"

definition iter_next :: "('k, 'v) map_iter \<Rightarrow> ('k \<times> 'v) option \<times> ('k, 'v) map_iter" where
  "iter_next it =
    (case next_slots (it_slots it) of
       (None, slots) \<Rightarrow> (None, it\<lparr>it_slots := slots\<rparr>)
     | (Some e, slots) \<Rightarrow> (Some e, it\<lparr>it_slots := slots, it_left := it_left it - 1\<rparr>))"

definition size_hint :: "('k, 'v) map_iter \<Rightarrow> nat \<times> nat option" where
  "size_hint it = (it_left it, Some (it_left it))"

definition keys_next :: "('k, 'v) map_iter \<Rightarrow> 'k option \<times> ('k, 'v) map_iter" where
  "keys_next it = map_prod (map_option fst) id (iter_next it)"

definition values_next :: "('k, 'v) map_iter \<Rightarrow> 'v option \<times> ('k, 'v) map_iter" where
  "values_next it = map_prod (map_option snd) id (iter_next it)"

section \<open>Retain\<close>

text \<open>\<^verbatim>\<open>keep\<close> is an \<^verbatim>\<open>FnMut(&K, &mut V) -> bool\<close>: it has a state of its own, and may write the value.\<close>

type_synonym ('s, 'k, 'v) keep_fn = "'s \<Rightarrow> 'k \<Rightarrow> 'v \<Rightarrow> bool \<times> 'v \<times> 's"

partial_function (option) retain_loop ::
    "('k, 'q) keying \<Rightarrow> ('s, 'k, 'v) keep_fn \<Rightarrow> nat \<Rightarrow> 's \<Rightarrow> ('k, 'v) hash_map \<Rightarrow> nat \<Rightarrow>
     ('s \<times> ('k, 'v) hash_map) option" where
  "retain_loop kk keep start s t step =
    (if step < length (hm_slots t) then
       (let at = (start + step) AND (length (hm_slots t) - 1) in
        if at < length (hm_slots t) then
          (case hm_slots t ! at of
             None \<Rightarrow> retain_loop kk keep start s t (step + 1)
           | Some (k, v) \<Rightarrow>
               (case keep s k v of (keeps, w, s) \<Rightarrow>
                 if keeps then retain_loop kk keep start s (set_value t at (\<lambda>_. w)) (step + 1)
                 else
                   (case hash_remove_at kk (set_value t at (\<lambda>_. w)) at of
                      None \<Rightarrow> None
                    | Some (_, t) \<Rightarrow> retain_loop kk keep start s t step)))
        else None)
     else Some (s, t))"

text \<open>\<^verbatim>\<open>iter().position(Option::is_none)\<close>.\<close>

fun first_empty :: "('k, 'v) slot list \<Rightarrow> nat option" where
  "first_empty [] = None"
| "first_empty (None # slots) = Some 0"
| "first_empty (Some e # slots) = map_option Suc (first_empty slots)"

definition map_retain :: "('k, 'q) keying \<Rightarrow> ('s, 'k, 'v) keep_fn \<Rightarrow> 's \<Rightarrow> ('k, 'v) hash_map \<Rightarrow>
    ('s \<times> ('k, 'v) hash_map) option" where
  "map_retain kk keep s t =
    (case first_empty (hm_slots t) of
       None \<Rightarrow> Some (s, t)
     | Some start \<Rightarrow> retain_loop kk keep start s t 1)"

section \<open>Drain\<close>

record ('k, 'v) drain =
  dr_map :: "('k, 'v) hash_map"
  dr_start :: nat
  dr_visited :: nat

definition map_drain :: "('k, 'v) hash_map \<Rightarrow> ('k, 'v) drain" where
  "map_drain t = \<lparr>dr_map = t, dr_start = (case first_empty (hm_slots t) of None \<Rightarrow> 0 | Some i \<Rightarrow> i),
     dr_visited = 0\<rparr>"

function drain_next :: "('k, 'v) drain \<Rightarrow> ('k \<times> 'v) option \<times> ('k, 'v) drain" where
  "drain_next dr =
    (let t = dr_map dr; n = length (hm_slots t) in
     if dr_visited dr < n then
       (let visited = dr_visited dr + 1;
            at = (dr_start dr + n - visited) mod n;
            dr = dr\<lparr>dr_visited := visited\<rparr> in
        case hm_slots t ! at of
          Some e \<Rightarrow> (Some e, dr\<lparr>dr_map := t\<lparr>hm_slots := (hm_slots t)[at := None], hm_len := hm_len t - 1\<rparr>\<rparr>)
        | None \<Rightarrow> drain_next dr)
     else (None, dr))"
  by pat_completeness auto
termination by (relation "measure (\<lambda>dr. length (hm_slots (dr_map dr)) - dr_visited dr)") auto

declare drain_next.simps [simp del]

text \<open>Dropping the drain, exhausted or not.\<close>

definition drain_drop :: "('k, 'v) drain \<Rightarrow> ('k, 'v) hash_map" where
  "drain_drop dr = map_clear (dr_map dr)"

section \<open>The iterators yield the entries\<close>

lemma next_slots_entries:
  "slot_entries slots = (case next_slots slots of (None, rest) \<Rightarrow> [] | (Some e, rest) \<Rightarrow> e # slot_entries rest)"
  by (induction slots rule: next_slots.induct) auto

lemma next_slots_end: "next_slots slots = (None, rest) \<Longrightarrow> rest = []"
  by (induction slots rule: next_slots.induct) auto

definition iter_inv :: "('k, 'v) map_iter \<Rightarrow> bool" where
  "iter_inv it \<longleftrightarrow> it_left it = length (slot_entries (it_slots it))"

lemma iter_next_cases:
  assumes "iter_inv it"
  shows "case iter_next it of
      (None, it') \<Rightarrow> slot_entries (it_slots it) = [] \<and> iter_inv it' \<and> slot_entries (it_slots it') = []
    | (Some e, it') \<Rightarrow> slot_entries (it_slots it) = e # slot_entries (it_slots it') \<and> iter_inv it'"
  using assms next_slots_entries [of "it_slots it"] next_slots_end [of "it_slots it"]
  by (cases "next_slots (it_slots it)") (auto simp: iter_next_def iter_inv_def split: option.splits)

section \<open>The slots in walking order\<close>

abbreviation walk :: "nat \<Rightarrow> ('k, 'v) hash_map \<Rightarrow> ('k, 'v) slot list" where
  "walk start t \<equiv> rotate start (hm_slots t)"

lemma wrap_add: "(start::nat) < n \<Longrightarrow> j < n \<Longrightarrow> (start + j) mod n = (if start + j < n then start + j else start + j - n)"
  by (auto simp: mod_if)

lemma walk_at: "shape_inv t \<Longrightarrow> i AND (length (hm_slots t) - 1) = i mod length (hm_slots t)"
  unfolding shape_inv_def by (auto simp: and_mask_mod simp del: One_nat_def)

lemma walk_nth: "j < length (hm_slots t) \<Longrightarrow> walk start t ! j = hm_slots t ! ((start + j) mod length (hm_slots t))"
  by (rule nth_rotate)

lemma walk_update:
  assumes "start < length slots" "j < length slots"
  shows "rotate start (slots[(start + j) mod length slots := x]) = (rotate start slots)[j := x]"
proof (rule nth_equalityI)
  fix i assume "i < length (rotate start (slots[(start + j) mod length slots := x]))"
  then have i: "i < length slots" by simp
  have pos: "(start + j) mod length slots < length slots" using assms(1) by (intro mod_less_divisor) linarith
  have "(start + j) mod length slots = (start + i) mod length slots \<longleftrightarrow> i = j"
    using wrap_add [OF assms] wrap_add [OF assms(1) i] i assms by (auto split: if_splits)
  then show "rotate start (slots[(start + j) mod length slots := x]) ! i = (rotate start slots)[j := x] ! i"
    using i assms pos by (auto simp: nth_rotate nth_list_update)
qed simp

lemma past_walk: "start < n \<Longrightarrow> j < n \<Longrightarrow> past n start ((start + j) mod n) = j"
  by (auto simp: wrap_add past_def)

lemma mset_rotated: "mset (rotate k xs) = mset xs"
proof -
  have "mset (drop (k mod length xs) xs @ take (k mod length xs) xs) = mset (take (k mod length xs) xs @ drop (k mod length xs) xs)"
    by (simp only: mset_append add.commute)
  then show ?thesis unfolding rotate_drop_take by (simp only: append_take_drop_id)
qed

lemma walk_split: "step < length xs \<Longrightarrow> xs ! step = x \<Longrightarrow>
   drop step xs = x # drop (Suc step) xs \<and> take (Suc step) xs = take step xs @ [x]"
  by (auto simp: Cons_nth_drop_Suc take_Suc_conv_app_nth)

section \<open>Retain visits each entry once\<close>

text \<open>What the caller's function does over a list of entries.\<close>

fun keep_fold :: "('s, 'k, 'v) keep_fn \<Rightarrow> 's \<Rightarrow> ('k \<times> 'v) list \<Rightarrow> 's \<times> ('k \<times> 'v) list" where
  "keep_fold keep s [] = (s, [])"
| "keep_fold keep s ((k, v) # es) =
    (case keep s k v of (keeps, w, s) \<Rightarrow>
     case keep_fold keep s es of (s, ks) \<Rightarrow> (s, if keeps then (k, w) # ks else ks))"

definition walking :: "('k, 'q) keying \<Rightarrow> nat \<Rightarrow> ('k, 'v) hash_map \<Rightarrow> nat \<Rightarrow> bool" where
  "walking kk start t step \<longleftrightarrow> map_wf kk t \<and> start < length (hm_slots t) \<and> hm_slots t ! start = None \<and>
    0 < step \<and> step \<le> length (hm_slots t)"

definition retained :: "('k, 'q) keying \<Rightarrow> ('s, 'k, 'v) keep_fn \<Rightarrow> nat \<Rightarrow> 's \<Rightarrow> ('k, 'v) hash_map \<Rightarrow> nat \<Rightarrow>
    ('s \<times> ('k, 'v) hash_map) option \<Rightarrow> bool" where
  "retained kk keep start s t step r \<longleftrightarrow>
    (\<exists>es s' t' ks. r = Some (s', t') \<and> mset es = mset (slot_entries (drop step (walk start t))) \<and>
       keep_fold keep s es = (s', ks) \<and> map_wf kk t' \<and> hm_capacity t' = hm_capacity t \<and>
       mset (slot_entries (hm_slots t')) = mset (slot_entries (take step (walk start t)) @ ks))"

lemma retained_end:
  assumes "walking kk start t step" "\<not> step < length (hm_slots t)"
  shows "retained kk keep start s t step (Some (s, t))"
  using assms mset_slot_entries [OF mset_rotated [of start "hm_slots t"]]
  by (auto simp: retained_def walking_def)

lemma retained_skip:
  assumes "step < length (hm_slots t)" "walk start t ! step = None"
    and "retained kk keep start s t (Suc step) r"
  shows "retained kk keep start s t step r"
  using assms walk_split [of step "walk start t" None] by (simp add: retained_def)

lemma retained_keep:
  assumes step: "step < length (hm_slots t)" "start < length (hm_slots t)" "walk start t ! step = Some (k, v)"
    and keep: "keep s k v = (True, w, s1)"
    and rest: "retained kk keep start s1 (set_value t ((start + step) mod length (hm_slots t)) (\<lambda>_. w)) (Suc step) r"
  shows "retained kk keep start s t step r"
proof -
  let ?t = "set_value t ((start + step) mod length (hm_slots t)) (\<lambda>_. w)"
  have "hm_slots ?t = (hm_slots t)[(start + step) mod length (hm_slots t) := Some (k, w)]"
    using step(3) unfolding walk_nth [OF step(1)] by (simp add: set_value_def)
  then have wk: "walk start ?t = (walk start t)[step := Some (k, w)]"
    using walk_update [OF step(2,1)] by simp
  have a: "drop (Suc step) (walk start ?t) = drop (Suc step) (walk start t)" unfolding wk by simp
  have b: "take (Suc step) (walk start ?t) = take step (walk start t) @ [Some (k, w)]"
    unfolding wk using step(1) by (simp add: take_Suc_conv_app_nth)
  obtain es s' t' ks where r: "r = Some (s', t')" "mset es = mset (slot_entries (drop (Suc step) (walk start t)))"
      "keep_fold keep s1 es = (s', ks)" "map_wf kk t'" "hm_capacity t' = hm_capacity t"
      "mset (slot_entries (hm_slots t')) = mset (slot_entries (take step (walk start t)) @ (k, w) # ks)"
    using rest unfolding retained_def a b by (auto simp: set_value_def)
  have "mset ((k, v) # es) = mset (slot_entries (drop step (walk start t)))"
    using walk_split [of step "walk start t" "Some (k, v)"] step r(2) by simp
  moreover have "keep_fold keep s ((k, v) # es) = (s', (k, w) # ks)" using keep r(3) by simp
  ultimately show ?thesis using r unfolding retained_def by blast
qed

lemma set_value_at:
  "hm_slots t ! i = Some (k, v) \<Longrightarrow> hm_slots (set_value t i (\<lambda>_. w)) = (hm_slots t)[i := Some (k, w)]"
  by (simp add: set_value_def)

text \<open>A removal where the walk stands changes nothing the walk has passed.\<close>

lemma shifted_walk:
  assumes sh: "shifted kk start t1 at t'" and t1: "hm_slots t1 = (hm_slots t)[at := None]"
    and start: "start < length (hm_slots t)" and step: "step < length (hm_slots t)"
    and at: "at = (start + step) mod length (hm_slots t)"
  shows "length (hm_slots t') = length (hm_slots t)" "take step (walk start t') = take step (walk start t)"
    "mset (drop step (walk start t')) = mset (None # drop (Suc step) (walk start t))"
proof -
  let ?n = "length (hm_slots t)"
  have m: "mset (hm_slots t') = mset ((hm_slots t)[at := None])"
    using sh t1 by (simp add: shifted_def)
  show len: "length (hm_slots t') = ?n" using arg_cong [OF m, of size] by simp
  have same: "hm_slots t' ! p = hm_slots t ! p" if "p < ?n" "past ?n start p < step" for p
  proof -
    have "past ?n start at = step" unfolding at by (rule past_walk [OF start step])
    then have "hm_slots t' ! p = (hm_slots t)[at := None] ! p" and "p \<noteq> at"
      using sh that unfolding shifted_def t1 by auto
    then show ?thesis by simp
  qed
  show front: "take step (walk start t') = take step (walk start t)"
  proof (rule nth_equalityI)
    fix j assume "j < length (take step (walk start t'))"
    then have j: "j < step" "j < ?n" using len by simp_all
    have "(start + j) mod ?n < ?n" using start by (intro mod_less_divisor) linarith
    then have "hm_slots t' ! ((start + j) mod ?n) = hm_slots t ! ((start + j) mod ?n)"
      using same past_walk [OF start j(2)] j(1) by simp
    then show "take step (walk start t') ! j = take step (walk start t) ! j"
      using j len by (simp add: nth_rotate)
  qed (use len in simp)
  have "mset (walk start t') = mset (rotate start ((hm_slots t)[at := None]))"
    using m by (simp only: mset_rotated)
  also have "rotate start ((hm_slots t)[at := None]) = take step (walk start t) @ None # drop (Suc step) (walk start t)"
    unfolding at walk_update [OF start step] using step by (simp add: upd_conv_take_nth_drop)
  finally have "mset (take step (walk start t') @ drop step (walk start t')) =
      mset (take step (walk start t) @ None # drop (Suc step) (walk start t))"
    by (simp only: append_take_drop_id)
  then show "mset (drop step (walk start t')) = mset (None # drop (Suc step) (walk start t))"
    unfolding mset_append front by simp
qed

lemma retain_removes:
  assumes inv: "walking kk start t step" and step: "step < length (hm_slots t)" "walk start t ! step = Some (k, v)"
    and at: "at = (start + step) mod length (hm_slots t)"
  obtains t' where "hash_remove_at kk (set_value t at (\<lambda>_. w)) at = Some (Some (k, w), t')" "walking kk start t' step"
    "length (hm_slots t') = length (hm_slots t)" "hm_capacity t' = hm_capacity t"
    "take step (walk start t') = take step (walk start t)"
    "mset (slot_entries (drop step (walk start t'))) = mset (slot_entries (drop (Suc step) (walk start t)))"
proof -
  let ?n = "length (hm_slots t)" and ?t = "set_value t at (\<lambda>_. w)"
  let ?t1 = "?t\<lparr>hm_slots := (hm_slots ?t)[at := None], hm_len := hm_len ?t - 1\<rparr>"
  have start: "start < ?n" "hm_slots t ! start = None" and wf: "map_wf kk t" and st: "0 < step"
    using inv by (simp_all add: walking_def)
  have atn: "at < ?n" using start(1) unfolding at by (intro mod_less_divisor) linarith
  have held: "hm_slots t ! at = Some (k, v)" using step(2) unfolding walk_nth [OF step(1)] at .
  have sl: "hm_slots ?t = (hm_slots t)[at := Some (k, w)]" by (rule set_value_at [OF held])
  have wf1: "map_wf kk ?t" by (rule map_wf_set_value(1) [OF wf atn held])
  have at1: "at < length (hm_slots ?t)" "hm_slots ?t ! at = Some (k, w)" using atn sl by simp_all
  have ns: "at \<noteq> start" using held start(2) by auto
  have st1: "start < length (hm_slots ?t)" "hm_slots ?t ! start = None" using start ns sl by simp_all
  obtain t' where r: "hash_remove_at kk ?t at = Some (Some (k, w), t')" and sh: "shifted kk start ?t1 at t'"
    by (rule remove_at_done [OF wf1 at1 st1 refl])
  note t' = shifted_wf [OF wf1 at1 refl sh]
  have sl1: "hm_slots ?t1 = (hm_slots t)[at := None]" using sl by simp
  note wk = shifted_walk [OF sh sl1 start(1) step(1) at]
  have "walk start t' ! 0 = walk start t ! 0"
    using arg_cong [OF wk(2), of "\<lambda>xs. xs ! 0"] st by simp
  moreover have "0 < ?n" using start(1) by linarith
  ultimately have "hm_slots t' ! start = None"
    using start wk(1) walk_nth [of 0 t start] walk_nth [of 0 t' start] by simp
  then have "walking kk start t' step" using t'(1) inv wk(1) by (simp add: walking_def)
  moreover have "mset (slot_entries (drop step (walk start t'))) = mset (slot_entries (drop (Suc step) (walk start t)))"
    using mset_slot_entries [OF wk(3)] by simp
  ultimately show thesis using that [OF r] t'(3) wk by (simp add: set_value_def)
qed

lemma retain_kept:
  assumes inv: "walking kk start t step" and step: "step < length (hm_slots t)" "walk start t ! step = Some (k, v)"
    and at: "at = (start + step) mod length (hm_slots t)"
  shows "walking kk start (set_value t at (\<lambda>_. w)) (Suc step)"
    "length (hm_slots (set_value t at (\<lambda>_. w))) = length (hm_slots t)"
    "drop (Suc step) (walk start (set_value t at (\<lambda>_. w))) = drop (Suc step) (walk start t)"
proof -
  have start: "start < length (hm_slots t)" "hm_slots t ! start = None" and wf: "map_wf kk t"
    using inv by (simp_all add: walking_def)
  have atn: "at < length (hm_slots t)" using start(1) unfolding at by (intro mod_less_divisor) linarith
  have held: "hm_slots t ! at = Some (k, v)" using step(2) unfolding walk_nth [OF step(1)] at .
  note sl = set_value_at [OF held, of w]
  have "at \<noteq> start" using held start(2) by auto
  then show "walking kk start (set_value t at (\<lambda>_. w)) (Suc step)"
    using map_wf_set_value(1) [OF wf atn held] start step(1) sl by (simp add: walking_def)
  show "length (hm_slots (set_value t at (\<lambda>_. w))) = length (hm_slots t)" unfolding sl by simp
  show "drop (Suc step) (walk start (set_value t at (\<lambda>_. w))) = drop (Suc step) (walk start t)"
    unfolding sl unfolding at walk_update [OF start(1) step(1)] by simp
qed

lemma retained_remove:
  assumes step: "step < length (hm_slots t)" "walk start t ! step = Some (k, v)"
    and keep: "keep s k v = (False, w, s1)"
    and same: "hm_capacity t' = hm_capacity t" "take step (walk start t') = take step (walk start t)"
      "mset (slot_entries (drop step (walk start t'))) = mset (slot_entries (drop (Suc step) (walk start t)))"
    and rest: "retained kk keep start s1 t' step r"
  shows "retained kk keep start s t step r"
proof -
  obtain es s' u ks where r: "r = Some (s', u)" "mset es = mset (slot_entries (drop (Suc step) (walk start t)))"
      "keep_fold keep s1 es = (s', ks)" "map_wf kk u" "hm_capacity u = hm_capacity t"
      "mset (slot_entries (hm_slots u)) = mset (slot_entries (take step (walk start t)) @ ks)"
    using rest unfolding retained_def same by blast
  have "mset ((k, v) # es) = mset (slot_entries (drop step (walk start t)))"
    using walk_split [of step "walk start t" "Some (k, v)"] step r(2) by simp
  moreover have "keep_fold keep s ((k, v) # es) = (s', ks)" using keep r(3) by simp
  ultimately show ?thesis using r unfolding retained_def by blast
qed

text \<open>One turn of the loop.\<close>

lemma retain_loop_turn:
  assumes inv: "walking kk start t step" and step: "step < length (hm_slots t)"
    and at: "at = (start + step) mod length (hm_slots t)"
  shows "retain_loop kk keep start s t step =
    (case walk start t ! step of
       None \<Rightarrow> retain_loop kk keep start s t (Suc step)
     | Some (k, v) \<Rightarrow>
         (case keep s k v of (keeps, w, s) \<Rightarrow>
           if keeps then retain_loop kk keep start s (set_value t at (\<lambda>_. w)) (Suc step)
           else
             (case hash_remove_at kk (set_value t at (\<lambda>_. w)) at of
                None \<Rightarrow> None
              | Some (_, t) \<Rightarrow> retain_loop kk keep start s t step)))"
proof -
  have inv': "shape_inv t" "start < length (hm_slots t)" using inv by (simp_all add: walking_def map_wf_def)
  have "(start + step) AND (length (hm_slots t) - 1) = at" unfolding at by (rule walk_at [OF inv'(1)])
  moreover have "at < length (hm_slots t)" using inv'(2) unfolding at by (intro mod_less_divisor) linarith
  moreover have "walk start t ! step = hm_slots t ! at" unfolding at by (rule walk_nth [OF step])
  ultimately show ?thesis
    using step by (subst retain_loop.simps) (simp only: Let_def if_True Suc_eq_plus1)
qed

lemma retain_loop_done:
  "walking kk start t step \<Longrightarrow> retained kk keep start s t step (retain_loop kk keep start s t step)"
proof (induction "length (hm_slots t) - step + length (slot_entries (drop step (walk start t)))"
    arbitrary: t s step rule: less_induct)
  case less
  let ?n = "length (hm_slots t)" and ?at = "(start + step) mod length (hm_slots t)"
  have start: "start < ?n" using less.prems by (simp add: walking_def)
  show ?case
  proof (cases "step < ?n")
    case False
    then have "retain_loop kk keep start s t step = Some (s, t)" by (subst retain_loop.simps) simp
    then show ?thesis using retained_end [OF less.prems False] by simp
  next
    case True
    note turn = retain_loop_turn [OF less.prems True refl, of keep s]
    show ?thesis
    proof (cases "walk start t ! step")
      case None
      have "retained kk keep start s t (Suc step) (retain_loop kk keep start s t (Suc step))"
        by (rule less.hyps)
          (use less.prems True walk_split [of step "walk start t"] None in \<open>auto simp: walking_def\<close>)
      then show ?thesis using retained_skip [OF True None] turn None by simp
    next
      case (Some e)
      obtain k v where ks: "walk start t ! step = Some (k, v)" using Some by (cases e) auto
      obtain keeps w s1 where kp: "keep s k v = (keeps, w, s1)" by (cases "keep s k v") auto
      have shorter: "length (slot_entries (drop step (walk start t))) = Suc (length (slot_entries (drop (Suc step) (walk start t))))"
        using walk_split [of step "walk start t" "Some (k, v)"] True ks by simp
      show ?thesis
      proof (cases keeps)
        case True': True
        let ?t = "set_value t ?at (\<lambda>_. w)"
        have "retained kk keep start s1 ?t (Suc step) (retain_loop kk keep start s1 ?t (Suc step))"
          by (rule less.hyps) (use retain_kept [OF less.prems True ks refl] shorter True in auto)
        then show ?thesis using retained_keep [OF True start ks, of keep s w s1] turn ks kp True' by simp
      next
        case False
        obtain t' where t': "hash_remove_at kk (set_value t ?at (\<lambda>_. w)) ?at = Some (Some (k, w), t')"
            "walking kk start t' step" "length (hm_slots t') = ?n" "hm_capacity t' = hm_capacity t"
            "take step (walk start t') = take step (walk start t)"
            "mset (slot_entries (drop step (walk start t'))) = mset (slot_entries (drop (Suc step) (walk start t)))"
          by (rule retain_removes [OF less.prems True ks refl])
        have "retained kk keep start s1 t' step (retain_loop kk keep start s1 t' step)"
          by (rule less.hyps [OF _ t'(2)]) (use shorter t'(3) arg_cong [OF t'(6), of size] in simp)
        then show ?thesis
          using retained_remove [OF True ks _ t'(4-6), of keep s w s1] turn ks kp False t'(1) by simp
      qed
    qed
  qed
qed

lemma first_empty_Some: "first_empty slots = Some i \<Longrightarrow> i < length slots \<and> slots ! i = None"
  by (induction slots arbitrary: i rule: first_empty.induct) (auto simp: nth_Cons split: nat.splits)

lemma first_empty_None: "first_empty slots = None \<longleftrightarrow> None \<notin> set slots"
  by (induction slots rule: first_empty.induct) auto

lemma first_empty_wf:
  assumes "map_wf kk t"
  obtains i where "first_empty (hm_slots t) = Some i" "i < length (hm_slots t)" "hm_slots t ! i = None"
proof (cases "first_empty (hm_slots t)")
  case None
  then show thesis using map_wf_empty_slot [OF assms] by (metis first_empty_None nth_mem)
next
  case (Some i)
  then show thesis using that first_empty_Some by blast
qed

text \<open>
  C11. \<^verbatim>\<open>retain\<close> returns, having called the caller's function once on each entry the map held, in some
  order; it leaves a well-formed map of exactly the entries kept, with the values the function wrote,
  although each removal shifts entries of the table back.
\<close>

theorem retain_correct:
  assumes "map_wf kk t"
  shows "\<exists>es s' t' ks. map_retain kk keep s t = Some (s', t') \<and> mset es = mset (slot_entries (hm_slots t)) \<and>
    keep_fold keep s es = (s', ks) \<and> map_wf kk t' \<and> hm_capacity t' = hm_capacity t \<and>
    mset (slot_entries (hm_slots t')) = mset ks"
proof -
  obtain i where i: "first_empty (hm_slots t) = Some i" "i < length (hm_slots t)" "hm_slots t ! i = None"
    by (rule first_empty_wf [OF assms])
  have pos: "0 < length (hm_slots t)" using i(2) by linarith
  then have "walking kk i t 1" using assms i by (simp add: walking_def Suc_le_eq)
  then have r: "retained kk keep i s t 1 (map_retain kk keep s t)"
    using retain_loop_done [of kk i t 1 keep s] i(1) by (simp add: map_retain_def)
  have head: "walk i t = None # drop 1 (walk i t)"
    using walk_split [of 0 "walk i t" None] walk_nth [OF pos, of i] i pos by simp
  have "slot_entries (take 1 (walk i t)) = []" by (subst head) simp
  moreover have "mset (slot_entries (drop 1 (walk i t))) = mset (slot_entries (hm_slots t))"
    using arg_cong [OF head, of slot_entries] mset_slot_entries [OF mset_rotated [of i "hm_slots t"]]
    by (simp only: slot_entries_simps)
  ultimately show ?thesis using r by (simp add: retained_def)
qed

definition odd_values :: "(nat, nat, nat) keep_fn" where
  "odd_values s k v = (odd v, v + 1, s + 1)"

lemma odd_values_calls: "fst (keep_fold odd_values s es) = s + length es"
  by (induction es arbitrary: s) (auto simp: odd_values_def case_prod_beta)

theorem retain_correct_witness:
  "\<exists>t'. map_retain sample_keying odd_values 0 sample_map = Some (3, t') \<and> map_wf sample_keying t' \<and>
     hm_capacity t' = 7"
proof -
  obtain es s' t' ks where r: "map_retain sample_keying odd_values 0 sample_map = Some (s', t')"
      "mset es = mset (slot_entries (hm_slots sample_map))" "keep_fold odd_values 0 es = (s', ks)"
      "map_wf sample_keying t'" "hm_capacity t' = hm_capacity sample_map"
    using retain_correct [OF sample_map_wf, of odd_values 0] by blast
  have "length es = 3" using arg_cong [OF r(2), of size] by (simp add: sample_map_def)
  then show ?thesis using r odd_values_calls [of 0 es] by (simp add: sample_map_def)
qed

section \<open>Every item of a drain leaves a well-formed map\<close>

definition drain_inv :: "('k, 'q) keying \<Rightarrow> ('k, 'v) drain \<Rightarrow> bool" where
  "drain_inv kk dr \<longleftrightarrow>
    (let t = dr_map dr; n = length (hm_slots t) in
     map_wf kk t \<and> dr_start dr < n \<and> dr_visited dr \<le> n \<and>
     (\<forall>p<n. past n p (dr_start dr) \<le> dr_visited dr \<longrightarrow> hm_slots t ! p = None))"

text \<open>An entry whose next slot is empty ends its probe run: taking it moves nothing.\<close>

lemma take_last_of_run:
  assumes wf: "map_wf kk t" and at: "at < length (hm_slots t)" "hm_slots t ! at = Some e"
    and nx: "hm_slots t ! (if at + 1 = length (hm_slots t) then 0 else at + 1) = None"
    and t1: "t1 = t\<lparr>hm_slots := (hm_slots t)[at := None], hm_len := hm_len t - 1\<rparr>"
  shows "shifted kk g t1 at t1"
proof -
  let ?nx = "if at + 1 = length (hm_slots t) then 0 else at + 1"
  have inv: "shift_inv kk t1 at at" by (rule shift_inv_start [OF wf at(1)]) (simp_all add: t1)
  have len: "length (hm_slots t1) = length (hm_slots t)" by (simp add: t1)
  have "hm_slots t1 ! ?nx = None" using nx at(1) by (cases "?nx = at") (simp_all add: t1)
  then have "probe_inv kk t1" by (rule shift_inv_end [OF inv, unfolded len, OF refl])
  then show ?thesis by (simp add: shifted_def)
qed

lemma drain_at:
  assumes "start < n" "visited < n" "at = (start + n - (visited + 1)) mod n"
  shows "at < n" "past n at start = (if visited + 1 = n then 0 else visited + 1)"
proof -
  show "at < n" using assms by simp
  have "at = (if visited + 1 \<le> start then start - (visited + 1) else start + n - (visited + 1))"
    using assms by (auto simp: mod_if)
  then show "past n at start = (if visited + 1 = n then 0 else visited + 1)"
    using assms(1,2) by (auto simp: past_def)
qed

lemma drain_all_visited:
  assumes "drain_inv kk dr" "\<not> dr_visited dr < length (hm_slots (dr_map dr))"
  shows "slot_entries (hm_slots (dr_map dr)) = []"
proof -
  let ?t = "dr_map dr" and ?n = "length (hm_slots (dr_map dr))"
  have "hm_slots ?t ! p = None" if "p < ?n" for p
    using assms past_less [of p ?n "dr_start dr"] that unfolding drain_inv_def Let_def by fastforce
  then have "Some e \<notin> set (hm_slots ?t)" for e by (auto simp: in_set_conv_nth)
  then show ?thesis using set_slot_entries [of _ "hm_slots ?t"] by (metis list.set_intros(1) neq_Nil_conv)
qed

lemma past_inj_left: "h < n \<Longrightarrow> i < n \<Longrightarrow> j < n \<Longrightarrow> past n i h = past n j h \<Longrightarrow> i = j"
  by (auto simp: past_def split: if_splits)

definition drained :: "('k, 'q) keying \<Rightarrow> ('k, 'v) drain \<Rightarrow> ('k \<times> 'v) option \<times> ('k, 'v) drain \<Rightarrow> bool" where
  "drained kk dr r \<longleftrightarrow>
    (case r of
       (None, dr') \<Rightarrow> slot_entries (hm_slots (dr_map dr)) = [] \<and> dr_map dr' = dr_map dr \<and> drain_inv kk dr'
     | (Some e, dr') \<Rightarrow> drain_inv kk dr' \<and> hm_capacity (dr_map dr') = hm_capacity (dr_map dr) \<and>
         hm_len (dr_map dr) = Suc (hm_len (dr_map dr')) \<and>
         mset (e # slot_entries (hm_slots (dr_map dr'))) = mset (slot_entries (hm_slots (dr_map dr))) \<and>
         held_map kk (dr_map dr') = (held_map kk (dr_map dr))(borrow kk (fst e) := None))"

lemma drain_takes:
  assumes inv: "drain_inv kk dr" and more: "dr_visited dr < length (hm_slots (dr_map dr))"
    and at: "at = (dr_start dr + length (hm_slots (dr_map dr)) - (dr_visited dr + 1)) mod length (hm_slots (dr_map dr))"
    and held: "hm_slots (dr_map dr) ! at = Some e"
  shows "drained kk dr (Some e, dr\<lparr>dr_visited := dr_visited dr + 1, dr_map := (dr_map dr)
    \<lparr>hm_slots := (hm_slots (dr_map dr))[at := None], hm_len := hm_len (dr_map dr) - 1\<rparr>\<rparr>)"
proof -
  let ?t = "dr_map dr" and ?n = "length (hm_slots (dr_map dr))" and ?s = "dr_start dr"
  let ?t1 = "?t\<lparr>hm_slots := (hm_slots ?t)[at := None], hm_len := hm_len ?t - 1\<rparr>"
  let ?nx = "if at + 1 = ?n then 0 else at + 1"
  have wf: "map_wf kk ?t" and s: "?s < ?n"
    and gone: "\<And>p. p < ?n \<Longrightarrow> past ?n p ?s \<le> dr_visited dr \<Longrightarrow> hm_slots ?t ! p = None"
    using inv unfolding drain_inv_def Let_def by blast+
  note a = drain_at [OF s more at]
  have "at \<noteq> ?s" using gone [OF s] held by (auto simp: past_home)
  then have next_past: "Suc (past ?n ?nx ?s) = past ?n at ?s" by (rule past_step_to [OF s a(1)])
  then have far: "past ?n at ?s = dr_visited dr + 1" using a(2) by (simp split: if_splits)
  have "hm_slots ?t ! ?nx = None" by (rule gone) (use a(1) next_past far in auto)
  then have "shifted kk ?s ?t1 at ?t1" by (rule take_last_of_run [OF wf a(1) held _ refl])
  note t1 = shifted_wf [OF wf a(1) held refl this]
  have "drain_inv kk (dr\<lparr>dr_visited := dr_visited dr + 1, dr_map := ?t1\<rparr>)"
  proof -
    have "hm_slots ?t1 ! p = None" if p: "p < ?n" "past ?n p ?s \<le> dr_visited dr + 1" for p
    proof (cases "p = at")
      case False
      then have "past ?n p ?s \<noteq> past ?n at ?s" using past_inj_left [OF s p(1) a(1)] by blast
      then have "past ?n p ?s \<le> dr_visited dr" using p(2) far by linarith
      then show ?thesis using gone [OF p(1)] False by simp
    qed (use p in simp)
    then show ?thesis using t1(1) s more unfolding drain_inv_def Let_def by simp
  qed
  moreover have "hm_len ?t = Suc (hm_len ?t1)"
    using arg_cong [OF t1(4), of size] wf t1(1) by (simp add: map_wf_def)
  ultimately show ?thesis using t1 unfolding drained_def by simp
qed

lemma drain_skips:
  assumes inv: "drain_inv kk dr" and more: "dr_visited dr < length (hm_slots (dr_map dr))"
    and at: "at = (dr_start dr + length (hm_slots (dr_map dr)) - (dr_visited dr + 1)) mod length (hm_slots (dr_map dr))"
    and held: "hm_slots (dr_map dr) ! at = None"
  shows "drain_inv kk (dr\<lparr>dr_visited := dr_visited dr + 1\<rparr>)"
proof -
  let ?t = "dr_map dr" and ?n = "length (hm_slots (dr_map dr))" and ?s = "dr_start dr"
  have s: "?s < ?n" and gone: "\<And>p. p < ?n \<Longrightarrow> past ?n p ?s \<le> dr_visited dr \<Longrightarrow> hm_slots ?t ! p = None"
    using inv unfolding drain_inv_def Let_def by blast+
  note a = drain_at [OF s more at]
  have "hm_slots ?t ! p = None" if p: "p < ?n" "past ?n p ?s \<le> dr_visited dr + 1" for p
  proof (cases "past ?n p ?s \<le> dr_visited dr")
    case False
    then have "past ?n p ?s = dr_visited dr + 1" using p(2) by linarith
    moreover have "dr_visited dr + 1 \<noteq> ?n" using calculation past_less [OF p(1) s] by linarith
    ultimately have "p = at" using past_inj_left [OF s p(1) a(1)] a(2) by simp
    then show ?thesis using held by simp
  qed (use gone p in blast)
  then show ?thesis using inv more unfolding drain_inv_def Let_def by simp
qed

lemma drain_next_done: "drain_inv kk dr \<Longrightarrow> drained kk dr (drain_next dr)"
proof (induction dr rule: drain_next.induct)
  case (1 dr)
  let ?t = "dr_map dr" and ?n = "length (hm_slots (dr_map dr))"
  let ?at = "(dr_start dr + ?n - (dr_visited dr + 1)) mod ?n"
  show ?case
  proof (cases "dr_visited dr < ?n")
    case False
    then have "drain_next dr = (None, dr)" by (subst drain_next.simps) simp
    then show ?thesis using drain_all_visited [OF "1.prems" False] "1.prems" by (simp add: drained_def)
  next
    case True
    show ?thesis
    proof (cases "hm_slots ?t ! ?at")
      case None
      let ?dr = "dr\<lparr>dr_visited := dr_visited dr + 1\<rparr>"
      have next_dr: "drain_next dr = drain_next ?dr" using True None by (subst drain_next.simps) (simp add: Let_def)
      have "drained kk ?dr (drain_next ?dr)"
        using "1.IH" [OF refl refl True refl refl refl None] drain_skips [OF "1.prems" True refl None] by simp
      then show ?thesis unfolding next_dr drained_def by (simp split: prod.splits option.splits)
    next
      case (Some e)
      then show ?thesis
        using drain_takes [OF "1.prems" True refl Some] True by (subst drain_next.simps) (simp add: Let_def)
    qed
  qed
qed

lemma map_drain_inv: "map_wf kk t \<Longrightarrow> drain_inv kk (map_drain t)"
proof -
  assume wf: "map_wf kk t"
  obtain i where i: "first_empty (hm_slots t) = Some i" "i < length (hm_slots t)" "hm_slots t ! i = None"
    by (rule first_empty_wf [OF wf])
  have "hm_slots t ! p = None" if "p < length (hm_slots t)" "past (length (hm_slots t)) p i = 0" for p
    using that i past_zero [OF that(1) i(2)] by simp
  then show ?thesis using wf i by (simp add: drain_inv_def map_drain_def Let_def)
qed

text \<open>The first \<open>m\<close> items of a drain, and the drain they leave.\<close>

fun drain_items :: "nat \<Rightarrow> ('k, 'v) drain \<Rightarrow> ('k \<times> 'v) list \<times> ('k, 'v) drain" where
  "drain_items 0 dr = ([], dr)"
| "drain_items (Suc m) dr =
    (case drain_next dr of
       (None, dr) \<Rightarrow> ([], dr)
     | (Some e, dr) \<Rightarrow> (case drain_items m dr of (es, dr) \<Rightarrow> (e # es, dr)))"

lemma drain_items_done:
  "drain_inv kk dr \<Longrightarrow> drain_items m dr = (es, dr') \<Longrightarrow>
   drain_inv kk dr' \<and> hm_capacity (dr_map dr') = hm_capacity (dr_map dr) \<and>
   mset (es @ slot_entries (hm_slots (dr_map dr'))) = mset (slot_entries (hm_slots (dr_map dr))) \<and>
   length es = min m (hm_len (dr_map dr))"
proof (induction m arbitrary: dr es)
  case (Suc m)
  obtain r dr1 where n: "drain_next dr = (r, dr1)" by (cases "drain_next dr")
  have d: "drained kk dr (r, dr1)" using drain_next_done [OF Suc.prems(1)] n by simp
  show ?case
  proof (cases r)
    case None
    then have "hm_len (dr_map dr) = 0"
      using d Suc.prems(1) by (simp add: drained_def drain_inv_def map_wf_def Let_def)
    then show ?thesis using Suc.prems(2) n None d by (simp add: drained_def)
  next
    case (Some e)
    obtain es1 where i: "drain_items m dr1 = (es1, dr')" and es: "es = e # es1"
      using Suc.prems(2) n Some by (auto split: prod.splits)
    have "drain_inv kk dr1" using d Some by (simp add: drained_def)
    then show ?thesis using Suc.IH [OF _ i] d Some es by (simp add: drained_def)
  qed
qed simp

text \<open>
  C12. A drain yields each entry once: its first \<open>m\<close> items are that many of the map's entries, or all
  of them, and the rest are still in the map, which is well formed after every item, as the comment on
  \<^verbatim>\<open>Drain\<close> says of one forgotten part way; dropping it leaves an empty map.
\<close>

theorem drain_correct:
  assumes "map_wf kk t" "drain_items m (map_drain t) = (es, dr)"
  shows "map_wf kk (dr_map dr) \<and> mset (es @ slot_entries (hm_slots (dr_map dr))) = mset (slot_entries (hm_slots t)) \<and>
    length es = min m (hm_len t) \<and> map_wf kk (drain_drop dr) \<and> held_map kk (drain_drop dr) = Map.empty \<and>
    hm_capacity (drain_drop dr) = hm_capacity t"
proof -
  have d: "drain_inv kk dr" "hm_capacity (dr_map dr) = hm_capacity t"
      "mset (es @ slot_entries (hm_slots (dr_map dr))) = mset (slot_entries (hm_slots t))" "length es = min m (hm_len t)"
    using drain_items_done [OF map_drain_inv [OF assms(1)] assms(2)] by (simp_all add: map_drain_def)
  then have "map_wf kk (dr_map dr)" by (simp add: drain_inv_def Let_def)
  then show ?thesis using d map_clear_wf [of kk "dr_map dr"] unfolding drain_drop_def by (simp add: map_clear_def)
qed

theorem drain_correct_witness:
  "\<exists>es dr. drain_items 2 (map_drain sample_map) = (es, dr) \<and> length es = 2 \<and> map_wf sample_keying (dr_map dr) \<and>
     mset (es @ slot_entries (hm_slots (dr_map dr))) = mset [(10, 5), (90, 6), (21, 7)]"
proof -
  obtain es dr where r: "drain_items 2 (map_drain sample_map) = (es, dr)" by (cases "drain_items 2 (map_drain sample_map)")
  show ?thesis using drain_correct [OF sample_map_wf r] r by (simp add: sample_map_def)
qed

text \<open>The first \<open>m\<close> items of an iterator.\<close>

fun iter_items :: "nat \<Rightarrow> ('k, 'v) map_iter \<Rightarrow> ('k \<times> 'v) list \<times> ('k, 'v) map_iter" where
  "iter_items 0 it = ([], it)"
| "iter_items (Suc m) it =
    (case iter_next it of
       (None, it) \<Rightarrow> ([], it)
     | (Some e, it) \<Rightarrow> (case iter_items m it of (es, it) \<Rightarrow> (e # es, it)))"

lemma iter_items_done:
  "iter_inv it \<Longrightarrow> iter_items m it = (es, it') \<Longrightarrow>
   iter_inv it' \<and> slot_entries (it_slots it) = es @ slot_entries (it_slots it') \<and> length es = min m (it_left it)"
proof (induction m arbitrary: it es)
  case (Suc m)
  obtain r it1 where n: "iter_next it = (r, it1)" by (cases "iter_next it")
  note c = iter_next_cases [OF Suc.prems(1), unfolded n]
  show ?case
  proof (cases r)
    case None
    then have "slot_entries (it_slots it) = []" "slot_entries (it_slots it1) = []" "iter_inv it1" using c by simp_all
    then show ?thesis using Suc.prems n None unfolding iter_inv_def by simp
  next
    case (Some e)
    obtain es1 where i: "iter_items m it1 = (es1, it')" and es: "es = e # es1"
      using Suc.prems(2) n Some by (auto split: prod.splits)
    have it: "slot_entries (it_slots it) = e # slot_entries (it_slots it1)" "iter_inv it1" using c Some by simp_all
    have left: "it_left it = Suc (it_left it1)" using it Suc.prems(1) unfolding iter_inv_def by simp
    show ?thesis using Suc.IH [OF it(2) i] unfolding it(1) es left by simp
  qed
qed simp

text \<open>
  C26. Iterating yields each entry once, and its size hint is exact at every item: after \<open>m\<close> items
  the hint is how many are still to come.
\<close>

theorem iter_correct:
  assumes "map_wf kk t" "iter_items m (hash_iter t) = (es, it)"
  shows "size_hint it = (hm_len t - length es, Some (hm_len t - length es)) \<and> length es = min m (hm_len t) \<and>
    slot_entries (hm_slots t) = es @ slot_entries (it_slots it)"
proof -
  have "iter_inv (hash_iter t)" using assms(1) by (simp add: iter_inv_def hash_iter_def map_wf_def)
  then have i: "iter_inv it" "slot_entries (hm_slots t) = es @ slot_entries (it_slots it)" "length es = min m (hm_len t)"
    using iter_items_done [of "hash_iter t" m es it] assms(2) by (simp_all add: hash_iter_def)
  have "hm_len t = length (slot_entries (hm_slots t))" using assms(1) by (simp add: map_wf_def)
  then have "it_left it = hm_len t - length es" using i(1) unfolding iter_inv_def i(2) by simp
  then show ?thesis using i(2,3) by (simp only: size_hint_def)
qed

theorem iter_correct_witness:
  "\<exists>es it. iter_items 2 (hash_iter sample_map) = (es, it) \<and> size_hint it = (1, Some 1) \<and>
     [(10, 5), (90, 6), (21, 7)] = es @ slot_entries (it_slots it)"
proof -
  obtain es it where r: "iter_items 2 (hash_iter sample_map) = (es, it)" by (cases "iter_items 2 (hash_iter sample_map)")
  show ?thesis using iter_correct [OF sample_map_wf r] r by (simp add: sample_map_def)
qed

end
