(* ===== verification/Hash_Map_Entry.thy ===== *)
theory Hash_Map_Entry
  imports Hash_Map_Runs
begin

text \<open>
  The entry API and the bulk operations of the hash map,
  \<^verbatim>\<open>crates/fixed-hash-table/src/map/entry.rs\<close> and \<^verbatim>\<open>traits.rs\<close>.  An entry borrows the map and holds the
  slot its key's probe ended at; the model passes the map beside it.  A reference into the map, which
  the calls answer, is the slot it points into, and a write through it is \<^const>\<open>set_value\<close>.
\<close>

declare split_paired_All [simp del] split_paired_Ex [simp del]

section \<open>Entries\<close>

datatype 'k map_entry = Occupied nat | Vacant 'k nat

definition hash_entry :: "('k, 'q) keying \<Rightarrow> ('k, 'v) hash_map \<Rightarrow> 'k \<Rightarrow> 'k map_entry option" where
  "hash_entry kk t key = map_option
     (\<lambda>found. case found of Inr i \<Rightarrow> Occupied i | Inl i \<Rightarrow> Vacant key i) (find_entry kk t (borrow kk key))"

text \<open>\<^term>\<open>None\<close> where \<^verbatim>\<open>expect(OCCUPIED)\<close> panics.\<close>

definition entry_key :: "('k, 'v) hash_map \<Rightarrow> 'k map_entry \<Rightarrow> 'k option" where
  "entry_key t e = (case e of Occupied i \<Rightarrow> map_option fst (hm_slots t ! i) | Vacant key _ \<Rightarrow> Some key)"

definition occupied_get :: "('k, 'v) hash_map \<Rightarrow> nat \<Rightarrow> 'v option" where
  "occupied_get t i = map_option snd (hm_slots t ! i)"

definition occupied_insert :: "('k, 'v) hash_map \<Rightarrow> nat \<Rightarrow> 'v \<Rightarrow> 'v option \<times> ('k, 'v) hash_map" where
  "occupied_insert t i v = (occupied_get t i, set_value t i (\<lambda>_. v))"

definition occupied_remove_entry :: "('k, 'q) keying \<Rightarrow> ('k, 'v) hash_map \<Rightarrow> nat \<Rightarrow>
    (('k, 'v) slot \<times> ('k, 'v) hash_map) option" where
  "occupied_remove_entry kk t i = hash_remove_at kk t i"

definition vacant_insert :: "('k, 'v) hash_map \<Rightarrow> 'k \<Rightarrow> nat \<Rightarrow> 'v \<Rightarrow>
    (('k, 'v) full_entry + nat) \<times> ('k, 'v) hash_map" where
  "vacant_insert t key i v =
    (if hm_len t = hm_capacity t then (Inl (Full_entry key v), t) else (Inr i, place_entry t i key v))"

definition or_insert :: "('k, 'v) hash_map \<Rightarrow> 'k map_entry \<Rightarrow> 'v \<Rightarrow>
    (('k, 'v) full_entry + nat) \<times> ('k, 'v) hash_map" where
  "or_insert t e v = (case e of Occupied i \<Rightarrow> (Inr i, t) | Vacant key i \<Rightarrow> vacant_insert t key i v)"

definition or_insert_with :: "('k, 'v) hash_map \<Rightarrow> 'k map_entry \<Rightarrow> (unit \<Rightarrow> 'v) \<Rightarrow>
    (('k, unit \<Rightarrow> 'v) full_entry + nat) \<times> ('k, 'v) hash_map" where
  "or_insert_with t e mk =
    (case e of
       Occupied i \<Rightarrow> (Inr i, t)
     | Vacant key i \<Rightarrow>
         if hm_len t = hm_capacity t then (Inl (Full_entry key mk), t)
         else (Inr i, place_entry t i key (mk ())))"

definition or_insert_with_key :: "('k, 'v) hash_map \<Rightarrow> 'k map_entry \<Rightarrow> ('k \<Rightarrow> 'v) \<Rightarrow>
    (('k, 'k \<Rightarrow> 'v) full_entry + nat) \<times> ('k, 'v) hash_map" where
  "or_insert_with_key t e mk =
    (case e of
       Occupied i \<Rightarrow> (Inr i, t)
     | Vacant key i \<Rightarrow>
         if hm_len t = hm_capacity t then (Inl (Full_entry key mk), t)
         else (Inr i, place_entry t i key (mk key)))"

definition or_default :: "(unit \<Rightarrow> 'v) \<Rightarrow> ('k, 'v) hash_map \<Rightarrow> 'k map_entry \<Rightarrow>
    (('k, 'v) full_entry + nat) \<times> ('k, 'v) hash_map" where
  "or_default dflt t e = map_prod
     (map_sum (\<lambda>full. Full_entry (full_key full) (full_value full ())) id) id (or_insert_with t e dflt)"

definition and_modify :: "('k, 'v) hash_map \<Rightarrow> 'k map_entry \<Rightarrow> ('v \<Rightarrow> 'v) \<Rightarrow> ('k, 'v) hash_map" where
  "and_modify t e f = (case e of Occupied i \<Rightarrow> set_value t i f | Vacant _ _ \<Rightarrow> t)"

section \<open>Bulk insertion, equality, indexing\<close>

fun try_extend :: "('k, 'q) keying \<Rightarrow> ('k, 'v) hash_map \<Rightarrow> ('k \<times> 'v) list \<Rightarrow>
    ((('k, 'v) full_entry + unit) \<times> ('k, 'v) hash_map) option" where
  "try_extend kk t [] = Some (Inr (), t)"
| "try_extend kk t ((key, v) # entries) =
    (case map_insert kk t key v of
       None \<Rightarrow> None
     | Some (Inl full, t) \<Rightarrow> Some (Inl full, t)
     | Some (Inr _, t) \<Rightarrow> try_extend kk t entries)"

text \<open>The other map is looked up by its own hasher.\<close>

definition map_eq :: "('k, 'q) keying \<Rightarrow> ('k, 'v) hash_map \<Rightarrow> ('k, 'v) hash_map \<Rightarrow> bool" where
  "map_eq kk t other \<longleftrightarrow> hm_len t = hm_len other \<and>
    list_all (\<lambda>(key, v). map_get kk other (borrow kk key) = Some (Some v)) (slot_entries (hm_slots t))"

text \<open>\<^verbatim>\<open>map[key]\<close>: \<^term>\<open>None\<close> where it panics.\<close>

definition map_index :: "('k, 'q) keying \<Rightarrow> ('k, 'v) hash_map \<Rightarrow> 'q \<Rightarrow> 'v option" where
  "map_index kk t key = Option.bind (map_get kk t key) id"

text \<open>\<^verbatim>\<open>clone\<close> and \<^verbatim>\<open>try_clone\<close>: the slots copied, whether the allocator provides them or not.\<close>

definition try_clone :: "(nat \<Rightarrow> bool) \<Rightarrow> ('k, 'v) hash_map \<Rightarrow> reserve_error + ('k, 'v) hash_map" where
  "try_clone reserves t = (if reserves (length (hm_slots t)) then Inr t else Inl Alloc)"

section \<open>Properties\<close>

lemma place_entry_at: "i < length (hm_slots t) \<Longrightarrow> hm_slots (place_entry t i key v) ! i = Some (key, v)"
  by (simp add: place_entry_def)

text \<open>
  C20. \<^verbatim>\<open>entry(key).and_modify(f).or_insert(v)\<close> on every branch: a key present has its value changed by
  \<open>f\<close> in place and the reference answered is to it; an absent one is inserted and the reference is to
  what was inserted, or is refused, key and value handed back and nothing changed, when the map is full.
\<close>

theorem entry_correct:
  assumes wf: "map_wf kk t"
  shows "\<exists>e r t'. hash_entry kk t key = Some e \<and> or_insert (and_modify t e f) e v = (r, t') \<and> map_wf kk t' \<and>
    hm_capacity t' = hm_capacity t \<and>
    (case held_map kk t (borrow kk key) of
       Some (k, w) \<Rightarrow> held_map kk t' = (held_map kk t)(borrow kk key \<mapsto> (k, f w)) \<and>
         entry_key t e = Some k \<and> (\<exists>i. r = Inr i \<and> occupied_get t' i = Some (f w))
     | None \<Rightarrow>
         entry_key t e = Some key \<and>
         (if hm_len t = hm_capacity t then r = Inl (Full_entry key v) \<and> t' = t
          else held_map kk t' = (held_map kk t)(borrow kk key \<mapsto> (key, v)) \<and>
            (\<exists>i. r = Inr i \<and> occupied_get t' i = Some v)))"
proof (cases "held_map kk t (borrow kk key)")
  case None
  note wf_place = map_wf_place [OF wf _ _ None]
  show ?thesis
  proof (rule find_entry_absent [OF wf None])
    fix i
    assume i: "i < length (hm_slots t)" "hm_slots t ! i = None" "find_entry kk t (borrow kk key) = Some (Inl i)"
      and over: "\<And>p. p < length (hm_slots t) \<Longrightarrow>
        past (length (hm_slots t)) (key_home kk t key) p < past (length (hm_slots t)) (key_home kk t key) i
        \<Longrightarrow> hm_slots t ! p \<noteq> None"
    have e: "hash_entry kk t key = Some (Vacant key i)" using i(3) by (simp add: hash_entry_def)
    show ?thesis
    proof (cases "hm_len t = hm_capacity t")
      case True
      then show ?thesis
        using e None wf by (simp add: or_insert_def and_modify_def vacant_insert_def entry_key_def)
    next
      case False
      have "hm_capacity (place_entry t i key v) = hm_capacity t" by (simp add: place_entry_def)
      then show ?thesis
        using e None False wf_place [OF i(1,2) False over, of v] place_entry_at [OF i(1)]
        by (simp add: or_insert_def and_modify_def vacant_insert_def entry_key_def occupied_get_def)
    qed
  qed
next
  case (Some kw)
  obtain k w where kw: "held_map kk t (borrow kk key) = Some (k, w)" using Some by (cases kw) auto
  obtain i where i: "i < length (hm_slots t)" "hm_slots t ! i = Some (k, w)"
      "find_entry kk t (borrow kk key) = Some (Inr i)" "borrow kk k = borrow kk key"
    using held_at [OF wf kw] by (metis fst_conv)
  have e: "hash_entry kk t key = Some (Occupied i)" using i(3) by (simp add: hash_entry_def)
  have "occupied_get (set_value t i f) i = Some (f w)" "hm_capacity (set_value t i f) = hm_capacity t"
    using i by (simp_all add: occupied_get_def set_value_def)
  then show ?thesis
    using e kw i map_wf_set_value [OF wf i(1,2), of f]
    by (simp add: or_insert_def and_modify_def entry_key_def)
qed

theorem entry_correct_witness:
  "\<exists>e i t'. hash_entry sample_keying sample_map 93 = Some e \<and>
     or_insert (and_modify sample_map e Suc) e 0 = (Inr i, t') \<and> occupied_get t' i = Some 7 \<and>
     held_map sample_keying t' 9 = Some (90, 7)"
proof -
  have "held_map sample_keying sample_map (borrow sample_keying 93) = Some (90, 6)"
    by (simp add: held_map_def sample_map_def sample_borrow)
  then show ?thesis
    using entry_correct [OF sample_map_wf, of 93 Suc 0] by (fastforce simp: sample_borrow)
qed

text \<open>What an insert that is not refused does to the abstract map.\<close>

definition put_held :: "('k, 'q) keying \<Rightarrow> 'k \<times> 'v \<Rightarrow> ('q \<rightharpoonup> 'k \<times> 'v) \<Rightarrow> 'q \<rightharpoonup> 'k \<times> 'v" where
  "put_held kk e m = m(borrow kk (fst e) \<mapsto>
     (case m (borrow kk (fst e)) of Some held \<Rightarrow> (fst held, snd e) | None \<Rightarrow> e))"

lemma map_insert_put:
  assumes wf: "map_wf kk t"
  obtains (taken) u t' where "map_insert kk t key v = Some (Inr u, t')" "map_wf kk t'"
      "held_map kk t' = put_held kk (key, v) (held_map kk t)" "hm_capacity t' = hm_capacity t"
    | (refused) "map_insert kk t key v = Some (Inl (Full_entry key v), t)" "hm_len t = hm_capacity t"
      "held_map kk t (borrow kk key) = None"
proof (cases "held_map kk t (borrow kk key)")
  case None
  show thesis
  proof (cases "hm_len t = hm_capacity t")
    case True
    show thesis by (rule refused [OF map_insert_full [OF wf None True] True None])
  next
    case False
    show thesis by (rule map_insert_new [OF wf None False, of v]) (erule taken, assumption, simp add: put_held_def None, assumption)
  qed
next
  case (Some e)
  then have e: "held_map kk t (borrow kk key) = Some (fst e, snd e)" by simp
  show thesis by (rule map_insert_present [OF wf e, of v]) (erule taken, assumption, simp add: put_held_def e, assumption)
qed

text \<open>
  C21. \<^verbatim>\<open>try_extend\<close> inserts the entries in order up to the first that is refused, which it hands back:
  the entries before it are in the map and none after it is, and it is refused only because its key is
  new and the map holds its capacity.
\<close>

theorem try_extend_correct:
  "map_wf kk t \<Longrightarrow> \<exists>r t'. try_extend kk t es = Some (r, t') \<and> map_wf kk t' \<and> hm_capacity t' = hm_capacity t \<and>
    (case r of
       Inr _ \<Rightarrow> held_map kk t' = fold (put_held kk) es (held_map kk t)
     | Inl full \<Rightarrow> \<exists>before after. es = before @ (full_key full, full_value full) # after \<and>
         held_map kk t' = fold (put_held kk) before (held_map kk t) \<and>
         held_map kk t' (borrow kk (full_key full)) = None \<and> hm_len t' = hm_capacity t')"
proof (induction es arbitrary: t)
  case (Cons e es)
  obtain key v where e: "e = (key, v)" by (cases e)
  show ?case
  proof (rule map_insert_put [OF Cons.prems, of key v])
    fix u t1
    assume t1: "map_insert kk t key v = Some (Inr u, t1)" "map_wf kk t1"
      "held_map kk t1 = put_held kk (key, v) (held_map kk t)" "hm_capacity t1 = hm_capacity t"
    obtain r t' where r: "try_extend kk t1 es = Some (r, t')" "map_wf kk t'" "hm_capacity t' = hm_capacity t1"
      and c: "case r of
         Inr _ \<Rightarrow> held_map kk t' = fold (put_held kk) es (held_map kk t1)
       | Inl full \<Rightarrow> \<exists>before after. es = before @ (full_key full, full_value full) # after \<and>
           held_map kk t' = fold (put_held kk) before (held_map kk t1) \<and>
           held_map kk t' (borrow kk (full_key full)) = None \<and> hm_len t' = hm_capacity t'"
      using Cons.IH [OF t1(2)] by blast
    have step: "try_extend kk t (e # es) = Some (r, t')" using t1(1) r(1) by (simp add: e)
    show ?thesis
    proof (cases r)
      case (Inr _)
      then show ?thesis using step r c t1 by (simp add: e)
    next
      case (Inl full)
      obtain before after where b: "es = before @ (full_key full, full_value full) # after"
          "held_map kk t' = fold (put_held kk) before (held_map kk t1)"
          "held_map kk t' (borrow kk (full_key full)) = None" "hm_len t' = hm_capacity t'"
        using c Inl by auto
      have "e # es = (e # before) @ (full_key full, full_value full) # after" using b(1) by simp
      moreover have "held_map kk t' = fold (put_held kk) (e # before) (held_map kk t)" using b(2) t1(3) by (simp add: e)
      ultimately have "\<exists>before after. e # es = before @ (full_key full, full_value full) # after \<and>
          held_map kk t' = fold (put_held kk) before (held_map kk t)" by blast
      then show ?thesis using step r t1(4) b(3,4) Inl by (intro exI [of _ r] exI [of _ t']) simp
    qed
  next
    assume "map_insert kk t key v = Some (Inl (Full_entry key v), t)" "hm_len t = hm_capacity t"
      "held_map kk t (borrow kk key) = None"
    then show ?thesis using Cons.prems by (auto simp: e intro: exI [of _ "[]"])
  qed
qed simp

theorem try_extend_correct_witness:
  "\<exists>r t'. try_extend sample_keying sample_map [(30, 1), (35, 2)] = Some (r, t') \<and> map_wf sample_keying t' \<and>
     hm_capacity t' = 7"
  using try_extend_correct [OF sample_map_wf, of "[(30, 1), (35, 2)]"] by (auto simp: sample_map_def)

section \<open>Equality\<close>

lemma map_le_card_eq:
  assumes "m \<subseteq>\<^sub>m m'" "finite (dom m')" "card (dom m) = card (dom m')" shows "m = m'"
proof -
  have "dom m = dom m'" using assms by (simp add: card_subset_eq map_le_implies_dom_le)
  then show ?thesis using assms(1) by (auto simp: map_le_def fun_eq_iff dom_def set_eq_iff) (metis option.collapse)+
qed

definition held_values :: "('k, 'q) keying \<Rightarrow> ('k, 'v) hash_map \<Rightarrow> 'q \<Rightarrow> 'v option" where
  "held_values kk t q = map_option snd (held_map kk t q)"

lemma held_values_dom:
  assumes "map_wf kk t" shows "finite (dom (held_values kk t))" "card (dom (held_values kk t)) = hm_len t"
proof -
  have d: "dom (held_values kk t) = dom (held_map kk t)" by (auto simp: held_values_def)
  show "finite (dom (held_values kk t))" unfolding d dom_held_map by simp
  show "card (dom (held_values kk t)) = hm_len t" unfolding d by (rule card_held_map [OF assms])
qed

text \<open>
  C22. Two maps compare equal exactly when they hold the same keys with equal values, whatever their
  hashers, slot counts and capacities.
\<close>

theorem map_eq_correct:
  assumes "map_wf kk t" "map_wf kk' other" "borrow kk' = borrow kk"
  shows "map_eq kk' t other \<longleftrightarrow> held_values kk t = held_values kk' other"
proof -
  have dt: "distinct (slot_keys kk (hm_slots t))" using assms(1) by (simp add: map_wf_def)
  have get: "map_get kk' other q = Some (held_values kk' other q)" for q
    by (simp add: map_get_def get_key_value_held [OF assms(2)] held_values_def)
  have "list_all (\<lambda>(key, v). map_get kk' other (borrow kk' key) = Some (Some v)) (slot_entries (hm_slots t)) \<longleftrightarrow>
      held_values kk t \<subseteq>\<^sub>m held_values kk' other" (is "?all \<longleftrightarrow> _")
  proof
    assume ?all
    then have all: "held_values kk' other (borrow kk (fst e)) = Some (snd e)" if "Some e \<in> set (hm_slots t)" for e
      using that unfolding list_all_iff get assms(3) by (auto simp: case_prod_beta)
    show "held_values kk t \<subseteq>\<^sub>m held_values kk' other"
      unfolding map_le_def
    proof
      fix q assume "q \<in> dom (held_values kk t)"
      then obtain e where e: "held_map kk t q = Some e" by (auto simp: held_values_def)
      then show "held_values kk t q = held_values kk' other q"
        using all [of e] held_map_Some [OF dt, of q e] by (auto simp: held_values_def [of kk t])
    qed
  next
    assume le: "held_values kk t \<subseteq>\<^sub>m held_values kk' other"
    have "held_values kk' other (borrow kk (fst e)) = Some (snd e)" if "Some e \<in> set (hm_slots t)" for e
    proof -
      have "held_values kk t (borrow kk (fst e)) = Some (snd e)"
        using held_map_Some [OF dt, of "borrow kk (fst e)" e] that by (simp add: held_values_def)
      then show ?thesis using le by (metis domI map_le_def)
    qed
    then show ?all unfolding list_all_iff get assms(3) by (auto simp: case_prod_beta)
  qed
  moreover have "held_values kk t = held_values kk' other \<longleftrightarrow>
      hm_len t = hm_len other \<and> held_values kk t \<subseteq>\<^sub>m held_values kk' other"
    using map_le_card_eq [of "held_values kk t" "held_values kk' other"] held_values_dom [OF assms(1)]
      held_values_dom [OF assms(2)] by auto
  ultimately show ?thesis unfolding map_eq_def by blast
qed

theorem map_eq_correct_witness:
  "\<not> map_eq sample_keying sample_map (from_parts (replicate (2 ^ 4) None))"
proof -
  have "held_values sample_keying sample_map 9 = Some 6"
    by (simp add: held_values_def held_map_def sample_map_def sample_borrow)
  moreover have "held_values sample_keying (from_parts (replicate (2 ^ 4) None) :: (nat, nat) hash_map) 9 = None"
    by (simp add: held_values_def held_map_def from_parts_def)
  ultimately show ?thesis
    using map_eq_correct [OF sample_map_wf from_parts_wf [of 4 sample_keying] refl] by auto
qed

end
