(* ===== verification/Fixed_Hash_Set.thy ===== *)
theory Fixed_Hash_Set
  imports Hash_Map_Walks Hash_Map_Entry
begin

text \<open>
  The fixed hash set, \<^verbatim>\<open>crates/fixed-hash-table/src/set.rs\<close>, \<^verbatim>\<open>set/iter.rs\<close> and \<^verbatim>\<open>set/traits.rs\<close>: a hash
  map of the values to unit.  The lazy iterators of the set operations are modelled by the list of the
  values they yield.
\<close>

section \<open>Operations\<close>

record 't hash_set =
  hs_map :: "('t, unit) hash_map"

definition set_len :: "'t hash_set \<Rightarrow> nat" where
  "set_len s = hm_len (hs_map s)"

definition set_contains :: "('t, 'q) keying \<Rightarrow> 't hash_set \<Rightarrow> 'q \<Rightarrow> bool option" where
  "set_contains kk s q = contains_key kk (hs_map s) q"

definition set_get :: "('t, 'q) keying \<Rightarrow> 't hash_set \<Rightarrow> 'q \<Rightarrow> 't option option" where
  "set_get kk s q = map_option (map_option fst) (get_key_value kk (hs_map s) q)"

definition set_clear :: "'t hash_set \<Rightarrow> 't hash_set" where
  "set_clear s = s\<lparr>hs_map := map_clear (hs_map s)\<rparr>"

definition set_insert :: "('t, 'q) keying \<Rightarrow> 't hash_set \<Rightarrow> 't \<Rightarrow>
    ((('t, unit) full_entry + bool) \<times> 't hash_set) option" where
  "set_insert kk s x = map_option
     (\<lambda>(r, t). (map_sum id (\<lambda>replaced. replaced = None) r, s\<lparr>hs_map := t\<rparr>)) (map_insert kk (hs_map s) x ())"

text \<open>\<^verbatim>\<open>insert(value, ())?\<close> returns the refusal, with what the removal left.\<close>

definition set_replace :: "('t, 'q) keying \<Rightarrow> 't hash_set \<Rightarrow> 't \<Rightarrow>
    ((('t, unit) full_entry + 't option) \<times> 't hash_set) option" where
  "set_replace kk s x =
    (case remove_entry kk (hs_map s) (borrow kk x) of
       None \<Rightarrow> None
     | Some (removed, t) \<Rightarrow>
         (case map_insert kk t x () of
            None \<Rightarrow> None
          | Some (Inl full, t) \<Rightarrow> Some (Inl full, s\<lparr>hs_map := t\<rparr>)
          | Some (Inr _, t) \<Rightarrow> Some (Inr (map_option fst removed), s\<lparr>hs_map := t\<rparr>)))"

definition set_remove :: "('t, 'q) keying \<Rightarrow> 't hash_set \<Rightarrow> 'q \<Rightarrow> (bool \<times> 't hash_set) option" where
  "set_remove kk s q = map_option
     (\<lambda>(removed, t). (removed \<noteq> None, s\<lparr>hs_map := t\<rparr>)) (map_remove kk (hs_map s) q)"

definition set_take :: "('t, 'q) keying \<Rightarrow> 't hash_set \<Rightarrow> 'q \<Rightarrow> ('t option \<times> 't hash_set) option" where
  "set_take kk s q = map_option
     (\<lambda>(removed, t). (map_option fst removed, s\<lparr>hs_map := t\<rparr>)) (remove_entry kk (hs_map s) q)"

definition set_retain :: "('t, 'q) keying \<Rightarrow> ('s \<Rightarrow> 't \<Rightarrow> bool \<times> 's) \<Rightarrow> 's \<Rightarrow> 't hash_set \<Rightarrow>
    ('s \<times> 't hash_set) option" where
  "set_retain kk keep st s = map_option (map_prod id (\<lambda>t. s\<lparr>hs_map := t\<rparr>))
     (map_retain kk (\<lambda>st x u. case keep st x of (keeps, st) \<Rightarrow> (keeps, u, st)) st (hs_map s))"

definition set_try_extend :: "('t, 'q) keying \<Rightarrow> 't hash_set \<Rightarrow> 't list \<Rightarrow>
    ((('t, unit) full_entry + unit) \<times> 't hash_set) option" where
  "set_try_extend kk s xs = map_option (map_prod id (\<lambda>t. s\<lparr>hs_map := t\<rparr>))
     (try_extend kk (hs_map s) (map (\<lambda>x. (x, ())) xs))"

definition set_eq :: "('t, 'q) keying \<Rightarrow> 't hash_set \<Rightarrow> 't hash_set \<Rightarrow> bool" where
  "set_eq kk s other \<longleftrightarrow> map_eq kk (hs_map s) (hs_map other)"

section \<open>The values, and operations on two sets\<close>

definition set_iter :: "'t hash_set \<Rightarrow> 't list" where
  "set_iter s = map fst (slot_entries (hm_slots (hs_map s)))"

text \<open>The keying is the other set's.\<close>

definition set_difference :: "('t, 'q) keying \<Rightarrow> 't hash_set \<Rightarrow> 't hash_set \<Rightarrow> 't list" where
  "set_difference kk s other = filter (\<lambda>x. set_contains kk other (borrow kk x) \<noteq> Some True) (set_iter s)"

definition set_intersection :: "('t, 'q) keying \<Rightarrow> 't hash_set \<Rightarrow> 't hash_set \<Rightarrow> 't list" where
  "set_intersection kk s other = filter (\<lambda>x. set_contains kk other (borrow kk x) = Some True) (set_iter s)"

text \<open>Each set is given with its own keying.\<close>

definition symmetric_difference :: "('t, 'q) keying \<Rightarrow> ('t, 'q) keying \<Rightarrow> 't hash_set \<Rightarrow> 't hash_set \<Rightarrow> 't list" where
  "symmetric_difference kk kk' s other = set_difference kk' s other @ set_difference kk other s"

definition set_union :: "('t, 'q) keying \<Rightarrow> 't hash_set \<Rightarrow> 't hash_set \<Rightarrow> 't list" where
  "set_union kk s other = set_iter s @ set_difference kk other s"

definition is_disjoint :: "('t, 'q) keying \<Rightarrow> ('t, 'q) keying \<Rightarrow> 't hash_set \<Rightarrow> 't hash_set \<Rightarrow> bool" where
  "is_disjoint kk kk' s other \<longleftrightarrow>
    (if set_len s \<le> set_len other
     then list_all (\<lambda>x. set_contains kk' other (borrow kk' x) \<noteq> Some True) (set_iter s)
     else list_all (\<lambda>x. set_contains kk s (borrow kk x) \<noteq> Some True) (set_iter other))"

definition is_subset :: "('t, 'q) keying \<Rightarrow> 't hash_set \<Rightarrow> 't hash_set \<Rightarrow> bool" where
  "is_subset kk' s other \<longleftrightarrow> set_len s \<le> set_len other \<and>
    list_all (\<lambda>x. set_contains kk' other (borrow kk' x) = Some True) (set_iter s)"

definition is_superset :: "('t, 'q) keying \<Rightarrow> 't hash_set \<Rightarrow> 't hash_set \<Rightarrow> bool" where
  "is_superset kk s other \<longleftrightarrow> is_subset kk other s"

section \<open>Laws\<close>

abbreviation set_wf :: "('t, 'q) keying \<Rightarrow> 't hash_set \<Rightarrow> bool" where
  "set_wf kk s \<equiv> map_wf kk (hs_map s)"

text \<open>The values held, as their borrowed forms.\<close>

definition elements :: "('t, 'q) keying \<Rightarrow> 't hash_set \<Rightarrow> 'q set" where
  "elements kk s = dom (held_map kk (hs_map s))"

lemma elements_iter: "elements kk s = borrow kk ` set (set_iter s)"
  by (simp add: elements_def dom_held_map set_iter_def image_image)

lemma distinct_iter: "set_wf kk s \<Longrightarrow> distinct (map (borrow kk) (set_iter s))"
  by (simp add: set_iter_def map_wf_def comp_def)

lemma set_contains_iff:
  assumes "set_wf kk s" shows "set_contains kk s q = Some (q \<in> elements kk s)"
proof (cases "held_map kk (hs_map s) q")
  case None
  obtain i where "find_entry kk (hs_map s) q = Some (Inl i)" by (rule find_entry_absent [OF assms None])
  then show ?thesis using None by (simp add: set_contains_def contains_key_def elements_def domIff)
next
  case (Some e)
  obtain i where "find_entry kk (hs_map s) q = Some (Inr i)" by (rule held_at [OF assms Some])
  then show ?thesis using Some by (simp add: set_contains_def contains_key_def elements_def domIff)
qed

lemma set_len_card: "set_wf kk s \<Longrightarrow> set_len s = card (elements kk s)"
  by (simp add: set_len_def elements_def card_held_map)

lemma finite_elements: "finite (elements kk s)"
  by (simp add: elements_iter)

lemma difference_elements:
  assumes "set_wf kk' other" "borrow kk' = borrow kk"
  shows "borrow kk ` set (set_difference kk' s other) = elements kk s - elements kk' other"
  using assms by (auto simp: set_difference_def set_contains_iff elements_iter [of kk s])

lemma distinct_difference:
  assumes "set_wf kk s" shows "distinct (map (borrow kk) (set_difference kk' s other))"
  using distinct_iter [OF assms] by (simp add: set_difference_def distinct_map_filter)

lemma all_contained:
  assumes "set_wf kk' other" "borrow kk' = borrow kk"
  shows "list_all (\<lambda>x. set_contains kk' other (borrow kk' x) = Some True) (set_iter s) \<longleftrightarrow> elements kk s \<subseteq> elements kk' other"
    "list_all (\<lambda>x. set_contains kk' other (borrow kk' x) \<noteq> Some True) (set_iter s) \<longleftrightarrow> elements kk s \<inter> elements kk' other = {}"
  using assms by (auto simp: list_all_iff set_contains_iff elements_iter [of kk s])

section \<open>Properties\<close>

text \<open>
  C23. The operations on two sets are the sets': what each yields, as a set, is the difference,
  intersection, symmetric difference or union of the two, with no value twice, and the tests hold
  exactly when the sets are disjoint, included or equal, whatever the two sets' hashers and slots.
\<close>

theorem set_operations_correct:
  assumes "set_wf kk s" "set_wf kk' other" "borrow kk' = borrow kk"
  shows "borrow kk ` set (set_difference kk' s other) = elements kk s - elements kk' other \<and>
    borrow kk ` set (set_intersection kk' s other) = elements kk s \<inter> elements kk' other \<and>
    borrow kk ` set (symmetric_difference kk kk' s other) =
      (elements kk s - elements kk' other) \<union> (elements kk' other - elements kk s) \<and>
    borrow kk ` set (set_union kk s other) = elements kk s \<union> elements kk' other \<and>
    distinct (map (borrow kk) (set_union kk s other)) \<and>
    distinct (map (borrow kk) (symmetric_difference kk kk' s other)) \<and>
    (is_disjoint kk kk' s other \<longleftrightarrow> elements kk s \<inter> elements kk' other = {}) \<and>
    (is_subset kk' s other \<longleftrightarrow> elements kk s \<subseteq> elements kk' other) \<and>
    (is_superset kk s other \<longleftrightarrow> elements kk' other \<subseteq> elements kk s)"
proof -
  define A where A_def: "A = elements kk s"
  define B where B_def: "B = elements kk' other"
  have d: "borrow kk ` set (set_difference kk' s other) = A - B"
    unfolding A_def B_def by (rule difference_elements [OF assms(2,3)])
  have d': "borrow kk ` set (set_difference kk other s) = B - A"
    using difference_elements [OF assms(1) assms(3) [symmetric], of other] assms(3) unfolding A_def B_def by simp
  have i: "borrow kk ` set (set_iter s) = A" unfolding A_def by (rule elements_iter [symmetric])
  have int: "borrow kk ` set (set_intersection kk' s other) = A \<inter> B"
    using assms(2,3) unfolding A_def B_def
    by (auto simp: set_intersection_def set_contains_iff elements_iter [of kk s])
  have dist: "distinct (map (borrow kk) (set_iter s))" "distinct (map (borrow kk) (set_difference kk' s other))"
      "distinct (map (borrow kk) (set_difference kk other s))"
    using distinct_iter [OF assms(1)] distinct_difference [OF assms(1)] distinct_difference [OF assms(2)] assms(3)
    by simp_all
  have sub: "is_subset kk' s other \<longleftrightarrow> A \<subseteq> B"
    using all_contained(1) [OF assms(2,3), of s] card_mono [OF finite_elements, of A kk' other]
      set_len_card [OF assms(1)] set_len_card [OF assms(2)]
    unfolding is_subset_def A_def B_def by auto
  have sup: "is_superset kk s other \<longleftrightarrow> B \<subseteq> A"
    using all_contained(1) [OF assms(1) assms(3) [symmetric], of other] card_mono [OF finite_elements, of B kk s]
      set_len_card [OF assms(1)] set_len_card [OF assms(2)]
    unfolding is_superset_def is_subset_def A_def B_def by auto
  have dis: "is_disjoint kk kk' s other \<longleftrightarrow> A \<inter> B = {}"
    using all_contained(2) [OF assms(2,3), of s] all_contained(2) [OF assms(1) assms(3) [symmetric], of other]
    unfolding is_disjoint_def A_def B_def by auto
  show ?thesis
    unfolding A_def [symmetric] B_def [symmetric]
    using d d' i int dist sub sup dis
    unfolding symmetric_difference_def set_union_def set_append map_append distinct_append image_Un set_map by auto
qed

text \<open>Two sets of eight slots: of 10 and 90, and of 95 and 21.\<close>

definition sample_set :: "nat hash_set" where
  "sample_set = \<lparr>hs_map = \<lparr>hm_slots = [None, Some (10, ()), Some (90, ()), None, None, None, None, None],
     hm_len = 2, hm_capacity = 7, hm_shift = 61\<rparr>\<rparr>"

definition sample_other :: "nat hash_set" where
  "sample_other = \<lparr>hs_map = \<lparr>hm_slots = [None, Some (95, ()), Some (21, ()), None, None, None, None, None],
     hm_len = 2, hm_capacity = 7, hm_shift = 61\<rparr>\<rparr>"

lemma two_inserted_wf:
  assumes "map_insert sample_keying (from_parts (replicate 8 None)) a () = Some (r, t)"
    and "map_insert sample_keying t b () = Some (r', t')"
  shows "map_wf sample_keying t'"
proof -
  have "map_wf sample_keying (from_parts (replicate (2 ^ 3) None) :: (nat, unit) hash_map)"
    by (rule from_parts_wf) simp
  then have "map_wf sample_keying (from_parts (replicate 8 None) :: (nat, unit) hash_map)" by simp
  then show ?thesis by (rule map_insert_wf [OF map_insert_wf [OF _ assms(1)] assms(2)])
qed

lemma sample_sets_made:
  "map_insert sample_keying (from_parts (replicate 8 None)) 10 () =
     Some (Inr None, \<lparr>hm_slots = [None, Some (10, ()), None, None, None, None, None, None],
       hm_len = 1, hm_capacity = 7, hm_shift = 61\<rparr>)"
  "map_insert sample_keying (from_parts (replicate 8 None)) 95 () =
     Some (Inr None, \<lparr>hm_slots = [None, Some (95, ()), None, None, None, None, None, None],
       hm_len = 1, hm_capacity = 7, hm_shift = 61\<rparr>)"
  "map_insert sample_keying \<lparr>hm_slots = [None, Some (10, ()), None, None, None, None, None, None],
       hm_len = 1, hm_capacity = 7, hm_shift = 61\<rparr> 90 () = Some (Inr None, hs_map sample_set)"
  "map_insert sample_keying \<lparr>hm_slots = [None, Some (95, ()), None, None, None, None, None, None],
       hm_len = 1, hm_capacity = 7, hm_shift = 61\<rparr> 21 () = Some (Inr None, hs_map sample_other)"
  subgoal by (simp add: map_insert_def eight_slots sample_eval place_entry_def)
  subgoal by (simp add: map_insert_def eight_slots sample_eval place_entry_def)
  subgoal by (simp add: map_insert_def sample_eval place_entry_def sample_set_def)
  subgoal by (simp add: map_insert_def sample_eval place_entry_def sample_other_def)
  done

lemma sample_sets_wf: "set_wf sample_keying sample_set" "set_wf sample_keying sample_other"
  by (rule two_inserted_wf [OF sample_sets_made(1,3)], rule two_inserted_wf [OF sample_sets_made(2,4)])

lemma sample_elements: "elements sample_keying sample_set = {1, 9}" "elements sample_keying sample_other = {9, 2}"
  by (auto simp: elements_iter set_iter_def sample_set_def sample_other_def sample_borrow)

theorem set_operations_correct_witness:
  "borrow sample_keying ` set (set_union sample_keying sample_set sample_other) = {1, 9, 2} \<and>
   borrow sample_keying ` set (set_intersection sample_keying sample_set sample_other) = {9} \<and>
   \<not> is_disjoint sample_keying sample_keying sample_set sample_other"
  using set_operations_correct [OF sample_sets_wf refl] unfolding sample_elements by auto

text \<open>
  C24. \<^verbatim>\<open>replace\<close> on every branch: a value held equal to the new one is handed back and the new one is
  held in its place, even in a full set; a new value is added, or refused with nothing changed when the
  set is full.
\<close>

theorem set_replace_correct:
  assumes wf: "set_wf kk s"
  shows "\<exists>r s'. set_replace kk s x = Some (r, s') \<and> set_wf kk s' \<and>
    (case held_map kk (hs_map s) (borrow kk x) of
       Some held \<Rightarrow> r = Inr (Some (fst held)) \<and>
         held_map kk (hs_map s') = (held_map kk (hs_map s))(borrow kk x \<mapsto> (x, ()))
     | None \<Rightarrow>
         if set_len s = hm_capacity (hs_map s) then r = Inl (Full_entry x ()) \<and> s' = s
         else r = Inr None \<and> held_map kk (hs_map s') = (held_map kk (hs_map s))(borrow kk x \<mapsto> (x, ())))"
proof (cases "held_map kk (hs_map s) (borrow kk x)")
  case None
  note gone = remove_entry_absent [OF wf None]
  show ?thesis
  proof (cases "hm_len (hs_map s) = hm_capacity (hs_map s)")
    case True
    then show ?thesis
      using gone map_insert_full [OF wf None True, of "()"] None wf by (simp add: set_replace_def set_len_def)
  next
    case False
    obtain t' where "map_insert kk (hs_map s) x () = Some (Inr None, t')" "map_wf kk t'"
        "held_map kk t' = (held_map kk (hs_map s))(borrow kk x \<mapsto> (x, ()))"
      by (rule map_insert_new [OF wf None False])
    then show ?thesis using gone None False by (simp add: set_replace_def set_len_def)
  qed
next
  case (Some held)
  obtain t where t: "remove_entry kk (hs_map s) (borrow kk x) = Some (Some held, t)" "map_wf kk t"
      "hm_capacity t = hm_capacity (hs_map s)" "hm_len t = hm_len (hs_map s) - 1"
      "held_map kk t = (held_map kk (hs_map s))(borrow kk x := None)"
    by (rule remove_entry_present [OF wf Some])
  have "borrow kk x \<in> dom (held_map kk (hs_map s))" using Some by blast
  then have "0 < hm_len (hs_map s)"
    using card_held_map [OF wf] dom_held_map [of kk "hs_map s"] by (metis List.finite_set card_gt_0_iff empty_iff)
  moreover have "hm_len (hs_map s) \<le> hm_capacity (hs_map s)" using wf by (simp add: map_wf_def)
  ultimately have room: "hm_len t \<noteq> hm_capacity t" using t(3,4) by linarith
  have absent: "held_map kk t (borrow kk x) = None" using t(5) by simp
  obtain t' where "map_insert kk t x () = Some (Inr None, t')" "map_wf kk t'"
      "held_map kk t' = (held_map kk t)(borrow kk x \<mapsto> (x, ()))"
    by (rule map_insert_new [OF t(2) absent room])
  then show ?thesis using t(1,5) Some by (simp add: set_replace_def)
qed

theorem set_replace_correct_witness:
  "\<exists>s'. set_replace sample_keying sample_set 97 = Some (Inr (Some 90), s') \<and>
     held_map sample_keying (hs_map s') 9 = Some (97, ())"
proof -
  have "held_map sample_keying (hs_map sample_set) (borrow sample_keying 97) = Some (90, ())"
    by (simp add: held_map_def sample_set_def sample_borrow)
  then show ?thesis using set_replace_correct [OF sample_sets_wf(1), of 97] by (auto simp: sample_borrow)
qed

end
