(* ===== verification/Spec2Isabelle.thy ===== *)
theory Spec2Isabelle
  imports Ordered_Table Domain_Lists Identities Lineage_Handles Window Gate_Search Durability_Marks Durability_Runs Durability_Ready
    Hash_Map_Size Fixed_Hasher Fixed_Hash_Set
begin

text \<open>
  A verification of the portable durability engine of \<^verbatim>\<open>src/crates/durable-ioring\<close>. A consumer pushes
  writes into \<^emph>\<open>lineages\<close> at ordered epochs, seals a lineage through an epoch, and is told when everything
  at or below it is durable. The engine keeps, for every lineage, a high-water mark it may claim, the seals
  ahead of the mark and the writes they cover, the flushes each seal still awaits, and the failures that
  put a write in doubt.

  \<^medskip>
  The parts, and the theories that model them:

  \<^item> \<^theory_text>\<open>Dioring_Prelude\<close>: association lists sorted by key with \<^verbatim>\<open>tput\<close>, \<^verbatim>\<open>tdel\<close>, \<^verbatim>\<open>tmod\<close>, and the lemmas on
    lists and options the others share.
  \<^item> \<^theory_text>\<open>Ordered_Table\<close> (\<^verbatim>\<open>ordered.rs\<close>): the slot array with tombstones, and its refinement to a bounded map.
  \<^item> \<^theory_text>\<open>Capacity\<close> (\<^verbatim>\<open>capacity.rs\<close>): the sizes derived from the declared limits, at their machine width.
  \<^item> \<^theory_text>\<open>Domain_Lists\<close> (\<^verbatim>\<open>domain_lists.rs\<close>, \<^verbatim>\<open>domains.rs\<close>): rows of flush domains claimed and released.
  \<^item> \<^theory_text>\<open>Identities\<close> and \<^theory_text>\<open>Lineage_Handles\<close> (\<^verbatim>\<open>ids.rs\<close>): failure tokens and counted lineage handles.
  \<^item> \<^theory_text>\<open>Window\<close> (\<^verbatim>\<open>durability/window.rs\<close>): the ordering window and the holders of each place.
  \<^item> \<^theory_text>\<open>Durability_State\<close> to \<^theory_text>\<open>Durability_Ops\<close> (\<^verbatim>\<open>durability.rs\<close> and \<^verbatim>\<open>durability/*.rs\<close>): the state machine, one
    definition for each method, over a record with the fields of the struct.
  \<^item> \<^theory_text>\<open>Gate_Search\<close> (\<^verbatim>\<open>durability/gates.rs\<close>): the search for a cycle of gates.
  \<^item> \<^theory_text>\<open>Durability_Marks\<close>: the seals of a lineage stay in order and its mark only rises.
\<close>

end
